(* ===== verification/Prelude.thy ===== *)
theory Prelude
  imports Main "HOL-Library.List_Lexorder" "HOL-Library.Char_ord"
begin

text \<open>
  What the components share. Fallible Rust functions return a \<open>result\<close>, the sum with the
  error on the left, and \<open>and_then\<close> is the \<open>?\<close> operator. A Rust \<open>String\<close> is its UTF-8 bytes,
  a \<open>char list\<close> whose characters are bytes: \<open>len()\<close> is the length, \<open>Ord\<close> is the
  lexicographic order on bytes, and \<open>chars()\<close> decodes code points with \<open>utf8_chars\<close>. The
  collections \<open>result_simps\<close> and \<open>ascii_simps\<close> carry the automation of the component proofs.
\<close>

named_theorems result_simps
named_theorems ascii_simps

section \<open>Results\<close>

type_synonym ('e, 'a) result = "'e + 'a"

fun and_then :: "('e, 'a) result \<Rightarrow> ('a \<Rightarrow> ('e, 'b) result) \<Rightarrow> ('e, 'b) result" where
  "and_then (Inl e) f = Inl e"
| "and_then (Inr a) f = f a"

definition ok_or :: "'e \<Rightarrow> 'a option \<Rightarrow> ('e, 'a) result" where
  "ok_or e r = (case r of None \<Rightarrow> Inl e | Some a \<Rightarrow> Inr a)"

fun map_err :: "('e \<Rightarrow> 'f) \<Rightarrow> ('e, 'a) result \<Rightarrow> ('f, 'a) result" where
  "map_err g (Inl e) = Inl (g e)"
| "map_err g (Inr a) = Inr a"

fun is_ok :: "('e, 'a) result \<Rightarrow> bool" where
  "is_ok (Inl e) = False"
| "is_ok (Inr a) = True"

text \<open>A \<open>for\<close> loop whose body ends in \<open>?\<close>: it stops at the first error.\<close>

fun try_fold :: "('s \<Rightarrow> 'a \<Rightarrow> ('e, 's) result) \<Rightarrow> 's \<Rightarrow> 'a list \<Rightarrow> ('e, 's) result" where
  "try_fold f s [] = Inr s"
| "try_fold f s (x # xs) = and_then (f s x) (\<lambda>s'. try_fold f s' xs)"

lemma and_then_Inr_iff [result_simps]:
  "and_then r f = Inr b \<longleftrightarrow> (\<exists>a. r = Inr a \<and> f a = Inr b)"
  by (cases r) auto

lemma and_then_Inl_iff [result_simps]:
  "and_then r f = Inl e \<longleftrightarrow> r = Inl e \<or> (\<exists>a. r = Inr a \<and> f a = Inl e)"
  by (cases r) auto

lemma and_then_cong [fundef_cong]:
  "r = r' \<Longrightarrow> (\<And>a. r' = Inr a \<Longrightarrow> f a = f' a) \<Longrightarrow> and_then r f = and_then r' f'"
  by (cases r') auto

lemma ok_or_simps [simp]: "ok_or e None = Inl e" "ok_or e (Some a) = Inr a"
  by (simp_all add: ok_or_def)

lemma ok_or_iff [result_simps]:
  "ok_or e r = Inr a \<longleftrightarrow> r = Some a"
  "ok_or e r = Inl e' \<longleftrightarrow> r = None \<and> e' = e"
  by (auto simp: ok_or_def split: option.splits)

lemma map_err_iff [result_simps]:
  "map_err g r = Inr a \<longleftrightarrow> r = Inr a"
  "map_err g r = Inl f \<longleftrightarrow> (\<exists>e. r = Inl e \<and> f = g e)"
  by (cases r; auto)+

lemma is_ok_iff: "is_ok r \<longleftrightarrow> (\<exists>a. r = Inr a)"
  by (cases r) auto

lemma try_fold_append:
  "try_fold f s (xs @ ys) = and_then (try_fold f s xs) (\<lambda>s'. try_fold f s' ys)"
proof (induction xs arbitrary: s)
  case Nil
  then show ?case by simp
next
  case (Cons x xs)
  then show ?case by (cases "f s x") simp_all
qed

lemma try_fold_invariant:
  "P s \<Longrightarrow> (\<And>s x s'. P s \<Longrightarrow> x \<in> set xs \<Longrightarrow> f s x = Inr s' \<Longrightarrow> P s') \<Longrightarrow>
    try_fold f s xs = Inr s' \<Longrightarrow> P s'"
proof (induction xs arbitrary: s)
  case Nil
  then show ?case by simp
next
  case (Cons x xs)
  from Cons.prems(3) obtain t where t: "f s x = Inr t" "try_fold f t xs = Inr s'"
    by (auto simp: result_simps)
  have "P t" using Cons.prems(2) [OF Cons.prems(1) _ t(1)] by simp
  then show ?case using Cons.IH [OF _ _ t(2)] Cons.prems(2) by (meson list.set_intros(2))
qed

section \<open>Bytes\<close>

abbreviation byte :: "char \<Rightarrow> nat" where
  "byte c \<equiv> of_char c"

definition is_digit :: "char \<Rightarrow> bool" where
  "is_digit c \<longleftrightarrow> 48 \<le> byte c \<and> byte c \<le> 57"

definition is_lower :: "char \<Rightarrow> bool" where
  "is_lower c \<longleftrightarrow> 97 \<le> byte c \<and> byte c \<le> 122"

definition is_upper :: "char \<Rightarrow> bool" where
  "is_upper c \<longleftrightarrow> 65 \<le> byte c \<and> byte c \<le> 90"

definition to_lower :: "char \<Rightarrow> char" where
  "to_lower c = (if is_upper c then char_of (byte c + 32) else c)"

definition is_ascii :: "char \<Rightarrow> bool" where
  "is_ascii c \<longleftrightarrow> byte c < 128"

definition eq_ignore_ascii_case :: "string \<Rightarrow> string \<Rightarrow> bool" where
  "eq_ignore_ascii_case s t \<longleftrightarrow> map to_lower s = map to_lower t"

lemmas [ascii_simps] = is_digit_def is_lower_def is_upper_def is_ascii_def

lemma byte_bound: "byte c < 256"
  by (cases c) simp

lemma to_lower_lower [simp]: "is_lower c \<Longrightarrow> to_lower c = c"
  by (simp add: to_lower_def ascii_simps)

lemma to_lower_idem [simp]: "to_lower (to_lower c) = to_lower c"
  by (auto simp: to_lower_def ascii_simps)

lemma eq_ignore_ascii_case_refl [simp]: "eq_ignore_ascii_case s s"
  by (simp add: eq_ignore_ascii_case_def)

lemma lower_digit_ascii: "is_lower c \<or> is_digit c \<Longrightarrow> is_ascii c"
  by (auto simp: ascii_simps)

section \<open>Splitting and replacing\<close>

text \<open>\<open>str::split\<close> on one byte: always at least one piece.\<close>

fun split_on :: "char \<Rightarrow> string \<Rightarrow> string list" where
  "split_on c [] = [[]]"
| "split_on c (x # xs) =
     (if x = c then [] # split_on c xs
      else (case split_on c xs of [] \<Rightarrow> [[x]] | y # ys \<Rightarrow> (x # y) # ys))"

fun join_with :: "char \<Rightarrow> string list \<Rightarrow> string" where
  "join_with c [] = []"
| "join_with c [s] = s"
| "join_with c (s # t # ss) = s @ c # join_with c (t # ss)"

lemma split_on_nonempty [simp]: "split_on c s \<noteq> []"
  by (induction s) (auto split: list.splits)

lemma join_split_on: "join_with c (split_on c s) = s"
proof (induction s)
  case Nil
  then show ?case by simp
next
  case (Cons x xs)
  obtain y ys where y: "split_on c xs = y # ys"
    by (cases "split_on c xs") auto
  with Cons show ?case by (cases ys) auto
qed

lemma split_on_pieces: "p \<in> set (split_on c s) \<Longrightarrow> c \<notin> set p \<and> set p \<subseteq> set s"
proof (induction s arbitrary: p)
  case Nil
  then show ?case by simp
next
  case (Cons x xs)
  then show ?case by (fastforce split: if_splits list.splits)
qed

lemma split_on_none: "c \<notin> set s \<Longrightarrow> split_on c s = [s]"
  by (induction s) auto

lemma split_on_append: "c \<notin> set s \<Longrightarrow> split_on c (s @ c # t) = s # split_on c t"
  by (induction s) auto

fun strip_prefix :: "string \<Rightarrow> string \<Rightarrow> string option" where
  "strip_prefix [] s = Some s"
| "strip_prefix (p # ps) [] = None"
| "strip_prefix (p # ps) (x # xs) = (if p = x then strip_prefix ps xs else None)"

lemma strip_prefix_iff: "strip_prefix p s = Some t \<longleftrightarrow> s = p @ t"
  by (induction p s rule: strip_prefix.induct) auto

lemma strip_prefix_append [simp]: "strip_prefix p (p @ t) = Some t"
  by (simp add: strip_prefix_iff)

section \<open>Code points of UTF-8 text\<close>

definition utf8_width :: "char \<Rightarrow> nat" where
  "utf8_width c =
     (if byte c < 128 then 1 else if byte c < 224 then 2 else if byte c < 240 then 3 else 4)"

text \<open>
  The bytes of each character, one list a character. The text is valid UTF-8, as every
  \<open>String\<close> is, so a lead byte says how many bytes follow.
\<close>

function utf8_segments :: "string \<Rightarrow> string list" where
  "utf8_segments [] = []"
| "utf8_segments (c # cs) =
     (c # take (utf8_width c - 1) cs) # utf8_segments (drop (utf8_width c - 1) cs)"
  by pat_completeness auto
termination
  by (relation "measure length") auto

definition code_point :: "string \<Rightarrow> nat" where
  "code_point s =
     (case s of
        [] \<Rightarrow> 0
      | [a] \<Rightarrow> byte a
      | [a, b] \<Rightarrow> (byte a mod 32) * 64 + byte b mod 64
      | [a, b, c] \<Rightarrow> ((byte a mod 16) * 64 + byte b mod 64) * 64 + byte c mod 64
      | a # b # c # d # _ \<Rightarrow>
          (((byte a mod 8) * 64 + byte b mod 64) * 64 + byte c mod 64) * 64 + byte d mod 64)"

definition utf8_chars :: "string \<Rightarrow> nat list" where
  "utf8_chars s = map code_point (utf8_segments s)"

text \<open>\<open>char::is_control\<close> (category Cc) and \<open>char::is_whitespace\<close> (White_Space).\<close>

definition is_control :: "nat \<Rightarrow> bool" where
  "is_control p \<longleftrightarrow> p < 32 \<or> (127 \<le> p \<and> p < 160)"

definition is_whitespace :: "nat \<Rightarrow> bool" where
  "is_whitespace p \<longleftrightarrow>
     (9 \<le> p \<and> p \<le> 13) \<or> p = 32 \<or> p = 133 \<or> p = 160 \<or> p = 5760 \<or> (8192 \<le> p \<and> p \<le> 8202)
     \<or> p = 8232 \<or> p = 8233 \<or> p = 8239 \<or> p = 8287 \<or> p = 12288"

text \<open>\<open>str::trim\<close>: drops the whitespace characters at both ends.\<close>

definition str_trim :: "string \<Rightarrow> string" where
  "str_trim s =
     (let white = (\<lambda>seg. is_whitespace (code_point seg));
          front = dropWhile white (utf8_segments s)
      in concat (rev (dropWhile white (rev front))))"

lemma concat_utf8_segments: "concat (utf8_segments s) = s"
  by (induction s rule: utf8_segments.induct) simp_all

lemma utf8_segments_ascii:
  "list_all is_ascii s \<Longrightarrow> utf8_segments s = map (\<lambda>c. [c]) s"
  by (induction s) (auto simp: utf8_width_def is_ascii_def)

lemma utf8_chars_ascii: "list_all is_ascii s \<Longrightarrow> utf8_chars s = map byte s"
  by (simp add: utf8_chars_def utf8_segments_ascii code_point_def)

lemma str_trim_ascii:
  assumes "list_all is_ascii s" and "\<forall>c \<in> set s. \<not> is_whitespace (byte c)"
  shows "str_trim s = s"
proof -
  let ?w = "\<lambda>seg. is_whitespace (code_point seg)"
  have seg: "utf8_segments s = map (\<lambda>c. [c]) s"
    using assms(1) by (rule utf8_segments_ascii)
  have none: "\<not> ?w [c]" if "c \<in> set s" for c
    using assms(2) that by (simp add: code_point_def)
  have fwd: "dropWhile ?w (utf8_segments s) = utf8_segments s"
    unfolding seg using none by (cases s) simp_all
  have bwd: "dropWhile ?w (rev (utf8_segments s)) = rev (utf8_segments s)"
    unfolding seg using none by (cases s rule: rev_cases) simp_all
  show ?thesis
    by (simp add: str_trim_def fwd bwd concat_utf8_segments)
qed

end
