(* ===== verification/Decimal.thy ===== *)
theory Decimal
  imports Prelude
begin

text \<open>
  Decimal text as Rust's \<open>{}\<close> and \<open>{:0w}\<close> write it and as an accumulator over digits reads it.
  \<open>fixed w n\<close> is the last \<open>w\<close> decimal digits of \<open>n\<close>: what a zero-padded number of width \<open>w\<close>
  is when it fits.
\<close>

definition digit_char :: "nat \<Rightarrow> char" where
  "digit_char n = char_of (48 + n)"

definition digit_value :: "char \<Rightarrow> nat" where
  "digit_value c = byte c - 48"

text \<open>\<open>{}\<close> of an unsigned number.\<close>

fun dec :: "nat \<Rightarrow> string" where
  "dec n = (if n < 10 then [digit_char n] else dec (n div 10) @ [digit_char (n mod 10)])"

declare dec.simps [simp del]

text \<open>\<open>{:0w}\<close>: the sign counts in the width.\<close>

definition pad0 :: "nat \<Rightarrow> int \<Rightarrow> string" where
  "pad0 w i =
     (let sign = (if i < 0 then ''-'' else '''');
          text = dec (nat \<bar>i\<bar>)
      in sign @ replicate (w - length sign - length text) (CHR ''0'') @ text)"

primrec fixed :: "nat \<Rightarrow> nat \<Rightarrow> string" where
  "fixed 0 n = []"
| "fixed (Suc w) n = fixed w (n div 10) @ [digit_char (n mod 10)]"

text \<open>Reading digits into an accumulator; \<open>None\<close> at the first byte that is no digit.\<close>

fun fold_digits :: "nat \<Rightarrow> string \<Rightarrow> nat option" where
  "fold_digits t [] = Some t"
| "fold_digits t (c # cs) =
     (if is_digit c then fold_digits (t * 10 + digit_value c) cs else None)"

section \<open>Digits\<close>

lemma byte_digit_char: "n < 10 \<Longrightarrow> byte (digit_char n) = 48 + n"
  by (simp add: digit_char_def)

lemma digit_char_facts [simp]:
  assumes "n < 10"
  shows "is_digit (digit_char n)" and "digit_value (digit_char n) = n"
  using assms by (simp_all add: is_digit_def digit_value_def byte_digit_char)

lemma digit_char_value: "is_digit c \<Longrightarrow> digit_char (digit_value c) = c"
  by (simp add: digit_char_def digit_value_def is_digit_def)

lemma digit_value_bound: "is_digit c \<Longrightarrow> digit_value c < 10"
  unfolding digit_value_def is_digit_def by arith

lemma digit_char_0: "digit_char 0 = CHR ''0''"
  by code_simp

lemma digit_char_eq_0: "n < 10 \<Longrightarrow> digit_char n = CHR ''0'' \<longleftrightarrow> n = 0"
  by (metis digit_char_0 digit_char_facts(2) zero_less_numeral)

section \<open>Fixed width\<close>

lemma length_fixed [simp]: "length (fixed w n) = w"
  by (induction w arbitrary: n) simp_all

lemma fixed_digits: "c \<in> set (fixed w n) \<Longrightarrow> is_digit c"
  by (induction w arbitrary: n) auto

lemma fixed_0: "fixed w 0 = replicate w (CHR ''0'')"
  by (induction w) (simp_all add: digit_char_0 replicate_append_same)

lemma fold_digits_append:
  "fold_digits t (xs @ ys) = Option.bind (fold_digits t xs) (\<lambda>u. fold_digits u ys)"
  by (induction xs arbitrary: t) simp_all

lemma fold_digits_fixed: "fold_digits t (fixed w n) = Some (t * 10 ^ w + n mod 10 ^ w)"
proof (induction w arbitrary: n t)
  case 0
  then show ?case by simp
next
  case (Suc w)
  have "n mod 10 ^ Suc w = 10 * (n div 10 mod 10 ^ w) + n mod 10"
    by (simp add: mod_mult2_eq)
  with Suc show ?case
    by (simp add: fold_digits_append algebra_simps)
qed

lemma fold_digits_bound: "fold_digits t xs = Some n \<Longrightarrow> n < (t + 1) * 10 ^ length xs"
proof (induction xs arbitrary: t)
  case Nil
  then show ?case by simp
next
  case (Cons c cs)
  from Cons.prems have d: "is_digit c" "fold_digits (t * 10 + digit_value c) cs = Some n"
    by (auto split: if_splits)
  have "n < (t * 10 + digit_value c + 1) * 10 ^ length cs"
    by (rule Cons.IH [OF d(2)])
  also have "\<dots> \<le> ((t + 1) * 10) * 10 ^ length cs"
    using digit_value_bound [OF d(1)] by (intro mult_le_mono1) simp
  finally show ?case by (simp add: algebra_simps)
qed

section \<open>Padding\<close>

lemma dec_digits: "c \<in> set (dec n) \<Longrightarrow> is_digit c"
proof (induction n rule: dec.induct)
  case (1 n)
  then show ?case by (subst (asm) dec.simps) (auto split: if_splits)
qed

lemma dec_nonempty [simp]: "dec n \<noteq> []"
  by (subst dec.simps) simp

lemma pad_dec:
  "0 < w \<Longrightarrow> n < 10 ^ w \<Longrightarrow>
    length (dec n) \<le> w \<and> replicate (w - length (dec n)) (CHR ''0'') @ dec n = fixed w n"
proof (induction w arbitrary: n)
  case 0
  then show ?case by simp
next
  case (Suc w)
  show ?case
  proof (cases "n < 10")
    case True
    then show ?thesis by (simp add: dec.simps [of n] fixed_0)
  next
    case False
    have w: "0 < w"
      using Suc.prems(2) False by (cases w) simp_all
    have "n div 10 < 10 ^ w"
      using Suc.prems(2) by (simp add: less_mult_imp_div_less mult.commute)
    with Suc.IH w have ih: "length (dec (n div 10)) \<le> w"
        "replicate (w - length (dec (n div 10))) (CHR ''0'') @ dec (n div 10) = fixed w (n div 10)"
      by blast+
    have d: "dec n = dec (n div 10) @ [digit_char (n mod 10)]"
      using False by (subst dec.simps) simp
    show ?thesis
      using ih(1) by (simp add: d ih(2) [symmetric])
  qed
qed

lemma pad0_fixed: "0 < w \<Longrightarrow> 0 \<le> i \<Longrightarrow> i < 10 ^ w \<Longrightarrow> pad0 w i = fixed w (nat i)"
proof -
  assume a: "0 < w" "0 \<le> i" "i < 10 ^ w"
  then have "nat i < 10 ^ w" by (simp add: nat_less_iff)
  with a pad_dec [of w "nat i"] show ?thesis by (simp add: pad0_def)
qed

lemma fold_digits_dec: "fold_digits 0 (dec n) = Some n"
proof (induction n rule: dec.induct)
  case (1 n)
  show ?case
  proof (cases "n < 10")
    case True
    then show ?thesis by (simp add: dec.simps [of n])
  next
    case False
    with 1 show ?thesis by (simp add: dec.simps [of n] fold_digits_append)
  qed
qed

lemma dec_inject: "dec m = dec n \<Longrightarrow> m = n"
  by (metis fold_digits_dec option.inject)

end
