(* ===== verification/Ordered_Map.thy ===== *)
theory Ordered_Map
  imports Prelude
begin

text \<open>
  Rust's \<open>BTreeMap\<close>: a map whose iteration goes by key order. The contract the components use is
  the locale \<open>ordered_map\<close>; its model is an association list with strictly increasing keys, on
  which two maps with the same entries are equal, as \<open>PartialEq\<close> on a \<open>BTreeMap\<close> is.
\<close>

locale ordered_map =
  fixes empty :: "'m"
    and insert :: "'k::linorder \<Rightarrow> 'v \<Rightarrow> 'm \<Rightarrow> 'm"
    and remove :: "'k \<Rightarrow> 'm \<Rightarrow> 'm"
    and get :: "'m \<Rightarrow> 'k \<Rightarrow> 'v option"
    and entries :: "'m \<Rightarrow> ('k \<times> 'v) list"
    and wf :: "'m \<Rightarrow> bool"
  assumes wf_empty: "wf empty"
    and wf_insert: "wf m \<Longrightarrow> wf (insert k v m)"
    and wf_remove: "wf m \<Longrightarrow> wf (remove k m)"
    and get_empty: "get empty k = None"
    and get_insert: "wf m \<Longrightarrow> get (insert k v m) k' = (if k' = k then Some v else get m k')"
    and get_remove: "wf m \<Longrightarrow> get (remove k m) k' = (if k' = k then None else get m k')"
    and get_entries: "wf m \<Longrightarrow> get m k = map_of (entries m) k"
    and sorted_entries: "wf m \<Longrightarrow> sorted_wrt (<) (map fst (entries m))"
    and entries_inject: "wf m \<Longrightarrow> wf m' \<Longrightarrow> entries m = entries m' \<Longrightarrow> m = m'"
begin

lemma distinct_entries: "wf m \<Longrightarrow> distinct (map fst (entries m))"
  using sorted_entries strict_sorted_iff by blast

lemma entries_iff: "wf m \<Longrightarrow> (k, v) \<in> set (entries m) \<longleftrightarrow> get m k = Some v"
  by (simp add: get_entries distinct_entries)

lemma ext:
  assumes "wf m" and "wf m'" and "\<And>k. get m k = get m' k"
  shows "m = m'"
proof (rule entries_inject [OF assms(1,2)])
  note d = distinct_entries [OF assms(1)] distinct_entries [OF assms(2)]
  have "map_of (entries m) = map_of (entries m')"
    using assms by (auto simp: get_entries)
  then have eq: "set (entries m) = set (entries m')"
    using map_of_inject_set [OF d] by blast
  have "sorted (map fst (entries m))" "sorted (map fst (entries m'))"
    using sorted_entries assms(1,2) strict_sorted_iff by blast+
  moreover have "inj_on fst (set (entries m) \<union> set (entries m'))"
    using d(1) eq by (simp add: distinct_map)
  ultimately show "entries m = entries m'"
    using map_sorted_distinct_set_unique d eq by blast
qed

lemma insert_swap:
  "wf m \<Longrightarrow> k \<noteq> k' \<Longrightarrow> insert k v (insert k' v' m) = insert k' v' (insert k v m)"
  by (rule ext) (auto simp: get_insert wf_insert)

lemma remove_insert_same: "wf m \<Longrightarrow> get m k = None \<Longrightarrow> remove k (insert k v m) = m"
  by (rule ext) (auto simp: get_insert get_remove wf_insert wf_remove)

lemma remove_absent: "wf m \<Longrightarrow> get m k = None \<Longrightarrow> remove k m = m"
  by (rule ext) (auto simp: get_remove wf_remove)

lemma insert_removed: "wf m \<Longrightarrow> get m k = Some v \<Longrightarrow> insert k v (remove k m) = m"
  by (rule ext) (auto simp: get_insert get_remove wf_insert wf_remove)

lemma fold_insert:
  "wf m \<Longrightarrow> distinct (map fst kvs) \<Longrightarrow>
    wf (foldl (\<lambda>m (k, v). insert k v m) m kvs) \<and>
    (\<forall>k. get (foldl (\<lambda>m (k, v). insert k v m) m kvs) k =
       (case map_of kvs k of None \<Rightarrow> get m k | Some v \<Rightarrow> Some v))"
proof (induction kvs arbitrary: m)
  case Nil
  then show ?case by simp
next
  case (Cons kv kvs)
  obtain k v where kv: "kv = (k, v)" by (cases kv)
  have "wf (insert k v m)" using Cons.prems(1) by (rule wf_insert)
  note ih = Cons.IH [OF this]
  have "map_of kvs k = None"
    using Cons.prems(2) kv by (simp add: map_of_eq_None_iff)
  then show ?case
    using ih Cons.prems kv by (auto simp: get_insert split: option.splits)
qed

lemma rebuild: "wf m \<Longrightarrow> foldl (\<lambda>m (k, v). insert k v m) empty (entries m) = m"
proof (rule ext)
  assume m: "wf m"
  note f = fold_insert [OF wf_empty distinct_entries [OF m]]
  show "wf (foldl (\<lambda>m (k, v). insert k v m) empty (entries m))" and "wf m"
    using f m by simp_all
  show "get (foldl (\<lambda>m (k, v). insert k v m) empty (entries m)) k = get m k" for k
    using f m by (simp add: get_empty get_entries split: option.splits)
qed

end

section \<open>The model: association lists with increasing keys\<close>

type_synonym ('k, 'v) omap = "('k \<times> 'v) list"

fun om_insert :: "'k::linorder \<Rightarrow> 'v \<Rightarrow> ('k, 'v) omap \<Rightarrow> ('k, 'v) omap" where
  "om_insert k v [] = [(k, v)]"
| "om_insert k v ((k', v') # m) =
     (if k < k' then (k, v) # (k', v') # m
      else if k = k' then (k, v) # m
      else (k', v') # om_insert k v m)"

definition om_remove :: "'k::linorder \<Rightarrow> ('k, 'v) omap \<Rightarrow> ('k, 'v) omap" where
  "om_remove k m = filter (\<lambda>(k', v). k' \<noteq> k) m"

definition om_get :: "('k, 'v) omap \<Rightarrow> 'k \<Rightarrow> 'v option" where
  "om_get m k = map_of m k"

definition om_wf :: "('k::linorder, 'v) omap \<Rightarrow> bool" where
  "om_wf m \<longleftrightarrow> sorted_wrt (<) (map fst m)"

definition om_contains :: "('k, 'v) omap \<Rightarrow> 'k \<Rightarrow> bool" where
  "om_contains m k \<longleftrightarrow> om_get m k \<noteq> None"

text \<open>\<open>collect()\<close>: inserts in order, so a later entry of one key wins.\<close>

definition om_collect :: "('k::linorder \<times> 'v) list \<Rightarrow> ('k, 'v) omap" where
  "om_collect kvs = foldl (\<lambda>m (k, v). om_insert k v m) [] kvs"

lemma keys_om_insert: "set (map fst (om_insert k v m)) = Set.insert k (set (map fst m))"
  by (induction k v m rule: om_insert.induct) auto

lemma om_wf_insert: "om_wf m \<Longrightarrow> om_wf (om_insert k v m)"
proof (induction k v m rule: om_insert.induct)
  case (1 k v)
  then show ?case by (simp add: om_wf_def)
next
  case (2 k v k' v' m)
  then have "om_wf m" by (simp add: om_wf_def)
  with 2 show ?case
    using keys_om_insert [of k v m] by (auto simp: om_wf_def dest: order.strict_trans)
qed

lemma om_get_insert: "om_get (om_insert k v m) k' = (if k' = k then Some v else om_get m k')"
  by (induction k v m rule: om_insert.induct) (auto simp: om_get_def)

lemma om_wf_remove: "om_wf m \<Longrightarrow> om_wf (om_remove k m)"
  unfolding om_wf_def om_remove_def by (induction m) auto

lemma om_get_remove: "om_get (om_remove k m) k' = (if k' = k then None else om_get m k')"
  unfolding om_get_def om_remove_def by (induction m) auto

interpretation om: ordered_map "[]" om_insert om_remove om_get "\<lambda>m. m" om_wf
proof unfold_locales
  show "om_wf []" by (simp add: om_wf_def)
  show "om_get [] k = None" for k by (simp add: om_get_def)
  show "om_get m k = map_of m k" for m k by (simp add: om_get_def)
  show "om_wf m \<Longrightarrow> sorted_wrt (<) (map fst m)" for m by (simp add: om_wf_def)
qed (simp_all add: om_wf_insert om_wf_remove om_get_insert om_get_remove)

lemma om_collect_wf: "om_wf (om_collect kvs)"
proof -
  have "om_wf m \<Longrightarrow> om_wf (foldl (\<lambda>m (k, v). om_insert k v m) m kvs)" for m
    by (induction kvs arbitrary: m) (auto simp: om_wf_insert)
  then show ?thesis by (simp add: om_collect_def om.wf_empty)
qed

lemma om_get_collect:
  "distinct (map fst kvs) \<Longrightarrow> om_get (om_collect kvs) k = map_of kvs k"
  using om.fold_insert [OF om.wf_empty, of kvs]
  by (simp add: om_collect_def om.get_empty split: option.splits)

lemmas om_simps = om_get_insert om_get_remove om_wf_insert om_wf_remove om.wf_empty om.get_empty

end
