(* ===== verification/Errors.thy ===== *)
theory Errors
  imports Prelude
begin

text \<open>What can be wrong with a message type or an envelope (\<open>core/src/error.rs\<close>).\<close>

datatype envelope_error =
    InvalidMessageType string string   \<comment> \<open>the value as given, and the rule it breaks\<close>
  | InvalidAttribute string string     \<comment> \<open>the attribute's name, and what is wrong with it\<close>
  | MissingAttribute string

definition envelope_error_invalid :: "string \<Rightarrow> string \<Rightarrow> envelope_error" where
  "envelope_error_invalid name reason = InvalidAttribute name reason"

text \<open>
  \<open>Display\<close>; \<open>debug\<close> is \<open>Debug\<close> of a string, whose escapes follow the Unicode tables of the
  standard library.
\<close>

definition envelope_error_text :: "(string \<Rightarrow> string) \<Rightarrow> envelope_error \<Rightarrow> string" where
  "envelope_error_text debug e =
     (case e of
        InvalidMessageType v reason \<Rightarrow> ''invalid message type '' @ debug v @ '': '' @ reason
      | InvalidAttribute n reason \<Rightarrow>
          ''invalid CloudEvents attribute `'' @ n @ ''`: '' @ reason
      | MissingAttribute n \<Rightarrow> ''missing CloudEvents attribute `'' @ n @ ''`'')"

end
