(* ===== verification/Civil_Date.thy ===== *)
theory Civil_Date
  imports Errors Decimal
begin

text \<open>
  Days to dates and back (\<open>core/src/time.rs\<close>, after Hinnant's \<open>civil_from_days\<close> and
  \<open>days_from_civil\<close>). The \<open>i64\<close> and \<open>u32\<close> values are \<open>int\<close>: the arguments are days of years
  0000 to 10000, so no operation overflows. \<open>div_euclid\<close> and \<open>rem_euclid\<close> by a positive number
  are HOL's \<open>div\<close> and \<open>mod\<close>; \<open>/\<close> is used on numbers that are not negative, where it is \<open>div\<close> too.
\<close>

definition date_from_days :: "int \<Rightarrow> int \<times> int \<times> int" where
  "date_from_days days =
     (let shifted = days + 719468;
          era = shifted div 146097;
          day_of_era = shifted mod 146097;
          year_of_era =
            (day_of_era - day_of_era div 1460 + day_of_era div 36524 - day_of_era div 146096)
              div 365;
          day_of_year = day_of_era - (365 * year_of_era + year_of_era div 4 - year_of_era div 100);
          month_from_march = (5 * day_of_year + 2) div 153;
          day = day_of_year - (153 * month_from_march + 2) div 5 + 1;
          month = (if month_from_march < 10 then month_from_march + 3 else month_from_march - 9);
          year = year_of_era + era * 400 + (if month \<le> 2 then 1 else 0)
      in (year, month, day))"

definition days_from_date :: "int \<Rightarrow> int \<Rightarrow> int \<Rightarrow> int" where
  "days_from_date year month day =
     (let year = year - (if month \<le> 2 then 1 else 0);
          era = year div 400;
          year_of_era = year mod 400;
          month_from_march = (month + 9) mod 12;
          day_of_year = (153 * month_from_march + 2) div 5 + day - 1;
          day_of_era = year_of_era * 365 + year_of_era div 4 - year_of_era div 100 + day_of_year
      in era * 146097 + day_of_era - 719468)"

definition days_in_month :: "int \<Rightarrow> int \<Rightarrow> int" where
  "days_in_month year month =
     (let leap = year mod 4 = 0 \<and> (year mod 100 \<noteq> 0 \<or> year mod 400 = 0)
      in if month = 2 then (if leap then 29 else 28)
         else if month \<in> {4, 6, 9, 11} then 30 else 31)"

definition valid_civil :: "int \<Rightarrow> int \<Rightarrow> int \<Rightarrow> bool" where
  "valid_civil y m d \<longleftrightarrow> 1 \<le> m \<and> m \<le> 12 \<and> 1 \<le> d \<and> d \<le> days_in_month y m"

text \<open>The calendar the functions are to agree with: one day after another.\<close>

definition next_civil :: "int \<times> int \<times> int \<Rightarrow> int \<times> int \<times> int" where
  "next_civil = (\<lambda>(y, m, d).
     if d < days_in_month y m then (y, m, d + 1)
     else if m < 12 then (y, m + 1, 1) else (y + 1, 1, 1))"

section \<open>Years of an era\<close>

text \<open>Years count from March, so a leap day is the last of its year.\<close>

definition leap_march_year :: "int \<Rightarrow> bool" where
  "leap_march_year yoe \<longleftrightarrow> yoe mod 4 = 3 \<and> (yoe mod 100 \<noteq> 99 \<or> yoe mod 400 = 399)"

definition era_day :: "int \<Rightarrow> int \<Rightarrow> int" where
  "era_day yoe doy = 365 * yoe + yoe div 4 - yoe div 100 + doy"

definition era_fits :: "int \<Rightarrow> int \<Rightarrow> bool" where
  "era_fits yoe doy \<longleftrightarrow>
     0 \<le> yoe \<and> yoe < 400 \<and> 0 \<le> doy \<and> doy \<le> 364 + (if leap_march_year yoe then 1 else 0)"

lemma quot_rem:
  fixes a b q r :: int
  assumes "a = b * q + r" and "0 \<le> r" and "r < b"
  shows "a div b = q" and "a mod b = r"
  using assms by (simp_all add: int_div_pos_eq int_mod_pos_eq)

lemma year_parts:
  fixes c q k :: int
  assumes "yoe = 100 * c + 4 * q + k" and "0 \<le> q" "q \<le> 24" "0 \<le> k" "k \<le> 3"
  shows "yoe div 4 = 25 * c + q" and "yoe mod 4 = k"
    and "yoe div 100 = c" and "yoe mod 100 = 4 * q + k"
proof -
  have e4: "yoe = 4 * (25 * c + q) + k" and k4: "k < 4"
    using assms(1,5) by simp_all
  have e100: "yoe = 100 * c + (4 * q + k)" and k100: "0 \<le> 4 * q + k" "4 * q + k < 100"
    using assms by simp_all
  show "yoe div 4 = 25 * c + q" "yoe mod 4 = k"
    using quot_rem [OF e4 assms(4) k4] by simp_all
  show "yoe div 100 = c" "yoe mod 100 = 4 * q + k"
    using quot_rem [OF e100 k100] by simp_all
qed

lemma era_parts:
  assumes "era_fits yoe doy"
  obtains c q k where "yoe = 100 * c + 4 * q + k" "0 \<le> c" "c \<le> 3" "0 \<le> q" "q \<le> 24"
    "0 \<le> k" "k \<le> 3" "0 \<le> doy" "doy \<le> 364 \<or> doy = 365 \<and> k = 3 \<and> (q < 24 \<or> c = 3)"
proof
  define c where "c = yoe div 100"
  define q where "q = yoe mod 100 div 4"
  define k where "k = yoe mod 100 mod 4"
  have b: "0 \<le> yoe" "yoe < 400" "0 \<le> doy"
      "doy \<le> 364 + (if leap_march_year yoe then 1 else 0)"
    using assms by (auto simp: era_fits_def)
  show yoe: "yoe = 100 * c + 4 * q + k" by (simp add: c_def q_def k_def)
  show "0 \<le> c" "c \<le> 3" using b(1,2) by (simp_all add: c_def)
  have "0 \<le> yoe mod 100" "yoe mod 100 < 100" by simp_all
  then have qk: "0 \<le> q" "q \<le> 24" "0 \<le> k" "k \<le> 3"
    by (auto simp: q_def k_def)
  then show "0 \<le> q" "q \<le> 24" "0 \<le> k" "k \<le> 3"
    by simp_all
  note parts = year_parts [OF yoe qk]
  show "0 \<le> doy" by (rule b(3))
  show "doy \<le> 364 \<or> doy = 365 \<and> k = 3 \<and> (q < 24 \<or> c = 3)"
  proof (cases "doy \<le> 364")
    case False
    with b(4) have leap: "leap_march_year yoe" and d: "doy = 365" by (auto split: if_splits)
    have "k = 3" using leap parts(2) by (simp add: leap_march_year_def)
    moreover have "q < 24 \<or> c = 3"
    proof (rule disjCI)
      assume "c \<noteq> 3"
      then have "yoe mod 400 \<noteq> 399" using b(1,2) yoe qk by auto
      then have "4 * q + 3 \<noteq> 99" using leap parts(4) \<open>k = 3\<close> by (simp add: leap_march_year_def)
      then show "q < 24" using qk(2) by simp
    qed
    ultimately show ?thesis using d by simp
  qed simp
qed

lemma era_day_year:
  assumes "era_fits yoe doy" and doe: "doe = era_day yoe doy"
  shows "0 \<le> doe" and "doe < 146097"
    and "(doe - doe div 1460 + doe div 36524 - doe div 146096) div 365 = yoe"
proof -
  obtain c q k where p: "yoe = 100 * c + 4 * q + k" "0 \<le> c" "c \<le> 3" "0 \<le> q" "q \<le> 24"
    "0 \<le> k" "k \<le> 3" "0 \<le> doy" "doy \<le> 364 \<or> doy = 365 \<and> k = 3 \<and> (q < 24 \<or> c = 3)"
    using assms(1) by (rule era_parts)
  have e: "doe = 36524 * c + (1461 * q + 365 * k + doy)"
    using year_parts [OF p(1,4-7)] p(1) by (simp add: doe era_day_def)
  show "0 \<le> doe" "doe < 146097" using e p by linarith+
  define x where "x = 24 * c + q + 365 * k + doy"
  have x: "0 \<le> x" "x \<le> 1556" using p by (auto simp: x_def)
  define s where "s = (if 1460 \<le> x then 1 else 0 :: int)"
  have d1: "doe div 1460 = 25 * c + q + s"
  proof (rule int_div_pos_eq)
    show "doe = 1460 * (25 * c + q + s) + (x - 1460 * s)" by (simp add: e x_def)
  qed (use x in \<open>auto simp: s_def\<close>)
  have d23: "doe div 36524 - doe div 146096 = c"
  proof (cases "doe = 146096")
    case True
    have "c = 3" using e p True by linarith
    then show ?thesis using True by simp
  next
    case False
    have small: "1461 * q + 365 * k + doy < 36524"
    proof (rule ccontr)
      assume "\<not> 1461 * q + 365 * k + doy < 36524"
      then have "q = 24" "k = 3" "doy = 365" using p by linarith+
      then have "c = 3" using p(9) by simp
      then show False using False e \<open>q = 24\<close> \<open>k = 3\<close> \<open>doy = 365\<close> by simp
    qed
    have "doe div 36524 = c"
      by (rule int_div_pos_eq [OF e]) (use small p in linarith)+
    moreover have "doe div 146096 = 0"
      using \<open>0 \<le> doe\<close> \<open>doe < 146097\<close> False by simp
    ultimately show ?thesis by simp
  qed
  have "doe - doe div 1460 + doe div 36524 - doe div 146096 = 365 * yoe + (doy - s)"
    using d1 d23 e p(1) by simp
  moreover have "0 \<le> doy - s" "doy - s < 365"
    using p x by (auto simp: s_def x_def)
  ultimately show "(doe - doe div 1460 + doe div 36524 - doe div 146096) div 365 = yoe"
    by (simp add: int_div_pos_eq)
qed

lemma era_day_exists:
  assumes "0 \<le> doe" and "doe < 146097"
  obtains yoe doy where "era_fits yoe doy" and "doe = era_day yoe doy"
proof -
  define c where "c = min (doe div 36524) 3"
  define r where "r = doe - 36524 * c"
  define q where "q = r div 1461"
  define s where "s = r mod 1461"
  define k where "k = min (s div 365) 3"
  define doy where "doy = s - 365 * k"
  have c: "0 \<le> c" "c \<le> 3" "0 \<le> r" "r \<le> 36524" "r = 36524 \<longrightarrow> c = 3"
    using assms unfolding c_def r_def by (auto simp: min_def)
  have q: "0 \<le> q" "q \<le> 24" "0 \<le> s" "s \<le> 1460" "r = 1461 * q + s"
    using c unfolding q_def s_def by (auto; presburger)+
  have k: "0 \<le> k" "k \<le> 3" "0 \<le> doy" "doy \<le> 365" "doy = 365 \<longrightarrow> k = 3 \<and> s = 1460"
    using q unfolding k_def doy_def by (auto simp: min_def)
  have leap: "doy = 365 \<longrightarrow> q < 24 \<or> c = 3"
    using k q c by auto
  let ?yoe = "100 * c + 4 * q + k"
  note y = year_parts [OF refl q(1,2) k(1,2), of c]
  have y400: "?yoe mod 400 = ?yoe"
    using k(1,2) q(1,2) c(1,2) by (intro mod_pos_pos_trivial) linarith+
  have "doy = 365 \<longrightarrow> leap_march_year ?yoe"
    unfolding leap_march_year_def y y400 using k(5) leap q(2) by auto
  then have "era_fits ?yoe doy"
    using c q k by (auto simp: era_fits_def)
  moreover have "doe = era_day ?yoe doy"
    using y q(5) by (simp add: era_day_def doy_def r_def)
  ultimately show thesis by (rule that)
qed

section \<open>Months of a year that starts in March\<close>

definition march_start :: "int \<Rightarrow> int" where
  "march_start mp = (153 * mp + 2) div 5"

lemma month_cases:
  fixes mp :: int
  assumes "0 \<le> mp" and "mp \<le> 11"
  shows "mp \<in> {0, 1, 2, 3, 4, 5, 6, 7, 8, 9, 10, 11}"
  using assms unfolding insert_iff empty_iff by presburger

lemma month_of_day:
  assumes "0 \<le> doy" and "doy \<le> 365" and mp: "mp = (5 * doy + 2) div 153"
  shows "0 \<le> mp" and "mp \<le> 11" and "march_start mp \<le> doy"
    and "mp < 11 \<Longrightarrow> doy < march_start (mp + 1)"
proof -
  show b: "0 \<le> mp" "mp \<le> 11" using assms by simp_all
  have m: "153 * mp \<le> 5 * doy + 2" "5 * doy + 2 < 153 * mp + 153"
    unfolding mp by (simp_all add: mult.commute [of 153] mult_div_mod_eq minus_mod_eq_mult_div [symmetric])
  show "march_start mp \<le> doy"
    using month_cases [OF b] m by (auto simp: march_start_def)
  show "doy < march_start (mp + 1)" if "mp < 11"
    using month_cases [OF b] m that by (auto simp: march_start_def)
qed

lemma day_of_month:
  assumes b: "0 \<le> mp" "mp \<le> 11" and "march_start mp \<le> doy" and "doy \<le> 365"
    and "mp < 11 \<Longrightarrow> doy < march_start (mp + 1)"
  shows "(5 * doy + 2) div 153 = mp"
proof (rule int_div_pos_eq)
  show "5 * doy + 2 = 153 * mp + (5 * doy + 2 - 153 * mp)" by simp
  show "0 \<le> 5 * doy + 2 - 153 * mp" "5 * doy + 2 - 153 * mp < 153"
    using month_cases [OF b] assms(3-5) by (auto simp: march_start_def)
qed

definition march_month :: "int \<Rightarrow> int" where
  "march_month mp = (if mp < 10 then mp + 3 else mp - 9)"

lemma march_month_inverse:
  assumes "0 \<le> mp" "mp \<le> 11"
  shows "(march_month mp + 9) mod 12 = mp" and "1 \<le> march_month mp" "march_month mp \<le> 12"
    and "march_month mp = 2 \<longleftrightarrow> mp = 11" and "march_month mp \<le> 2 \<longleftrightarrow> 10 \<le> mp"
  using month_cases [OF assms] by (auto simp: march_month_def)

lemma march_month_of:
  assumes "1 \<le> m" "m \<le> 12"
  shows "march_month ((m + 9) mod 12) = m" and "0 \<le> (m + 9) mod 12" "(m + 9) mod 12 \<le> 11"
proof -
  have "m \<in> {1, 2, 3, 4, 5, 6, 7, 8, 9, 10, 11, 12}"
    using assms unfolding insert_iff empty_iff by presburger
  then show "march_month ((m + 9) mod 12) = m" by (auto simp: march_month_def)
  have "(m + 9) mod 12 < 12" by simp
  then show "0 \<le> (m + 9) mod 12" "(m + 9) mod 12 \<le> 11" by simp_all
qed

lemma leap_year_march:
  "(let y = yoe + era * 400 + 1 in y mod 4 = 0 \<and> (y mod 100 \<noteq> 0 \<or> y mod 400 = 0))
     \<longleftrightarrow> leap_march_year yoe" for yoe era :: int
proof -
  have step: "(yoe + era * 400 + 1) mod n = 0 \<longleftrightarrow> yoe mod n = n - 1"
    if n: "n dvd 400" "1 < n" for n
  proof -
    obtain j where j: "400 = n * j" using n(1) by blast
    have "yoe + era * 400 + 1 = (yoe + 1) + n * (j * era)" by (simp add: j)
    then have "(yoe + era * 400 + 1) mod n = (yoe + 1) mod n" by (simp only: mod_mult_self2)
    also have "\<dots> = (yoe mod n + 1) mod n" by (simp add: mod_add_left_eq)
    also have "\<dots> = 0 \<longleftrightarrow> yoe mod n = n - 1"
    proof (cases "yoe mod n = n - 1")
      case False
      have "0 \<le> yoe mod n" "yoe mod n < n" using n(2) by simp_all
      with False have "(yoe mod n + 1) mod n = yoe mod n + 1" by (intro mod_pos_pos_trivial) simp_all
      with \<open>0 \<le> yoe mod n\<close> False show ?thesis by simp
    qed simp
    finally show ?thesis .
  qed
  have "(yoe + era * 400 + 1) mod 4 = 0 \<longleftrightarrow> yoe mod 4 = 3"
    using step [of 4] by simp
  moreover
  have "(yoe + era * 400 + 1) mod 100 = 0 \<longleftrightarrow> yoe mod 100 = 99"
    using step [of 100] by simp
  moreover have "(yoe + era * 400 + 1) mod 400 = 0 \<longleftrightarrow> yoe mod 400 = 399"
    using step [of 400] by simp
  ultimately show ?thesis
    by (simp add: Let_def leap_march_year_def)
qed

lemma days_in_march_month:
  assumes "0 \<le> mp" "mp \<le> 11" and "m = march_month mp"
    and "y = yoe + era * 400 + (if m \<le> 2 then 1 else 0)"
  shows "days_in_month y m =
    (if mp = 11 then 28 + (if leap_march_year yoe then 1 else 0)
     else march_start (mp + 1) - march_start mp)"
proof (cases "mp = 11")
  case True
  then have "m = 2" and "y = yoe + era * 400 + 1"
    using assms(3,4) by (simp_all add: march_month_def)
  then show ?thesis
    using True leap_year_march [of yoe era] by (simp add: days_in_month_def Let_def)
next
  case False
  then show ?thesis
    using month_cases [OF assms(1,2)] assms(3)
    by (auto simp: days_in_month_def march_month_def march_start_def)
qed

section \<open>The two functions are inverse, and follow the calendar\<close>

lemma date_from_days_parts:
  assumes "era_fits yoe doy" and "n + 719468 = era * 146097 + era_day yoe doy"
    and mp: "mp = (5 * doy + 2) div 153"
  shows "date_from_days n =
    (yoe + era * 400 + (if march_month mp \<le> 2 then 1 else 0), march_month mp,
     doy - march_start mp + 1)"
proof -
  note e = era_day_year [OF assms(1) refl]
  have "n + 719468 = 146097 * era + era_day yoe doy" using assms(2) by simp
  from quot_rem [OF this e(1,2)]
  have "(n + 719468) div 146097 = era" "(n + 719468) mod 146097 = era_day yoe doy" .
  moreover have "era_day yoe doy - (365 * yoe + yoe div 4 - yoe div 100) = doy"
    by (simp add: era_day_def)
  ultimately show ?thesis
    unfolding date_from_days_def Let_def
    by (simp only: e(3) mp [symmetric] march_month_def [symmetric] march_start_def [symmetric])
qed

lemma days_from_date_parts:
  assumes "0 \<le> mp" "mp \<le> 11" and "m = march_month mp" and "0 \<le> yoe" "yoe < 400"
    and "y = yoe + era * 400 + (if m \<le> 2 then 1 else 0)" and "doy = march_start mp + d - 1"
  shows "days_from_date y m d = era * 146097 + era_day yoe doy - 719468"
proof -
  have y: "y - (if m \<le> 2 then 1 else 0) = 400 * era + yoe" using assms(6) by simp
  have "(400 * era + yoe) div 400 = era" "(400 * era + yoe) mod 400 = yoe"
    using quot_rem [OF refl assms(4,5), of era] by simp_all
  then show ?thesis
    unfolding days_from_date_def Let_def y
    using march_month_inverse(1) [OF assms(1,2)] assms(3,7)
    by (simp add: era_day_def march_start_def)
qed

lemma date_from_days_correct:
  assumes "date_from_days n = (y, m, d)"
  shows "valid_civil y m d" and "days_from_date y m d = n"
proof -
  define era where "era = (n + 719468) div 146097"
  have "0 \<le> (n + 719468) mod 146097" "(n + 719468) mod 146097 < 146097" by simp_all
  then obtain yoe doy where f: "era_fits yoe doy"
      and "(n + 719468) mod 146097 = era_day yoe doy"
    by (rule era_day_exists)
  then have n: "n + 719468 = era * 146097 + era_day yoe doy"
    by (metis era_def div_mult_mod_eq)
  define mp where "mp = (5 * doy + 2) div 153"
  from f have y: "0 \<le> yoe" "yoe < 400" and doy: "0 \<le> doy" "doy \<le> 365"
    by (auto simp: era_fits_def split: if_splits)
  note mo = month_of_day [OF doy mp_def]
  have eqs: "y = yoe + era * 400 + (if m \<le> 2 then 1 else 0)" "m = march_month mp"
      "d = doy - march_start mp + 1"
    using date_from_days_parts [OF f n mp_def] assms by auto
  show "days_from_date y m d = n"
    using days_from_date_parts [OF mo(1,2) eqs(2) y eqs(1)] eqs(3) n by simp
  have "d \<le> days_in_month y m"
  proof (cases "mp = 11")
    case True
    have "doy \<le> 364 + (if leap_march_year yoe then 1 else 0)" using f by (simp add: era_fits_def)
    with True show ?thesis
      using days_in_march_month [OF mo(1,2) eqs(2,1)] eqs(3) by (auto simp: march_start_def)
  next
    case False
    with mo show ?thesis
      using days_in_march_month [OF mo(1,2) eqs(2,1)] eqs(3) by simp
  qed
  then show "valid_civil y m d"
    using march_month_inverse [OF mo(1,2)] mo(3) eqs(2,3) by (simp add: valid_civil_def)
qed

lemma days_from_date_correct:
  assumes "valid_civil y m d"
  shows "date_from_days (days_from_date y m d) = (y, m, d)"
proof -
  have m: "1 \<le> m" "m \<le> 12" and d: "1 \<le> d" "d \<le> days_in_month y m"
    using assms by (auto simp: valid_civil_def)
  define mp where "mp = (m + 9) mod 12"
  note mp = march_month_of [OF m, folded mp_def]
  define c :: int where "c = (if m \<le> 2 then 1 else 0)"
  define era where "era = (y - c) div 400"
  define yoe where "yoe = (y - c) mod 400"
  have yoe: "0 \<le> yoe" "yoe < 400" by (simp_all add: yoe_def)
  have y: "y = yoe + era * 400 + (if m \<le> 2 then 1 else 0)"
    by (simp add: yoe_def era_def c_def [symmetric])
  define doy where "doy = march_start mp + d - 1"
  note dim = days_in_march_month [OF mp(2,3) mp(1) [symmetric] y]
  have doy: "march_start mp \<le> doy" "mp < 11 \<Longrightarrow> doy < march_start (mp + 1)"
    using d dim by (auto simp: doy_def)
  have fits: "era_fits yoe doy"
    using yoe month_cases [OF mp(2,3)] d dim
    by (auto simp: era_fits_def doy_def march_start_def)
  then have doy365: "doy \<le> 365" by (auto simp: era_fits_def split: if_splits)
  have n: "days_from_date y m d + 719468 = era * 146097 + era_day yoe doy"
    using days_from_date_parts [OF mp(2,3) mp(1) [symmetric] yoe y doy_def] by simp
  have "mp = (5 * doy + 2) div 153"
    using day_of_month [OF mp(2,3) doy(1) doy365] doy(2) by simp
  from date_from_days_parts [OF fits n this] show ?thesis
    using mp(1) y by (simp add: doy_def)
qed

text \<open>A closed form in which years are not cut into eras.\<close>

definition march_year_days :: "int \<Rightarrow> int" where
  "march_year_days y = 365 * y + (y div 4 - y div 100 + y div 400)"

lemma days_from_date_closed:
  assumes "y' = y - (if m \<le> 2 then 1 else 0)"
  shows "days_from_date y m d = march_year_days y' + march_start ((m + 9) mod 12) + d - 719469"
proof -
  define e r where "e = y' div 400" and "r = y' mod 400"
  have y': "y' = 400 * e + r" by (simp add: e_def r_def)
  have y4: "y' = r + 4 * (100 * e)" and y100: "y' = r + 100 * (4 * e)" using y' by simp_all
  have d4: "y' div 4 = r div 4 + 100 * e" unfolding y4 by (subst div_mult_self2) simp_all
  have d100: "y' div 100 = r div 100 + 4 * e" unfolding y100 by (subst div_mult_self2) simp_all
  show ?thesis
    unfolding days_from_date_def Let_def assms [symmetric] e_def [symmetric] r_def [symmetric]
      d4 d100 march_start_def march_year_days_def
    using y' by simp
qed

lemma div_step:
  fixes y n :: int
  assumes "0 < n"
  shows "(y + 1) div n = y div n + (if (y + 1) mod n = 0 then 1 else 0)"
proof (cases "y mod n = n - 1")
  case True
  have "y + 1 = n * (y div n + 1) + 0"
    using mult_div_mod_eq [of n y] True by (simp add: algebra_simps)
  from quot_rem [OF this] assms show ?thesis by simp
next
  case False
  have r: "0 \<le> y mod n" "y mod n < n" using assms by simp_all
  have "y + 1 = n * (y div n) + (y mod n + 1)" by simp
  from quot_rem [OF this] r False show ?thesis by simp
qed

lemma leap_count:
  fixes q4 q100 q400 p4 p100 p400 :: int
  assumes "q4 = p4 + (if b4 then 1 else 0)" and "q100 = p100 + (if b100 then 1 else 0)"
    and "q400 = p400 + (if b400 then 1 else 0)" and "b400 \<Longrightarrow> b100" and "b100 \<Longrightarrow> b4"
  shows "q4 - q100 + q400 = p4 - p100 + p400 + (if b4 \<and> (b100 \<longrightarrow> b400) then 1 else 0)"
  using assms by (cases b4; cases b100; cases b400) simp_all

lemma march_year_days_step:
  "march_year_days y = march_year_days (y - 1) + 365
     + (if y mod 4 = 0 \<and> (y mod 100 = 0 \<longrightarrow> y mod 400 = 0) then 1 else 0)"
proof -
  let ?leap = "y mod 4 = 0 \<and> (y mod 100 = 0 \<longrightarrow> y mod 400 = 0)"
  have step: "y div k = (y - 1) div k + (if y mod k = 0 then 1 else 0)" if "0 < k" for k
    using div_step [OF that, of "y - 1"] by simp
  have leap: "y mod 400 = 0 \<Longrightarrow> y mod 100 = 0" "y mod 100 = 0 \<Longrightarrow> y mod 4 = 0"
    using dvd_trans [of 100 400 y] dvd_trans [of 4 100 y]
    by (simp_all add: mod_eq_0_iff_dvd)
  have count: "y div 4 - y div 100 + y div 400
      = (y - 1) div 4 - (y - 1) div 100 + (y - 1) div 400 + (if ?leap then 1 else 0)"
    by (rule leap_count [OF step step step leap]) simp_all
  show ?thesis
    unfolding march_year_days_def count by (simp only: algebra_simps)
qed

lemma march_year_days_mono: "a \<le> b \<Longrightarrow> march_year_days a \<le> march_year_days b"
proof (induction b rule: int_ge_induct)
  case (step i)
  have "march_year_days i \<le> march_year_days (i + 1)"
    using march_year_days_step [of "i + 1"] by simp
  with step.IH show ?case by linarith
qed simp

lemma march_first: "days_from_date y 3 1 = days_from_date y 2 (days_in_month y 2) + 1"
proof -
  have "days_in_month y 2
      = 28 + (if y mod 4 = 0 \<and> (y mod 100 = 0 \<longrightarrow> y mod 400 = 0) then 1 else 0)"
    by (auto simp: days_in_month_def)
  then show ?thesis
    using march_year_days_step [of y]
    by (simp add: days_from_date_closed [OF refl] march_start_def)
qed

lemma days_from_next_civil:
  assumes v: "valid_civil y m d" and n: "next_civil (y, m, d) = (y', m', d')"
  shows "days_from_date y' m' d' = days_from_date y m d + 1" and "valid_civil y' m' d'"
proof -
  have m: "1 \<le> m" "m \<le> 12" and d: "1 \<le> d" "d \<le> days_in_month y m"
    using v by (auto simp: valid_civil_def)
  have m12: "m \<in> {1, 2, 3, 4, 5, 6, 7, 8, 9, 10, 11, 12}"
    using m unfolding insert_iff empty_iff by presburger
  have pos: "1 \<le> days_in_month a b" for a b by (simp add: days_in_month_def Let_def)
  show "valid_civil y' m' d'"
    using n v pos m by (auto simp: next_civil_def valid_civil_def split: if_splits)
  show "days_from_date y' m' d' = days_from_date y m d + 1"
  proof (cases "d < days_in_month y m")
    case True
    then show ?thesis using n by (auto simp: next_civil_def days_from_date_def Let_def)
  next
    case False
    with d have last: "d = days_in_month y m" by simp
    show ?thesis
    proof (cases "m = 2")
      case True
      then have eqs: "y' = y" "m' = 3" "d' = 1" using n False by (auto simp: next_civil_def)
      show ?thesis unfolding eqs last True by (rule march_first)
    next
      case False
      then show ?thesis
        using n \<open>\<not> d < days_in_month y m\<close> last m12
        by (elim insertE) (simp_all add: next_civil_def days_from_date_closed [OF refl]
            march_start_def days_in_month_def, auto)
    qed
  qed
qed

lemma date_from_days_Suc: "date_from_days (n + 1) = next_civil (date_from_days n)"
proof -
  obtain y m d where n: "date_from_days n = (y, m, d)" by (cases "date_from_days n")
  obtain y' m' d' where nx: "next_civil (y, m, d) = (y', m', d')"
    by (cases "next_civil (y, m, d)")
  have "days_from_date y' m' d' = n + 1" and "valid_civil y' m' d'"
    using days_from_next_civil [OF date_from_days_correct(1) [OF n] nx]
      date_from_days_correct(2) [OF n] by simp_all
  then show ?thesis using days_from_date_correct n nx by force
qed

section \<open>Years 0000 to 9999\<close>

lemma civil_year_range:
  assumes n: "date_from_days n = (y, m, d)" and b: "-719528 \<le> n" "n \<le> 2932896"
  shows "0 \<le> y" and "y \<le> 9999"
proof -
  note c = date_from_days_correct [OF n]
  have m: "1 \<le> m" "m \<le> 12" and d: "1 \<le> d" "d \<le> days_in_month y m"
    using c(1) by (auto simp: valid_civil_def)
  have m12: "m \<in> {1, 2, 3, 4, 5, 6, 7, 8, 9, 10, 11, 12}"
    using m unfolding insert_iff empty_iff by presburger
  have "d \<le> 31" using d(2) by (auto simp: days_in_month_def Let_def split: if_splits)
  then have off: "(if m \<le> 2 then 307 else 1) \<le> march_start ((m + 9) mod 12) + d"
      "march_start ((m + 9) mod 12) + d \<le> (if m \<le> 2 then 368 else 306)"
    using m12 d(1) by (auto simp: march_start_def)
  have days: "n = march_year_days (y - (if m \<le> 2 then 1 else 0))
      + march_start ((m + 9) mod 12) + d - 719469"
    using c(2) days_from_date_closed [OF refl, of y m d] by simp
  have vals: "march_year_days (-2) = -731" "march_year_days (-1) = -366"
      "march_year_days 9999 = 3652059" "march_year_days 10000 = 3652425"
    by (simp_all add: march_year_days_def)
  show "0 \<le> y"
  proof (rule ccontr)
    assume "\<not> 0 \<le> y"
    then show False
      using days off b(1) vals march_year_days_mono [of "y - 1" "-2"]
        march_year_days_mono [of y "-1"] by (auto split: if_splits)
  qed
  show "y \<le> 9999"
  proof (rule ccontr)
    assume "\<not> y \<le> 9999"
    then show False
      using days off b(2) vals march_year_days_mono [of 9999 "y - 1"]
        march_year_days_mono [of 10000 y] by (auto split: if_splits)
  qed
qed

lemma civil_day_bounds:
  "valid_civil y m d \<Longrightarrow> 1 \<le> m \<and> m \<le> 12 \<and> 1 \<le> d \<and> d \<le> 31"
  by (auto simp: valid_civil_def days_in_month_def Let_def split: if_splits)

lemma valid_civil_days_range:
  assumes v: "valid_civil y m d" and "0 \<le> y" "y \<le> 9999"
  shows "-719528 \<le> days_from_date y m d" and "days_from_date y m d \<le> 2932896"
proof -
  have m: "1 \<le> m" "m \<le> 12" and d: "1 \<le> d" "d \<le> days_in_month y m"
    using v by (auto simp: valid_civil_def)
  have m12: "m \<in> {1, 2, 3, 4, 5, 6, 7, 8, 9, 10, 11, 12}"
    using m unfolding insert_iff empty_iff by presburger
  have "d \<le> 31" using civil_day_bounds [OF v] by simp
  then have off: "(if m \<le> 2 then 307 else 1) \<le> march_start ((m + 9) mod 12) + d"
      "march_start ((m + 9) mod 12) + d \<le> (if m \<le> 2 then 368 else 306)"
    using m12 d(1) by (auto simp: march_start_def)
  have vals: "march_year_days (-1) = -366" "march_year_days 0 = 0"
      "march_year_days 9998 = 3651694" "march_year_days 9999 = 3652059"
    by (simp_all add: march_year_days_def)
  note days = days_from_date_closed [OF refl, of y m d]
  show "-719528 \<le> days_from_date y m d"
    using days off(1) vals assms(2) march_year_days_mono [of "-1" "y - 1"]
      march_year_days_mono [of 0 y] by (auto split: if_splits)
  show "days_from_date y m d \<le> 2932896"
    using days off(2) vals assms(3) march_year_days_mono [of "y - 1" 9998]
      march_year_days_mono [of y 9999] by (auto split: if_splits)
qed

section \<open>Properties\<close>

text \<open>
  C34: \<open>date_from_days\<close> and \<open>days_from_date\<close> are inverse to each other on the dates of the
  proleptic Gregorian calendar, day 0 is 1970-01-01, and the day after is the calendar's next day.
\<close>

theorem calendar_correct:
  "(date_from_days n = (y, m, d) \<longleftrightarrow> valid_civil y m d \<and> days_from_date y m d = n)
   \<and> date_from_days 0 = (1970, 1, 1)
   \<and> date_from_days (n + 1) = next_civil (date_from_days n)"
proof (intro conjI)
  show "date_from_days n = (y, m, d) \<longleftrightarrow> valid_civil y m d \<and> days_from_date y m d = n"
  proof
    assume "date_from_days n = (y, m, d)"
    then show "valid_civil y m d \<and> days_from_date y m d = n"
      using date_from_days_correct by simp
  next
    assume "valid_civil y m d \<and> days_from_date y m d = n"
    then show "date_from_days n = (y, m, d)" using days_from_date_correct by metis
  qed
  have "valid_civil 1970 1 1" by (simp add: valid_civil_def days_in_month_def)
  moreover have "days_from_date 1970 1 1 = 0" by (simp add: days_from_date_def)
  ultimately show "date_from_days 0 = (1970, 1, 1)" using days_from_date_correct by metis
qed (rule date_from_days_Suc)

end
