(* ===== verification/Date_Time.thy ===== *)
theory Date_Time
  imports Civil_Date
begin

text \<open>
  \<open>Date\<close> and \<open>Timestamp\<close> of \<open>core/src/time.rs\<close>: their constructors, conversions, RFC 3339 text
  and its parser. \<open>seconds\<close> is an \<open>i64\<close>, \<open>nanos\<close> a \<open>u32\<close>, both kept in the ranges
  \<open>timestamp_ok\<close> states; the one operation that can leave \<open>i64\<close>, \<open>saturating_add\<close> of a caller's
  days, is written out with its saturation. The text of a timestamp reads back as itself.
\<close>

definition SECONDS_PER_DAY :: int where "SECONDS_PER_DAY = 86400"
definition NANOS_PER_SECOND :: int where "NANOS_PER_SECOND = 1000000000"
definition FIRST_SECOND :: int where "FIRST_SECOND = -62167219200"
definition END_SECOND :: int where "END_SECOND = 253402300800"

lemmas second_consts = SECONDS_PER_DAY_def NANOS_PER_SECOND_def FIRST_SECOND_def END_SECOND_def

definition clamp :: "int \<Rightarrow> int \<Rightarrow> int \<Rightarrow> int" where
  "clamp lo hi x = (if x < lo then lo else if hi < x then hi else x)"

definition saturating_add_i64 :: "int \<Rightarrow> int \<Rightarrow> int" where
  "saturating_add_i64 a b = clamp (- (2 ^ 63)) (2 ^ 63 - 1) (a + b)"

section \<open>Dates\<close>

datatype date = Date (date_days: int)

definition FIRST_DAY :: int where "FIRST_DAY = FIRST_SECOND div SECONDS_PER_DAY"
definition LAST_DAY :: int where "LAST_DAY = END_SECOND div SECONDS_PER_DAY - 1"

definition from_days :: "int \<Rightarrow> date" where
  "from_days days = Date (clamp FIRST_DAY LAST_DAY days)"

definition date_new :: "int \<Rightarrow> int \<Rightarrow> int \<Rightarrow> date option" where
  "date_new year month day =
     (let year_in_range = year \<le> 9999;
          valid = year_in_range \<and> (1 \<le> month \<and> month \<le> 12)
            \<and> (1 \<le> day \<and> day \<le> days_in_month year month)
      in if valid then Some (Date (days_from_date year month day)) else None)"

definition year :: "date \<Rightarrow> int" where
  "year d = fst (date_from_days (date_days d))"

definition month :: "date \<Rightarrow> int" where
  "month d = fst (snd (date_from_days (date_days d)))"

definition day :: "date \<Rightarrow> int" where
  "day d = snd (snd (date_from_days (date_days d)))"

definition add_days :: "date \<Rightarrow> int \<Rightarrow> date" where
  "add_days d n = from_days (saturating_add_i64 (date_days d) n)"

definition monday :: "date \<Rightarrow> date" where
  "monday d = from_days (date_days d - (date_days d + 3) mod 7)"

definition first_of_month :: "date \<Rightarrow> date" where
  "first_of_month d =
     (let (year, month, _) = date_from_days (date_days d)
      in from_days (days_from_date year month 1))"

definition first_of_next_month :: "date \<Rightarrow> date" where
  "first_of_next_month d =
     (let (year, month, _) = date_from_days (date_days d);
          (year, month) = (if month = 12 then (year + 1, 1) else (year, month + 1))
      in from_days (days_from_date year month 1))"

definition date_text :: "date \<Rightarrow> string" where
  "date_text d =
     (let (year, month, day) = date_from_days (date_days d)
      in pad0 4 year @ ''-'' @ pad0 2 month @ ''-'' @ pad0 2 day)"

section \<open>Timestamps\<close>

datatype timestamp = Timestamp (seconds: int) (nanos: int)

definition from_unix_nanos :: "int \<Rightarrow> timestamp" where
  "from_unix_nanos n =
     (let earliest = FIRST_SECOND * NANOS_PER_SECOND;
          latest = END_SECOND * NANOS_PER_SECOND - 1;
          n = clamp earliest latest n
      in Timestamp (n div NANOS_PER_SECOND) (n mod NANOS_PER_SECOND))"

definition timestamp_date :: "timestamp \<Rightarrow> date" where
  "timestamp_date t = from_days (seconds t div SECONDS_PER_DAY)"

definition unix_nanos :: "timestamp \<Rightarrow> int" where
  "unix_nanos t = seconds t * NANOS_PER_SECOND + nanos t"

text \<open>
  \<open>duration_since(UNIX_EPOCH)\<close> of a system time, in nanoseconds: \<open>Inr\<close> after the epoch,
  \<open>Inl\<close> before it.
\<close>

fun from_system_time :: "(nat, nat) result \<Rightarrow> timestamp" where
  "from_system_time (Inr after) = from_unix_nanos (int after)"
| "from_system_time (Inl before) = from_unix_nanos (- int before)"

definition trim_end_zeros :: "string \<Rightarrow> string" where
  "trim_end_zeros s = rev (dropWhile (\<lambda>c. c = CHR ''0'') (rev s))"

definition timestamp_text :: "timestamp \<Rightarrow> string" where
  "timestamp_text t =
     (let (year, month, day) = date_from_days (seconds t div SECONDS_PER_DAY);
          second_of_day = seconds t mod SECONDS_PER_DAY;
          hour = second_of_day div 3600;
          minute = second_of_day div 60 mod 60;
          second = second_of_day mod 60
      in pad0 4 year @ ''-'' @ pad0 2 month @ ''-'' @ pad0 2 day @ ''T''
         @ pad0 2 hour @ '':'' @ pad0 2 minute @ '':'' @ pad0 2 second
         @ (if nanos t \<noteq> 0 then ''.'' @ trim_end_zeros (pad0 9 (nanos t)) else '''')
         @ ''Z'')"

section \<open>Reading\<close>

definition byte_at :: "string \<Rightarrow> nat \<Rightarrow> char option" where
  "byte_at text i = (if i < length text then Some (text ! i) else None)"

text \<open>The number in \<open>text[start..end]\<close>; \<open>None\<close> also when the range is past the end.\<close>

definition number :: "string \<Rightarrow> nat \<Rightarrow> nat \<Rightarrow> nat option" where
  "number text start stop =
     (if start \<le> stop \<and> stop \<le> length text
      then fold_digits 0 (take (stop - start) (drop start text)) else None)"

definition fraction_nanos :: "nat \<Rightarrow> string \<Rightarrow> nat" where
  "fraction_nanos len fraction =
     foldl (\<lambda>nanos place.
       nanos * 10 + (if place < len then digit_value (fraction ! place) else 0)) 0 [0..<9]"

definition parse_fraction :: "string \<Rightarrow> (nat \<times> string) option" where
  "parse_fraction rest =
     (case strip_prefix ''.'' rest of
        None \<Rightarrow> Some (0, rest)
      | Some fraction \<Rightarrow>
          (let len = length (takeWhile is_digit fraction)
           in if len = 0 then None
              else Some (fraction_nanos len fraction, drop len fraction)))"

definition parse_offset :: "string \<Rightarrow> int option" where
  "parse_offset rest =
     (case rest of
        [z] \<Rightarrow> if z = CHR ''Z'' \<or> z = CHR ''z'' then Some 0 else None
      | [sign, _, _, colon, _, _] \<Rightarrow>
          if (sign = CHR ''+'' \<or> sign = CHR ''-'') \<and> colon = CHR '':'' then
            (case (number rest 1 3, number rest 4 6) of
               (Some offset_hour, Some offset_minute) \<Rightarrow>
                 if 23 < offset_hour \<or> 59 < offset_minute then None
                 else (let offset = int (offset_hour * 3600 + offset_minute * 60)
                       in Some (if sign = CHR ''-'' then - offset else offset))
             | _ \<Rightarrow> None)
          else None
      | _ \<Rightarrow> None)"

definition separators_ok :: "string \<Rightarrow> bool" where
  "separators_ok text \<longleftrightarrow>
     list_all (\<lambda>(at, sep). byte_at text at = Some sep)
       [(4, CHR ''-''), (7, CHR ''-''), (13, CHR '':''), (16, CHR '':'')]
     \<and> (byte_at text 10 = Some (CHR ''T'') \<or> byte_at text 10 = Some (CHR ''t''))"

definition parse :: "string \<Rightarrow> timestamp option" where
  "parse text =
     (if \<not> separators_ok text then None
      else Option.bind (number text 0 4) (\<lambda>year.
        Option.bind (number text 5 7) (\<lambda>month.
        Option.bind (number text 8 10) (\<lambda>day.
        Option.bind (number text 11 13) (\<lambda>hour.
        Option.bind (number text 14 16) (\<lambda>minute.
        Option.bind (number text 17 19) (\<lambda>second.
          if \<not> (1 \<le> month \<and> month \<le> 12)
            \<or> \<not> (1 \<le> int day \<and> int day \<le> days_in_month (int year) (int month))
            \<or> 23 < hour \<or> 59 < minute \<or> 59 < second then None
          else Option.bind (parse_fraction (drop 19 text)) (\<lambda>(nanos, rest).
            Option.bind (parse_offset rest) (\<lambda>offset_seconds.
              (let seconds = days_from_date (int year) (int month) (int day) * SECONDS_PER_DAY
                     + int (hour * 3600 + minute * 60 + second) - offset_seconds
               in if FIRST_SECOND \<le> seconds \<and> seconds < END_SECOND
                  then Some (Timestamp seconds (int nanos)) else None))))))))))"

definition timestamp_from_str :: "string \<Rightarrow> (envelope_error, timestamp) result" where
  "timestamp_from_str text =
     ok_or (envelope_error_invalid ''time'' ''not an RFC 3339 date-time'') (parse text)"

definition date_from_str :: "string \<Rightarrow> (envelope_error, date) result" where
  "date_from_str text =
     (let date =
        (if length text = 10 \<and> text ! 4 = CHR ''-'' \<and> text ! 7 = CHR ''-'' then
           Option.bind (number text 0 4) (\<lambda>y.
             Option.bind (number text 5 7) (\<lambda>m.
             Option.bind (number text 8 10) (\<lambda>d.
               date_new (int y) (int m) (int d))))
         else None)
      in ok_or (envelope_error_invalid ''date'' ''not a YYYY-MM-DD date'') date)"

section \<open>Orders\<close>

text \<open>\<open>Ord\<close> is derived: dates by their day, timestamps by second and nanosecond.\<close>

instantiation date :: linorder
begin
definition less_eq_date :: "date \<Rightarrow> date \<Rightarrow> bool" where
  "less_eq_date a b \<longleftrightarrow> date_days a \<le> date_days b"
definition less_date :: "date \<Rightarrow> date \<Rightarrow> bool" where
  "less_date a b \<longleftrightarrow> date_days a < date_days b"
instance
  by standard (auto simp: less_eq_date_def less_date_def intro: date.expand)
end

instantiation timestamp :: linorder
begin
definition less_eq_timestamp :: "timestamp \<Rightarrow> timestamp \<Rightarrow> bool" where
  "less_eq_timestamp a b \<longleftrightarrow>
     seconds a < seconds b \<or> seconds a = seconds b \<and> nanos a \<le> nanos b"
definition less_timestamp :: "timestamp \<Rightarrow> timestamp \<Rightarrow> bool" where
  "less_timestamp a b \<longleftrightarrow>
     seconds a < seconds b \<or> seconds a = seconds b \<and> nanos a < nanos b"
instance
  by standard (auto simp: less_eq_timestamp_def less_timestamp_def intro: timestamp.expand)
end

lemmas date_order = less_eq_date_def less_date_def
lemmas timestamp_order = less_eq_timestamp_def less_timestamp_def

section \<open>Ranges\<close>

definition date_ok :: "date \<Rightarrow> bool" where
  "date_ok d \<longleftrightarrow> FIRST_DAY \<le> date_days d \<and> date_days d \<le> LAST_DAY"

definition timestamp_ok :: "timestamp \<Rightarrow> bool" where
  "timestamp_ok t \<longleftrightarrow>
     FIRST_SECOND \<le> seconds t \<and> seconds t < END_SECOND
     \<and> 0 \<le> nanos t \<and> nanos t < NANOS_PER_SECOND"

lemma day_consts: "FIRST_DAY = -719528" "LAST_DAY = 2932896"
  by (simp_all add: FIRST_DAY_def LAST_DAY_def second_consts)

lemma clamp_id: "lo \<le> x \<Longrightarrow> x \<le> hi \<Longrightarrow> clamp lo hi x = x"
  by (simp add: clamp_def)

lemma clamp_range: "lo \<le> hi \<Longrightarrow> lo \<le> clamp lo hi x \<and> clamp lo hi x \<le> hi"
  by (simp add: clamp_def)

lemma from_days_ok [simp]: "date_ok (from_days n)"
  using clamp_range [of FIRST_DAY LAST_DAY n] by (simp add: date_ok_def from_days_def day_consts)

lemma from_days_id: "date_ok (Date n) \<Longrightarrow> from_days n = Date n"
  by (simp add: date_ok_def from_days_def clamp_id)

lemma from_unix_nanos_ok [simp]: "timestamp_ok (from_unix_nanos n)"
proof -
  define c where "c = clamp (FIRST_SECOND * NANOS_PER_SECOND) (END_SECOND * NANOS_PER_SECOND - 1) n"
  have "FIRST_SECOND * NANOS_PER_SECOND \<le> c" "c \<le> END_SECOND * NANOS_PER_SECOND - 1"
    using clamp_range [of "FIRST_SECOND * NANOS_PER_SECOND" "END_SECOND * NANOS_PER_SECOND - 1" n]
    by (simp_all add: c_def second_consts)
  then have "FIRST_SECOND \<le> c div NANOS_PER_SECOND" "c div NANOS_PER_SECOND < END_SECOND"
    by (simp_all add: second_consts div_less_iff_less_mult less_eq_div_iff_mult_less_eq) 
  then show ?thesis
    by (simp add: timestamp_ok_def from_unix_nanos_def c_def [symmetric])
      (simp add: NANOS_PER_SECOND_def)
qed

lemma unix_nanos_from:
  "FIRST_SECOND * NANOS_PER_SECOND \<le> n \<Longrightarrow> n < END_SECOND * NANOS_PER_SECOND \<Longrightarrow>
    unix_nanos (from_unix_nanos n) = n"
  by (simp add: from_unix_nanos_def unix_nanos_def clamp_id Let_def)

lemma from_unix_nanos_of:
  assumes "timestamp_ok t"
  shows "from_unix_nanos (unix_nanos t) = t"
proof -
  let ?n = "unix_nanos t"
  have n: "?n = NANOS_PER_SECOND * seconds t + nanos t" by (simp add: unix_nanos_def)
  have "FIRST_SECOND * NANOS_PER_SECOND \<le> ?n" "?n \<le> END_SECOND * NANOS_PER_SECOND - 1"
    using assms by (auto simp: timestamp_ok_def unix_nanos_def second_consts)
  moreover have "?n div NANOS_PER_SECOND = seconds t" "?n mod NANOS_PER_SECOND = nanos t"
    using quot_rem [OF n] assms by (simp_all add: timestamp_ok_def)
  ultimately show ?thesis by (simp add: from_unix_nanos_def clamp_id Let_def)
qed

section \<open>Fields of a date\<close>

lemma date_fields:
  assumes "date_ok d"
  obtains y m dd where "date_from_days (date_days d) = (y, m, dd)" "valid_civil y m dd"
    "days_from_date y m dd = date_days d" "0 \<le> y" "y \<le> 9999" "1 \<le> m" "m \<le> 12"
    "1 \<le> dd" "dd \<le> 31"
proof -
  obtain y m dd where f: "date_from_days (date_days d) = (y, m, dd)"
    by (cases "date_from_days (date_days d)")
  note c = date_from_days_correct [OF f]
  show thesis
    using that [OF f c] civil_year_range [OF f] civil_day_bounds [OF c(1)] assms
    by (simp add: date_ok_def day_consts)
qed

lemma date_new_iff:
  assumes "0 \<le> y"
  shows "date_new y m dd = Some d \<longleftrightarrow>
    y \<le> 9999 \<and> valid_civil y m dd \<and> d = Date (days_from_date y m dd)"
  using assms by (auto simp: date_new_def Let_def valid_civil_def)

lemma date_new_ok: "0 \<le> y \<Longrightarrow> date_new y m dd = Some d \<Longrightarrow> date_ok d"
  using valid_civil_days_range by (auto simp: date_new_iff date_ok_def day_consts)

section \<open>Reading fixed-width numbers\<close>

lemma number_at:
  assumes "text = pre @ fixed w n @ post" and "start = length pre" and "stop = start + w"
    and "n < 10 ^ w"
  shows "number text start stop = Some n"
  using assms by (simp add: number_def fold_digits_fixed)

lemma byte_at_append:
  "byte_at (xs @ ys) i = (if i < length xs then byte_at xs i else byte_at ys (i - length xs))"
  by (auto simp: byte_at_def nth_append)

lemma byte_at_Cons [simp]: "byte_at (x # xs) 0 = Some x" "byte_at (x # xs) (Suc i) = byte_at xs i"
  by (simp_all add: byte_at_def)

section \<open>Fractions\<close>

lemma trim_end_zeros_take:
  obtains k where "trim_end_zeros s = take k s" "k \<le> length s"
    "\<And>i. k \<le> i \<Longrightarrow> i < length s \<Longrightarrow> s ! i = CHR ''0''" "trim_end_zeros s = [] \<longleftrightarrow> k = 0"
proof -
  let ?z = "\<lambda>c. c = CHR ''0''"
  define zs where "zs = rev (takeWhile ?z (rev s))"
  have s: "s = trim_end_zeros s @ zs"
    by (metis rev_append rev_rev_ident takeWhile_dropWhile_id trim_end_zeros_def zs_def)
  have z: "c = CHR ''0''" if "c \<in> set zs" for c
    using that set_takeWhileD by (fastforce simp: zs_def)
  show thesis
  proof (rule that [of "length (trim_end_zeros s)"])
    show "trim_end_zeros s = take (length (trim_end_zeros s)) s" using s by (metis append_eq_conv_conj)
    show "length (trim_end_zeros s) \<le> length s" using s by (metis length_append le_add1)
    show "s ! i = CHR ''0''" if "length (trim_end_zeros s) \<le> i" "i < length s" for i
      using s that z by (metis leD length_append nat_add_left_cancel_less nth_append nth_mem
          le_add_diff_inverse)
  qed simp
qed

lemma fold_digits_foldl:
  "\<forall>c \<in> set xs. is_digit c \<Longrightarrow>
    fold_digits t xs = Some (foldl (\<lambda>a c. a * 10 + digit_value c) t xs)"
  by (induction xs arbitrary: t) simp_all

lemma fraction_nanos_fixed:
  assumes "n < 10 ^ 9" and "k \<le> 9" and "\<And>i. k \<le> i \<Longrightarrow> i < 9 \<Longrightarrow> fixed 9 n ! i = CHR ''0''"
  shows "fraction_nanos k (take k (fixed 9 n) @ rest) = n"
proof -
  let ?f = "fixed 9 n"
  have "fraction_nanos k (take k ?f @ rest) = foldl (\<lambda>a i. a * 10 + digit_value (?f ! i)) 0 [0..<9]"
    unfolding fraction_nanos_def
  proof (rule foldl_cong [OF refl refl])
    fix a i :: nat
    assume "i \<in> set [0..<9]"
    then show "a * 10 + (if i < k then digit_value ((take k ?f @ rest) ! i) else 0)
        = a * 10 + digit_value (?f ! i)"
      using assms(2,3) by (auto simp: nth_append digit_value_def)
  qed
  also have "\<dots> = foldl (\<lambda>a c. a * 10 + digit_value c) 0 (map (\<lambda>i. ?f ! i) [0..<9])"
    by (simp only: foldl_map)
  also have "map (\<lambda>i. ?f ! i) [0..<9] = ?f"
    using map_nth [of ?f] by simp
  finally show ?thesis
    using fold_digits_foldl [of ?f 0] fold_digits_fixed [of 0 9 n] assms(1) fixed_digits by simp
qed

lemma takeWhile_digits_append:
  "\<forall>c \<in> set xs. is_digit c \<Longrightarrow> takeWhile is_digit (xs @ ''Z'') = xs"
  by (induction xs) (simp_all add: is_digit_def)

lemma parse_fraction_text:
  assumes "0 \<le> n" and "n < NANOS_PER_SECOND"
  shows "parse_fraction ((if n \<noteq> 0 then ''.'' @ trim_end_zeros (pad0 9 n) else '''') @ ''Z'')
    = Some (nat n, ''Z'')"
proof (cases "n = 0")
  case True
  then show ?thesis by (simp add: parse_fraction_def)
next
  case False
  let ?f = "fixed 9 (nat n)"
  have f: "pad0 9 n = ?f" using assms by (simp add: pad0_fixed NANOS_PER_SECOND_def)
  have n9: "nat n < 10 ^ 9" using assms by (simp add: NANOS_PER_SECOND_def nat_less_iff)
  obtain k where k: "trim_end_zeros ?f = take k ?f" "k \<le> length ?f"
    "\<And>i. k \<le> i \<Longrightarrow> i < length ?f \<Longrightarrow> ?f ! i = CHR ''0''" "trim_end_zeros ?f = [] \<longleftrightarrow> k = 0"
    using trim_end_zeros_take [of ?f] by blast
  have val: "fraction_nanos k (take k ?f @ ''Z'') = nat n"
    using fraction_nanos_fixed [OF n9, of k "''Z''"] k(2,3) by simp
  have "k \<noteq> 0"
  proof
    assume "k = 0"
    with val have "nat n = 0" by (simp add: fraction_nanos_def upt_rec)
    with False assms(1) show False by simp
  qed
  moreover have "takeWhile is_digit (take k ?f @ ''Z'') = take k ?f"
    by (rule takeWhile_digits_append) (meson fixed_digits in_set_takeD)
  ultimately show ?thesis
    using False k(1,2) val by (simp add: parse_fraction_def f)
qed


section \<open>What is written reads back\<close>

lemma parse_offset_Z: "parse_offset ''Z'' = Some 0"
  by (simp add: parse_offset_def)

lemma parse_fields:
  assumes shape: "text = fixed 4 y @ ''-'' @ fixed 2 mo @ ''-'' @ fixed 2 d @ ''T''
      @ fixed 2 h @ '':'' @ fixed 2 mi @ '':'' @ fixed 2 s @ tail"
    and small: "y < 10000" "mo < 100" "d < 100" "h < 100" "mi < 100" "s < 100"
  shows "separators_ok text" and "number text 0 4 = Some y" and "number text 5 7 = Some mo"
    and "number text 8 10 = Some d" and "number text 11 13 = Some h"
    and "number text 14 16 = Some mi" and "number text 17 19 = Some s"
    and "drop 19 text = tail"
proof -
  show "separators_ok text"
    by (simp add: separators_ok_def shape byte_at_append eval_nat_numeral del: fixed.simps)
  show "number text 0 4 = Some y"
    by (rule number_at [where w = 4 and n = y and pre = "[]"]) (use small in \<open>simp_all add: shape del: fixed.simps\<close>)
  show "number text 5 7 = Some mo"
    by (rule number_at [where w = 2 and n = mo and pre = "fixed 4 y @ ''-''"])
      (use small in \<open>simp_all add: shape del: fixed.simps\<close>)
  show "number text 8 10 = Some d"
    by (rule number_at [where w = 2 and n = d and pre = "fixed 4 y @ ''-'' @ fixed 2 mo @ ''-''"])
      (use small in \<open>simp_all add: shape del: fixed.simps\<close>)
  show "number text 11 13 = Some h"
    by (rule number_at [where w = 2 and n = h and pre = "fixed 4 y @ ''-'' @ fixed 2 mo @ ''-'' @ fixed 2 d @ ''T''"])
      (use small in \<open>simp_all add: shape del: fixed.simps\<close>)
  show "number text 14 16 = Some mi"
    by (rule number_at [where w = 2 and n = mi and pre = "fixed 4 y @ ''-'' @ fixed 2 mo @ ''-'' @ fixed 2 d @ ''T''
        @ fixed 2 h @ '':''"]) (use small in \<open>simp_all add: shape del: fixed.simps\<close>)
  show "number text 17 19 = Some s"
    by (rule number_at [where w = 2 and n = s and pre = "fixed 4 y @ ''-'' @ fixed 2 mo @ ''-'' @ fixed 2 d @ ''T''
        @ fixed 2 h @ '':'' @ fixed 2 mi @ '':''"]) (use small in \<open>simp_all add: shape del: fixed.simps\<close>)
  show "drop 19 text = tail"
    by (simp add: shape drop_Cons' del: fixed.simps)
qed

lemma clock_fields:
  fixes s :: int
  assumes "0 \<le> s" "s < 86400"
  shows "s div 3600 * 3600 + s div 60 mod 60 * 60 + s mod 60 = s"
    and "0 \<le> s div 3600" "s div 3600 < 24" "0 \<le> s div 60 mod 60" "s div 60 mod 60 < 60"
    and "0 \<le> s mod 60" "s mod 60 < 60"
proof -
  have "s div 3600 = s div 60 div 60" by (simp add: zdiv_zmult2_eq [symmetric])
  then show "s div 3600 * 3600 + s div 60 mod 60 * 60 + s mod 60 = s"
    using div_mult_mod_eq [of s 60] div_mult_mod_eq [of "s div 60" 60] by linarith
qed (use assms in simp_all)

lemma parse_timestamp_text:
  assumes ok: "timestamp_ok t"
  shows "parse (timestamp_text t) = Some t"
proof -
  let ?days = "seconds t div SECONDS_PER_DAY" and ?sod = "seconds t mod SECONDS_PER_DAY"
  have range: "FIRST_SECOND \<le> seconds t" "seconds t < END_SECOND"
    and nn: "0 \<le> nanos t" "nanos t < NANOS_PER_SECOND"
    using ok by (auto simp: timestamp_ok_def)
  have "-719528 \<le> ?days" "?days < 2932897"
    using range by (simp_all add: second_consts div_less_iff_less_mult less_eq_div_iff_mult_less_eq)
  then have "date_ok (Date ?days)"
    by (simp add: date_ok_def day_consts)
  then obtain y m d where f: "date_from_days ?days = (y, m, d)" "valid_civil y m d"
      "days_from_date y m d = ?days" "0 \<le> y" "y \<le> 9999" "1 \<le> m" "m \<le> 12" "1 \<le> d" "d \<le> 31"
    by (rule date_fields) auto
  have sod: "0 \<le> ?sod" "?sod < 86400" by (simp_all add: second_consts)
  note c = clock_fields [OF sod]
  define h where "h = ?sod div 3600"
  define mi where "mi = ?sod div 60 mod 60"
  define s where "s = ?sod mod 60"
  note hms = c [folded h_def mi_def s_def]
  define tail where "tail =
    (if nanos t \<noteq> 0 then ''.'' @ trim_end_zeros (pad0 9 (nanos t)) else '''') @ ''Z''"
  have shape: "timestamp_text t = fixed 4 (nat y) @ ''-'' @ fixed 2 (nat m) @ ''-''
      @ fixed 2 (nat d) @ ''T'' @ fixed 2 (nat h) @ '':'' @ fixed 2 (nat mi) @ '':''
      @ fixed 2 (nat s) @ tail"
    using f hms
    by (simp add: timestamp_text_def Let_def pad0_fixed h_def [symmetric] mi_def [symmetric]
        s_def [symmetric] tail_def del: fixed.simps)
  have small: "nat y < 10000" "nat m < 100" "nat d < 100" "nat h < 100" "nat mi < 100" "nat s < 100"
    using f hms by simp_all
  note p = parse_fields [OF shape small]
  have tail: "parse_fraction tail = Some (nat (nanos t), ''Z'')"
    unfolding tail_def by (rule parse_fraction_text [OF nn])
  have secs: "days_from_date y m d * SECONDS_PER_DAY + (h * 3600 + mi * 60 + s) = seconds t"
    using f(3) hms(1) by (simp add: SECONDS_PER_DAY_def)
  have v: "1 \<le> d \<and> d \<le> days_in_month y m" using f(2) by (simp add: valid_civil_def)
  have hr: "nat h \<le> 23" "nat mi \<le> 59" "nat s \<le> 59" using hms by simp_all
  have nm: "Suc 0 \<le> nat m" "nat m \<le> 12" "Suc 0 \<le> nat d" using f by linarith+
  have sum: "int (nat h * 3600 + nat mi * 60 + nat s) = h * 3600 + mi * 60 + s"
    using hms by simp
  show ?thesis
    unfolding parse_def p tail
    using f v hr nm nn range secs sum by (simp add: parse_offset_Z p tail Let_def)
qed

lemma date_from_str_text:
  assumes "date_ok d"
  shows "date_from_str (date_text d) = Inr d"
proof -
  obtain y m dd where f: "date_from_days (date_days d) = (y, m, dd)" "valid_civil y m dd"
      "days_from_date y m dd = date_days d" "0 \<le> y" "y \<le> 9999" "1 \<le> m" "m \<le> 12"
      "1 \<le> dd" "dd \<le> 31"
    using assms by (rule date_fields)
  have shape: "date_text d = fixed 4 (nat y) @ ''-'' @ fixed 2 (nat m) @ ''-'' @ fixed 2 (nat dd)"
    using f by (simp add: date_text_def pad0_fixed del: fixed.simps)
  have "number (date_text d) 0 4 = Some (nat y)"
    by (rule number_at [where w = 4 and n = "nat y" and pre = "[]"]) (use f in \<open>simp_all add: shape del: fixed.simps\<close>)
  moreover have "number (date_text d) 5 7 = Some (nat m)"
    by (rule number_at [where w = 2 and n = "nat m" and pre = "fixed 4 (nat y) @ ''-''"])
      (use f in \<open>simp_all add: shape del: fixed.simps\<close>)
  moreover have "number (date_text d) 8 10 = Some (nat dd)"
    by (rule number_at [where w = 2 and n = "nat dd" and pre = "fixed 4 (nat y) @ ''-'' @ fixed 2 (nat m) @ ''-''"
          and post = "[]"]) (use f in \<open>simp_all add: shape del: fixed.simps\<close>)
  moreover have "date_new y m dd = Some d"
    using f by (simp add: date_new_iff)
  moreover have "length (date_text d) = 10" "date_text d ! 4 = CHR ''-''"
      "date_text d ! 7 = CHR ''-''"
    by (simp_all add: shape nth_append del: fixed.simps)
  ultimately show ?thesis
    using f by (simp add: date_from_str_def Let_def)
qed

section \<open>What is read is in range\<close>

lemma fraction_nanos_bound:
  assumes "len \<le> length fraction" and "\<And>i. i < len \<Longrightarrow> is_digit (fraction ! i)"
  shows "fraction_nanos len fraction < 10 ^ 9"
proof -
  let ?d = "\<lambda>p. if p < len then digit_value (fraction ! p) else 0"
  have d: "?d p < 10" for p using assms(2) digit_value_bound by auto
  have "foldl (\<lambda>n p. n * 10 + ?d p) 0 [0..<k] < 10 ^ k" for k
  proof (induction k)
    case (Suc k)
    then show ?case using d [of k] by simp
  qed simp
  from this [of 9] show ?thesis by (simp add: fraction_nanos_def)
qed

lemma parse_fraction_bound:
  assumes "parse_fraction rest = Some (n, r)"
  shows "n < 10 ^ 9"
proof (cases "strip_prefix ''.'' rest")
  case None
  with assms show ?thesis by (simp add: parse_fraction_def)
next
  case (Some fraction)
  let ?len = "length (takeWhile is_digit fraction)"
  have "n = fraction_nanos ?len fraction"
    using assms Some by (auto simp: parse_fraction_def Let_def split: if_splits)
  moreover have "is_digit (fraction ! i)" if "i < ?len" for i
    using that by (metis nth_mem set_takeWhileD takeWhile_nth)
  ultimately show ?thesis
    using fraction_nanos_bound [of ?len fraction] length_takeWhile_le by blast
qed

lemma parse_ok: "parse text = Some t \<Longrightarrow> timestamp_ok t"
  by (auto simp: parse_def Option.bind_eq_Some_conv Let_def timestamp_ok_def NANOS_PER_SECOND_def
      dest!: parse_fraction_bound split: if_splits)

lemma timestamp_text_inject:
  "timestamp_ok t \<Longrightarrow> timestamp_ok u \<Longrightarrow> timestamp_text t = timestamp_text u \<Longrightarrow> t = u"
  by (metis option.inject parse_timestamp_text)

section \<open>Days and months\<close>

lemma days_from_date_first: "days_from_date y m d = days_from_date y m 1 + d - 1"
  by (simp add: days_from_date_def Let_def)

lemma monday_bounds:
  assumes "date_ok d"
  shows "date_ok (monday d)" and "date_days (monday d) \<le> date_days d"
    and "date_days d < date_days (monday d) + 7"
proof -
  have "0 \<le> (date_days d + 3) mod 7" "(date_days d + 3) mod 7 < 7" by simp_all
  then show "date_days (monday d) \<le> date_days d" "date_days d < date_days (monday d) + 7"
    using assms by (auto simp: monday_def from_days_def clamp_def date_ok_def)
  show "date_ok (monday d)" by (simp add: monday_def)
qed

lemma month_bounds:
  assumes "date_ok d"
  obtains y m dd where "date_from_days (date_days d) = (y, m, dd)" "valid_civil y m dd"
    "first_of_month d = Date (days_from_date y m 1)" "date_days (first_of_month d) = date_days d - dd + 1"
    "first_of_next_month d = from_days (days_from_date y m 1 + days_in_month y m)"
    "1 \<le> dd" "dd \<le> days_in_month y m" "0 \<le> y" "y \<le> 9999"
proof -
  obtain y m dd where f: "date_from_days (date_days d) = (y, m, dd)" "valid_civil y m dd"
      "days_from_date y m dd = date_days d" "0 \<le> y" "y \<le> 9999" "1 \<le> m" "m \<le> 12"
      "1 \<le> dd" "dd \<le> 31"
    using assms by (rule date_fields)
  have v1: "valid_civil y m 1" and dim: "dd \<le> days_in_month y m"
    using f by (auto simp: valid_civil_def)
  have "date_ok (Date (days_from_date y m 1))"
    using valid_civil_days_range [OF v1 f(4,5)] by (simp add: date_ok_def day_consts)
  then have fm: "first_of_month d = Date (days_from_date y m 1)"
    by (simp add: first_of_month_def f(1) from_days_id)
  have last: "valid_civil y m (days_in_month y m)"
    using f dim by (simp add: valid_civil_def)
  have "days_from_date (if m = 12 then y + 1 else y) (if m = 12 then 1 else m + 1) 1
      = days_from_date y m 1 + days_in_month y m"
    using days_from_next_civil(1) [OF last, of "if m = 12 then y + 1 else y"
        "if m = 12 then 1 else m + 1" 1] f(7) days_from_date_first [of y m "days_in_month y m"]
    by (auto simp: next_civil_def)
  then have nm: "first_of_next_month d = from_days (days_from_date y m 1 + days_in_month y m)"
    by (auto simp: first_of_next_month_def f(1) split: if_splits)
  show thesis
    using that [OF f(1,2) fm _ nm f(8) dim f(4,5)] fm f(3) days_from_date_first [of y m dd] by simp
qed

section \<open>Properties\<close>

text \<open>
  C33: reading an RFC 3339 text either fails or gives an instant in the supported range, and what
  \<open>Display\<close> writes for that instant reads back as the same one.
\<close>

theorem timestamp_text_round_trip:
  assumes "timestamp_from_str s = Inr t"
  shows "timestamp_ok t \<and> timestamp_from_str (timestamp_text t) = Inr t"
proof -
  have "parse s = Some t" using assms by (simp add: timestamp_from_str_def result_simps)
  then have ok: "timestamp_ok t" by (rule parse_ok)
  then show ?thesis by (simp add: timestamp_from_str_def parse_timestamp_text)
qed

lemma leap_day_text:
  "timestamp_from_str ''2024-02-29T23:30:00.25+01:00'' = Inr (Timestamp 1709245800 250000000)"
proof -
  let ?s = "''2024-02-29T23:30:00.25+01:00''"
  have "separators_ok ?s" by (simp add: separators_ok_def byte_at_def)
  moreover have "number ?s 0 4 = Some 2024" "number ?s 5 7 = Some 2" "number ?s 8 10 = Some 29"
      "number ?s 11 13 = Some 23" "number ?s 14 16 = Some 30" "number ?s 17 19 = Some 0"
    by (simp_all add: number_def digit_value_def is_digit_def)
  moreover have "parse_fraction (drop 19 ?s) = Some (250000000, ''+01:00'')"
    by (simp add: parse_fraction_def is_digit_def fraction_nanos_def digit_value_def upt_rec)
  moreover have "parse_offset ''+01:00'' = Some 3600"
    by (simp add: parse_offset_def number_def is_digit_def digit_value_def)
  moreover have "days_in_month 2024 2 = 29" "days_from_date 2024 2 29 = 19782"
    by (simp_all add: days_in_month_def days_from_date_def Let_def)
  ultimately show ?thesis
    by (simp add: timestamp_from_str_def parse_def second_consts SECONDS_PER_DAY_def)
qed

theorem timestamp_text_round_trip_witness:
  "timestamp_from_str (timestamp_text (Timestamp 1709245800 250000000))
    = Inr (Timestamp 1709245800 250000000)"
  using timestamp_text_round_trip [OF leap_day_text] by simp

end
