(* ===== verification/Partition.thy ===== *)
theory Partition
  imports Date_Time
begin

text \<open>
  The partition intervals of \<open>core/src/partition.rs\<close>: the first day of the interval that holds
  a date and the first day of the next one. The lemmas say that an interval holds its date, and
  that away from the ends of the calendar the intervals tile it: two dates share an interval or
  lie in disjoint ones, and each interval ends where the next starts.
\<close>

datatype partition_interval = Day | Week | Month

datatype expiry = Detach | Drop

record partition_info =
  partition_name :: string
  from_day :: date
  to_day :: date
  pending_rows :: nat
  failed_rows :: nat

definition partition_info_new :: "string \<Rightarrow> date \<Rightarrow> date \<Rightarrow> partition_info" where
  "partition_info_new n f t = \<lparr>partition_name = n, from_day = f, to_day = t, pending_rows = 0, failed_rows = 0\<rparr>"

fun interval_start :: "partition_interval \<Rightarrow> date \<Rightarrow> date" where
  "interval_start Day date = date"
| "interval_start Week date = monday date"
| "interval_start Month date = first_of_month date"

fun interval_end :: "partition_interval \<Rightarrow> date \<Rightarrow> date" where
  "interval_end Day date = add_days date 1"
| "interval_end Week date = add_days (monday date) 7"
| "interval_end Month date = first_of_next_month date"

section \<open>An interval holds its date\<close>

lemma add_days_value:
  assumes "date_ok d" and "\<bar>n\<bar> < 2 ^ 62"
  shows "date_days (add_days d n) = clamp FIRST_DAY LAST_DAY (date_days d + n)"
  using assms by (auto simp: add_days_def from_days_def saturating_add_i64_def date_ok_def
      day_consts clamp_def)

lemma interval_ok: "date_ok d \<Longrightarrow> date_ok (interval_start i d) \<and> date_ok (interval_end i d)"
proof (cases i)
  case Month
  assume d: "date_ok d"
  obtain y m dd where m: "first_of_month d = Date (days_from_date y m 1)"
      "date_days (first_of_month d) = date_days d - dd + 1" "1 \<le> dd" "valid_civil y m dd"
      "0 \<le> y" "y \<le> 9999" "first_of_next_month d = from_days (days_from_date y m 1 + days_in_month y m)"
    using month_bounds [OF d] by metis
  have "valid_civil y m 1" using m(3,4) by (auto simp: valid_civil_def)
  then show ?thesis
    using valid_civil_days_range [of y m 1] m Month by (simp add: date_ok_def day_consts)
      (simp add: date_ok_def [symmetric] day_consts [symmetric])
qed (auto simp: monday_bounds add_days_def)

lemma interval_start_le: "date_ok d \<Longrightarrow> interval_start i d \<le> d"
proof (cases i)
  case Month
  assume "date_ok d"
  then show ?thesis using Month by (auto simp: date_order elim: month_bounds)
qed (auto simp: date_order monday_bounds)

text \<open>At the last day of the calendar an interval still reaches to it.\<close>

lemma interval_end_ge:
  assumes d: "date_ok d"
  shows "d \<le> interval_end i d"
proof (cases i)
  case Day
  then show ?thesis
    using assms by (simp add: date_order add_days_value) (simp add: clamp_def date_ok_def)
next
  case Week
  then show ?thesis
    using assms monday_bounds [OF d]
    by (simp add: date_order add_days_value) (simp add: clamp_def date_ok_def)
next
  case Month
  obtain y m dd where m: "date_days (first_of_month d) = date_days d - dd + 1"
      "first_of_month d = Date (days_from_date y m 1)" "dd \<le> days_in_month y m"
      "first_of_next_month d = from_days (days_from_date y m 1 + days_in_month y m)"
    using month_bounds [OF d] by metis
  then show ?thesis
    using assms Month by (auto simp: date_order from_days_def clamp_def date_ok_def)
qed

lemma interval_end_gt:
  assumes d: "date_ok d" and "date_days d < LAST_DAY"
  shows "d < interval_end i d"
proof (cases i)
  case Day
  then show ?thesis
    using assms by (simp add: date_order add_days_value) (simp add: clamp_def date_ok_def)
next
  case Week
  then show ?thesis
    using assms monday_bounds [OF d]
    by (simp add: date_order add_days_value) (simp add: clamp_def date_ok_def)
next
  case Month
  obtain y m dd where m: "date_days (first_of_month d) = date_days d - dd + 1"
      "first_of_month d = Date (days_from_date y m 1)" "dd \<le> days_in_month y m"
      "first_of_next_month d = from_days (days_from_date y m 1 + days_in_month y m)"
    using month_bounds [OF d] by metis
  then show ?thesis
    using assms Month by (auto simp: date_order from_days_def clamp_def date_ok_def)
qed

lemma interval_start_lt_end:
  assumes d: "date_ok d" and l: "date_days d < LAST_DAY"
  shows "interval_start i d < interval_end i d"
  using interval_start_le [OF d] interval_end_gt [OF d l] by (rule order.strict_trans1)

section \<open>Intervals tile the calendar\<close>

text \<open>
  At the ends of the calendar the bounds are clamped: the week that starts before 0000-01-01 and
  the intervals that would end after 9999-12-31. \<open>inner\<close> leaves those out.
\<close>

definition inner :: "partition_interval \<Rightarrow> date \<Rightarrow> bool" where
  "inner i d \<longleftrightarrow> date_ok d \<and> FIRST_DAY + 6 \<le> date_days d \<and> date_days (interval_end i d) < LAST_DAY"

lemma clamp_below: "lo \<le> x \<Longrightarrow> clamp lo hi x < hi \<Longrightarrow> clamp lo hi x = x"
  by (simp add: clamp_def split: if_splits)

lemma week_end_inner:
  assumes "inner Week d"
  shows "date_days (add_days (monday d) 7) = date_days (monday d) + 7"
proof -
  have ok: "date_ok d" and l: "date_days (add_days (monday d) 7) < LAST_DAY"
    using assms by (simp_all add: inner_def)
  have c: "date_days (add_days (monday d) 7) = clamp FIRST_DAY LAST_DAY (date_days (monday d) + 7)"
    by (rule add_days_value [OF monday_bounds(1) [OF ok]]) simp
  have "FIRST_DAY \<le> date_days (monday d) + 7"
    using monday_bounds(1) [OF ok] by (simp add: date_ok_def)
  then show ?thesis using clamp_below l c by metis
qed

lemma month_end_inner:
  assumes i: "inner Month d"
  obtains y m dd where "date_from_days (date_days d) = (y, m, dd)" "valid_civil y m dd"
    "first_of_month d = Date (days_from_date y m 1)" "date_ok (first_of_month d)"
    "date_days (first_of_next_month d) = days_from_date y m 1 + days_in_month y m"
proof -
  have ok: "date_ok d" and l: "date_days (first_of_next_month d) < LAST_DAY"
    using i by (simp_all add: inner_def)
  obtain y m dd where m: "date_from_days (date_days d) = (y, m, dd)" "valid_civil y m dd"
      "first_of_month d = Date (days_from_date y m 1)"
      "first_of_next_month d = from_days (days_from_date y m 1 + days_in_month y m)"
    using month_bounds [OF ok] by metis
  have fm: "date_ok (first_of_month d)" using interval_ok [OF ok, of Month] by simp
  have "0 \<le> days_in_month y m" by (simp add: days_in_month_def Let_def)
  then have "FIRST_DAY \<le> days_from_date y m 1 + days_in_month y m"
    using fm m(3) by (simp add: date_ok_def)
  then have "date_days (first_of_next_month d) = days_from_date y m 1 + days_in_month y m"
    using l m(4) clamp_below by (simp add: from_days_def)
  then show thesis using that m(1-3) fm by blast
qed

lemma monday_inner:
  assumes "FIRST_DAY + 6 \<le> date_days d" and "date_days d \<le> LAST_DAY"
  shows "date_days (monday d) = date_days d - (date_days d + 3) mod 7"
proof -
  have "0 \<le> (date_days d + 3) mod 7" "(date_days d + 3) mod 7 < 7" by simp_all
  then show ?thesis using assms by (auto simp: monday_def from_days_def clamp_def)
qed

lemma week_div:
  fixes d e :: int
  assumes "d - (d + 3) mod 7 \<le> e" and "e < d - (d + 3) mod 7 + 7"
  shows "e - (e + 3) mod 7 = d - (d + 3) mod 7"
proof -
  define q where "q = (d + 3) div 7"
  have d: "d - (d + 3) mod 7 = 7 * q - 3" by (simp add: q_def minus_mod_eq_mult_div [symmetric])
  have "e + 3 = 7 * q + (e + 3 - 7 * q)" by simp
  from quot_rem(2) [OF this] have "(e + 3) mod 7 = e + 3 - 7 * q" using assms d by linarith
  then show ?thesis using d by simp
qed

lemma date_eqI: "date_days a = date_days b \<Longrightarrow> a = b"
  by (simp add: date.expand)

lemma interval_tiles:
  assumes d: "inner i d" and e: "inner i e"
    and "interval_start i d \<le> e" and "e < interval_end i d"
  shows "interval_start i e = interval_start i d" and "interval_end i e = interval_end i d"
proof -
  have ok: "date_ok d" "date_ok e" and in_d: "FIRST_DAY + 6 \<le> date_days d" "date_days d \<le> LAST_DAY"
    and in_e: "FIRST_DAY + 6 \<le> date_days e" "date_days e \<le> LAST_DAY"
    using d e by (auto simp: inner_def date_ok_def)
  have "interval_start i e = interval_start i d \<and> interval_end i e = interval_end i d"
  proof (cases i)
    case Day
    have "date_days d \<le> date_days e" "date_days e \<le> date_days d"
      using assms(3,4) Day ok d
      by (auto simp: date_order add_days_value inner_def clamp_def split: if_splits)
    then have "e = d" by (simp add: date_eqI)
    then show ?thesis by simp
  next
    case Week
    note md = monday_inner [OF in_d] and me = monday_inner [OF in_e]
    have "date_days (monday d) \<le> date_days e" "date_days e < date_days (monday d) + 7"
      using assms(3,4) d unfolding Week by (simp_all add: date_order week_end_inner)
    then have "date_days (monday e) = date_days (monday d)"
      unfolding md me by (rule week_div)
    then have "monday e = monday d" by (rule date_eqI)
    then show ?thesis using Week by simp
  next
    case Month
    obtain y m dd where m: "date_from_days (date_days d) = (y, m, dd)" "valid_civil y m dd"
        "first_of_month d = Date (days_from_date y m 1)"
        "date_days (first_of_next_month d) = days_from_date y m 1 + days_in_month y m"
      using month_end_inner d Month by metis
    define k where "k = date_days e - days_from_date y m 1 + 1"
    have "days_from_date y m 1 \<le> date_days e"
        "date_days e < days_from_date y m 1 + days_in_month y m"
      using assms(3,4) Month m by (simp_all add: date_order)
    then have "valid_civil y m k"
      using m(2) by (auto simp: valid_civil_def k_def)
    moreover have "days_from_date y m k = date_days e"
      using days_from_date_first [of y m k] by (simp add: k_def)
    ultimately have "date_from_days (date_days e) = (y, m, k)"
      using days_from_date_correct by metis
    then show ?thesis
      using m(1) Month by (simp add: first_of_month_def first_of_next_month_def)
  qed
  then show "interval_start i e = interval_start i d" and "interval_end i e = interval_end i d"
    by simp_all
qed

lemma interval_next:
  assumes d: "inner i d"
  shows "interval_start i (interval_end i d) = interval_end i d"
proof -
  have ok: "date_ok d" and in_d: "FIRST_DAY + 6 \<le> date_days d" "date_days d \<le> LAST_DAY"
    and l: "date_days (interval_end i d) < LAST_DAY"
    using d by (auto simp: inner_def date_ok_def)
  show ?thesis
  proof (cases i)
    case Week
    have "date_days (add_days (monday d) 7) = date_days (monday d) + 7"
      using d Week by (simp add: week_end_inner)
    moreover have "FIRST_DAY + 6 \<le> date_days (monday d) + 7"
      using monday_bounds(1) [OF ok] by (simp add: date_ok_def)
    moreover have "(date_days d - (date_days d + 3) mod 7 + 7 + 3) mod 7 = 0"
      by (simp add: mod_diff_eq [symmetric]) presburger
    ultimately show ?thesis
      using Week l monday_inner [OF in_d] monday_inner [of "add_days (monday d) 7"]
      by (intro date_eqI) simp
  next
    case Month
    obtain y m dd where m: "date_from_days (date_days d) = (y, m, dd)" "valid_civil y m dd"
        "first_of_month d = Date (days_from_date y m 1)"
        "date_days (first_of_next_month d) = days_from_date y m 1 + days_in_month y m"
      using month_end_inner d Month by metis
    have "valid_civil y m (days_in_month y m)"
      using m(2) by (auto simp: valid_civil_def)
    note nx = days_from_next_civil [OF this]
    obtain y' m' d' where n: "next_civil (y, m, days_in_month y m) = (y', m', d')"
      by (cases "next_civil (y, m, days_in_month y m)")
    have d1: "d' = 1" using n by (auto simp: next_civil_def split: if_splits)
    have days: "days_from_date y' m' 1 = date_days (first_of_next_month d)"
      using nx(1) [OF n] m(4) days_from_date_first [of y m "days_in_month y m"] d1 by simp
    have "date_from_days (date_days (first_of_next_month d)) = (y', m', 1)"
      using days_from_date_correct [OF nx(2) [OF n]] d1 days by simp
    then have "first_of_month (first_of_next_month d) = from_days (date_days (first_of_next_month d))"
      using days by (simp add: first_of_month_def)
    moreover have "date_ok (first_of_next_month d)" using interval_ok [OF ok, of Month] by simp
    ultimately show ?thesis using Month from_days_id by (metis date.collapse interval_end.simps(3)
        interval_start.simps(3))
  qed simp
qed

section \<open>Properties\<close>

text \<open>
  Away from the ends of the calendar a partition interval holds its date, the next interval
  starts where it ends, and every other date between its bounds has the same interval: the
  intervals tile the calendar.
\<close>

lemma partition_intervals_tile:
  assumes "inner i d"
  shows "interval_start i d \<le> d \<and> d < interval_end i d
    \<and> interval_start i (interval_end i d) = interval_end i d
    \<and> (\<forall>e. inner i e \<longrightarrow> interval_start i d \<le> e \<longrightarrow> e < interval_end i d \<longrightarrow>
        interval_start i e = interval_start i d \<and> interval_end i e = interval_end i d)"
proof -
  have d: "date_ok d" using assms by (simp add: inner_def)
  have l: "date_days d < LAST_DAY"
  proof (rule ccontr)
    assume "\<not> date_days d < LAST_DAY"
    then have "date_days d = LAST_DAY" using d by (simp add: date_ok_def)
    moreover have "date_days (interval_end i d) < LAST_DAY" using assms by (simp add: inner_def)
    ultimately show False using interval_end_ge [OF d, of i] by (simp add: date_order)
  qed
  show ?thesis
    using interval_start_le [OF d] interval_end_gt [OF d l] interval_next [OF assms]
      interval_tiles [OF assms] by blast
qed

lemma leap_month_inner: "inner Month (Date 19782)"
  by code_simp

lemma partition_intervals_tile_example:
  "interval_start Month (Date 19782) \<le> Date 19782
    \<and> interval_start Month (interval_end Month (Date 19782)) = interval_end Month (Date 19782)"
  using partition_intervals_tile [OF leap_month_inner] by simp

end
