(* ===== verification/Message.thy ===== *)
theory Message
  imports Errors Decimal "HOL-Library.Word"
begin

text \<open>
  Message types and ids (\<open>core/src/message.rs\<close>). The UUID crate is not under \<open>src/\<close>: its parser
  and its hyphenated form are the fields of \<open>uuid_api\<close>, an argument of the functions that use
  them, and \<open>uuid_text_ok\<close> states what its documentation promises, that the form reads back.
  \<open>MessageId::new\<close> calls that crate with the clock (\<open>Clock\<close>); elsewhere a new id is an argument.
\<close>

section \<open>Message types\<close>

definition MAX_MESSAGE_TYPE_LENGTH :: nat where "MAX_MESSAGE_TYPE_LENGTH = 249"

definition allowed_byte :: "char \<Rightarrow> bool" where
  "allowed_byte b \<longleftrightarrow> is_lower b \<or> is_digit b \<or> b = CHR ''_''"

definition check_message_type :: "string \<Rightarrow> (string, unit) result" where
  "check_message_type value =
     (if MAX_MESSAGE_TYPE_LENGTH < length value then Inl ''longer than 249 characters''
      else (let levels = split_on (CHR ''.'') value in
        if length levels < 2 then
          Inl ''needs at least two levels, such as `order_placed.v1`''
        else if list_ex (\<lambda>level. level = []) levels then Inl ''has an empty level''
        else if \<not> list_all (\<lambda>b. allowed_byte b \<or> b = CHR ''.'') value then
          Inl ''may hold only lowercase letters, digits and `_`, in levels joined by `.`''
        else (let version = strip_prefix ''v'' (last levels) in
          if \<not> (case version of None \<Rightarrow> False
                | Some digits \<Rightarrow> digits \<noteq> [] \<and> list_all is_digit digits) then
            Inl ''must end with its version, such as `.v1`''
          else Inr ())))"

datatype message_type = MessageType (type_str: string)

definition message_type_new :: "string \<Rightarrow> (envelope_error, message_type) result" where
  "message_type_new value =
     (case check_message_type value of
        Inr _ \<Rightarrow> Inr (MessageType value)
      | Inl reason \<Rightarrow> Inl (InvalidMessageType value reason))"

instantiation message_type :: linorder
begin
definition less_eq_message_type :: "message_type \<Rightarrow> message_type \<Rightarrow> bool" where
  "less_eq_message_type a b \<longleftrightarrow> type_str a \<le> type_str b"
definition less_message_type :: "message_type \<Rightarrow> message_type \<Rightarrow> bool" where
  "less_message_type a b \<longleftrightarrow> type_str a < type_str b"
instance
  by standard (auto simp: less_eq_message_type_def less_message_type_def intro: message_type.expand)
end

section \<open>Message ids\<close>

type_synonym uuid = "128 word"

record uuid_api =
  parse_str :: "string \<Rightarrow> uuid option"
  hyphenated :: "uuid \<Rightarrow> string"

definition uuid_text_ok :: "uuid_api \<Rightarrow> bool" where
  "uuid_text_ok U \<longleftrightarrow> (\<forall>u. parse_str U (hyphenated U u) = Some u)"

datatype message_id = MessageId (as_uuid: uuid)

definition message_id_text :: "uuid_api \<Rightarrow> message_id \<Rightarrow> string" where
  "message_id_text U i = hyphenated U (as_uuid i)"

definition message_id_from_str :: "uuid_api \<Rightarrow> string \<Rightarrow> (envelope_error, message_id) result" where
  "message_id_from_str U text =
     ok_or (envelope_error_invalid ''id'' ''not a UUID'')
       (map_option MessageId (parse_str U text))"

instantiation message_id :: linorder
begin
definition less_eq_message_id :: "message_id \<Rightarrow> message_id \<Rightarrow> bool" where
  "less_eq_message_id a b \<longleftrightarrow> as_uuid a \<le> as_uuid b"
definition less_message_id :: "message_id \<Rightarrow> message_id \<Rightarrow> bool" where
  "less_message_id a b \<longleftrightarrow> as_uuid a < as_uuid b"
instance
  by standard (auto simp: less_eq_message_id_def less_message_id_def intro: message_id.expand)
end

lemma message_id_round_trip:
  "uuid_text_ok U \<Longrightarrow> message_id_from_str U (message_id_text U i) = Inr i"
  by (simp add: message_id_from_str_def message_id_text_def uuid_text_ok_def)

section \<open>The grammar of a message type\<close>

text \<open>What the documentation of \<open>MessageType\<close> says, apart from the order of the checks.\<close>

definition version_level :: "string \<Rightarrow> bool" where
  "version_level l \<longleftrightarrow> (\<exists>digits. l = CHR ''v'' # digits \<and> digits \<noteq> [] \<and> list_all is_digit digits)"

definition message_type_grammar :: "string \<Rightarrow> bool" where
  "message_type_grammar s \<longleftrightarrow>
     length s \<le> 249 \<and>
     (\<exists>levels version. levels \<noteq> [] \<and> s = join_with (CHR ''.'') (levels @ [version])
        \<and> list_all (\<lambda>l. l \<noteq> [] \<and> list_all allowed_byte l) levels \<and> version_level version)"

lemma join_with_snoc:
  "xs \<noteq> [] \<Longrightarrow> join_with c (xs @ [y]) = join_with c xs @ c # y"
  by (induction c xs rule: join_with.induct) simp_all

lemma split_on_join:
  assumes "xs \<noteq> []" and "list_all (\<lambda>l. c \<notin> set l) xs"
  shows "split_on c (join_with c xs) = xs"
  using assms
proof (induction c xs rule: join_with.induct)
  case (3 c s t ss)
  then show ?case by (simp add: split_on_append)
qed (simp_all add: split_on_none)

lemma set_join_with: "set (join_with c xs) \<subseteq> insert c (\<Union> (set ` set xs))"
  by (induction c xs rule: join_with.induct) auto

lemma allowed_not_dot: "allowed_byte b \<Longrightarrow> b \<noteq> CHR ''.''"
  by (auto simp: allowed_byte_def ascii_simps)

lemma version_level_allowed: "version_level l \<Longrightarrow> l \<noteq> [] \<and> list_all allowed_byte l"
  by (auto simp: version_level_def allowed_byte_def is_lower_def list_all_iff)

lemma version_level_iff:
  "version_level l \<longleftrightarrow>
    (case strip_prefix ''v'' l of None \<Rightarrow> False | Some digits \<Rightarrow> digits \<noteq> [] \<and> list_all is_digit digits)"
  by (cases l) (auto simp: version_level_def)

lemma check_message_type_Inr:
  "check_message_type s = Inr () \<longleftrightarrow>
    length s \<le> 249 \<and> 2 \<le> length (split_on (CHR ''.'') s)
    \<and> list_all (\<lambda>l. l \<noteq> []) (split_on (CHR ''.'') s)
    \<and> list_all (\<lambda>b. allowed_byte b \<or> b = CHR ''.'') s
    \<and> version_level (last (split_on (CHR ''.'') s))"
  unfolding check_message_type_def Let_def version_level_iff [symmetric] MAX_MESSAGE_TYPE_LENGTH_def
  by (auto simp: list_all_iff list_ex_iff)

lemma grammar_complete:
  assumes "message_type_grammar s"
  shows "check_message_type s = Inr ()"
proof -
  obtain levels v where s: "levels \<noteq> []" "s = join_with (CHR ''.'') (levels @ [v])"
      "list_all (\<lambda>l. l \<noteq> [] \<and> list_all allowed_byte l) levels" "version_level v"
      and len: "length s \<le> 249"
    using assms by (auto simp: message_type_grammar_def)
  have all: "list_all (\<lambda>l. l \<noteq> [] \<and> list_all allowed_byte l) (levels @ [v])"
    using s(3) version_level_allowed [OF s(4)] by simp
  have "split_on (CHR ''.'') s = levels @ [v]"
    unfolding s(2) by (rule split_on_join) (use all allowed_not_dot in \<open>auto simp: list_all_iff\<close>)
  moreover have "allowed_byte b \<or> b = CHR ''.''" if "b \<in> set s" for b
    using that set_join_with [of "CHR ''.''" "levels @ [v]"] all
    unfolding s(2) [symmetric] by (auto simp: list_all_iff)
  ultimately show ?thesis
    unfolding check_message_type_Inr using len s(1,4) all
    by (cases levels) (auto simp: list_all_iff)
qed

lemma grammar_sound:
  assumes "check_message_type s = Inr ()"
  shows "message_type_grammar s"
proof -
  let ?ls = "split_on (CHR ''.'') s"
  note c = assms [unfolded check_message_type_Inr]
  have ls: "?ls = butlast ?ls @ [last ?ls]" by simp
  have "butlast ?ls \<noteq> []" using c by (cases ?ls) auto
  moreover have "s = join_with (CHR ''.'') (butlast ?ls @ [last ?ls])"
    using join_split_on [of "CHR ''.''" s] ls by simp
  moreover have "l \<noteq> [] \<and> list_all allowed_byte l" if "l \<in> set (butlast ?ls)" for l
  proof -
    have l: "l \<in> set ?ls" using that by (rule in_set_butlastD)
    then have "CHR ''.'' \<notin> set l" "set l \<subseteq> set s" by (simp_all add: split_on_pieces)
    then show ?thesis using l c by (fastforce simp: list_all_iff)
  qed
  ultimately show ?thesis
    unfolding message_type_grammar_def
    by (intro conjI exI [of _ "butlast ?ls"] exI [of _ "last ?ls"])
      (use c in \<open>simp_all only: list_all_iff ball_simps\<close>, blast+)
qed

lemma check_message_type_iff: "check_message_type s = Inr () \<longleftrightarrow> message_type_grammar s"
  using grammar_complete grammar_sound by blast

lemma message_type_new_iff:
  "message_type_new s = Inr t \<longleftrightarrow> message_type_grammar s \<and> t = MessageType s"
proof (cases "check_message_type s")
  case (Inl e)
  then have "\<not> message_type_grammar s" by (simp add: check_message_type_iff [symmetric])
  with Inl show ?thesis by (simp add: message_type_new_def)
next
  case (Inr u)
  then have "message_type_grammar s" by (simp add: check_message_type_iff [symmetric])
  moreover have "message_type_new s = Inr (MessageType s)"
    using Inr by (simp add: message_type_new_def)
  ultimately show ?thesis by auto
qed

definition message_type_ok :: "message_type \<Rightarrow> bool" where
  "message_type_ok t \<longleftrightarrow> message_type_new (type_str t) = Inr t"

lemma message_type_bytes:
  assumes "message_type_ok t" and "b \<in> set (type_str t)"
  shows "allowed_byte b \<or> b = CHR ''.''"
proof -
  have "check_message_type (type_str t) = Inr ()"
    using assms(1) grammar_complete by (simp add: message_type_ok_def message_type_new_iff)
  then show ?thesis using assms(2) by (simp add: check_message_type_Inr list_all_iff)
qed

section \<open>Properties\<close>

text \<open>
  C32: \<open>MessageType::new\<close> accepts exactly the documented grammar (two or more levels of lowercase
  letters, digits and \<open>_\<close> joined by dots, the last one a version \<open>v<digits>\<close>, at most 249 bytes),
  and a type it accepts is the text it was given.
\<close>

theorem message_type_grammar_exact:
  "(is_ok (message_type_new s) \<longleftrightarrow> message_type_grammar s)
   \<and> (message_type_new s = Inr t \<longleftrightarrow> message_type_grammar s \<and> type_str t = s)"
  by (cases t) (auto simp: is_ok_iff message_type_new_iff)

text \<open>An instance of \<open>uuid_api\<close> that keeps its law: an id as 39 decimal digits.\<close>

definition decimal_uuid :: uuid_api where
  "decimal_uuid =
     \<lparr>parse_str = (\<lambda>s. if length s = 39 then map_option of_nat (fold_digits 0 s) else None),
      hyphenated = (\<lambda>u. fixed 39 (unat u))\<rparr>"

lemma decimal_uuid_ok: "uuid_text_ok decimal_uuid"
proof -
  have "unat u mod 10 ^ 39 = unat u" for u :: uuid
    using unsigned_less [of u, where ?'a = nat] by simp
  then show ?thesis by (simp add: uuid_text_ok_def decimal_uuid_def fold_digits_fixed)
qed

end
