(* ===== verification/Envelope.thy ===== *)
theory Envelope
  imports Message Date_Time Ordered_Map
begin

text \<open>
  The envelope (\<open>core/src/envelope.rs\<close>): its checked attribute types, its extensions, and the
  mapping to CloudEvents attributes and back. Attributes are an ordered map from names to values,
  as the \<open>BTreeMap\<close> of the code; \<open>from_attributes\<close> threads it through every \<open>remove\<close>.
\<close>

definition RESERVED :: "string list" where
  "RESERVED =
     [''specversion'', ''id'', ''source'', ''type'', ''time'', ''datacontenttype'', ''subject'',
      ''dataschema'', ''partitionkey'', ''traceparent'', ''tracestate'', ''correlationid'',
      ''causationid'', ''data'']"

definition has_control_or_space :: "string \<Rightarrow> bool" where
  "has_control_or_space value =
     list_ex (\<lambda>c. is_control c \<or> is_whitespace c) (utf8_chars value)"

section \<open>Source and content type\<close>

datatype source = Source (source_str: string)

definition source_new :: "string \<Rightarrow> (envelope_error, source) result" where
  "source_new value =
     (if value = [] \<or> has_control_or_space value
      then Inl (envelope_error_invalid ''source'' ''not a URI reference'')
      else Inr (Source value))"

datatype content_type = ContentType (content_type_str: string)

definition content_type_new :: "string \<Rightarrow> (envelope_error, content_type) result" where
  "content_type_new value =
     (if value = [] \<or> list_ex is_control (utf8_chars value)
      then Inl (envelope_error_invalid ''datacontenttype'' ''not a media type'')
      else Inr (ContentType value))"

section \<open>Correlation and trace\<close>

record correlation =
  correlation_id :: "message_id option"
  causation_id :: "message_id option"

definition correlation_new :: "message_id option \<Rightarrow> message_id option \<Rightarrow> correlation" where
  "correlation_new c p = \<lparr>correlation_id = c, causation_id = p\<rparr>"

record trace_context =
  traceparent :: string
  tracestate :: "string option"

definition trace_context_new :: "string \<Rightarrow> string option \<Rightarrow> trace_context" where
  "trace_context_new p s = \<lparr>traceparent = p, tracestate = s\<rparr>"

section \<open>Extensions\<close>

datatype extensions = Extensions (ext_map: "(string, string) omap")

definition ext_new :: extensions where
  "ext_new = Extensions []"

text \<open>\<open>insert\<close> changes the map in place: the new map comes with the value it returns.\<close>

definition ext_insert ::
    "extensions \<Rightarrow> string \<Rightarrow> string \<Rightarrow> (envelope_error, extensions \<times> string option) result" where
  "ext_insert e name value =
     (if name = [] \<or> \<not> list_all (\<lambda>b. is_lower b \<or> is_digit b) name
      then Inl (envelope_error_invalid name ''not lowercase letters and digits'')
      else if 20 < length name
      then Inl (envelope_error_invalid name ''longer than 20 characters'')
      else if name \<in> set RESERVED
      then Inl (envelope_error_invalid name ''has a field of its own in the envelope'')
      else Inr (Extensions (om_insert name value (ext_map e)), om_get (ext_map e) name))"

definition ext_get :: "extensions \<Rightarrow> string \<Rightarrow> string option" where
  "ext_get e name = om_get (ext_map e) name"

definition ext_remove :: "extensions \<Rightarrow> string \<Rightarrow> extensions \<times> string option" where
  "ext_remove e name = (Extensions (om_remove name (ext_map e)), om_get (ext_map e) name)"

definition ext_iter :: "extensions \<Rightarrow> (string \<times> string) list" where
  "ext_iter e = ext_map e"

definition ext_len :: "extensions \<Rightarrow> nat" where
  "ext_len e = length (ext_map e)"

definition ext_is_empty :: "extensions \<Rightarrow> bool" where
  "ext_is_empty e \<longleftrightarrow> ext_map e = []"

section \<open>The envelope\<close>

record envelope =
  env_id :: message_id
  env_type :: message_type
  env_source :: source
  env_time :: timestamp
  env_subject :: "string option"
  env_content_type :: content_type
  env_data_schema :: "string option"
  env_partition_key :: "string option"
  env_correlation :: correlation
  env_trace :: "trace_context option"
  env_extensions :: extensions
  env_data :: string

text \<open>A new envelope: \<open>new_id\<close> and \<open>now\<close> are what \<open>MessageId::new\<close> and the clock return.\<close>

definition envelope_new ::
    "message_id \<Rightarrow> timestamp \<Rightarrow> message_type \<Rightarrow> source \<Rightarrow> content_type \<Rightarrow> string \<Rightarrow> envelope" where
  "envelope_new new_id now t s c d =
     \<lparr>env_id = new_id, env_type = t, env_source = s, env_time = now, env_subject = None,
      env_content_type = c, env_data_schema = None, env_partition_key = None,
      env_correlation = correlation_new None None, env_trace = None, env_extensions = ext_new,
      env_data = d\<rparr>"

type_synonym attributes = "(string, string) omap"

fun insert_some :: "attributes \<Rightarrow> string \<times> string option \<Rightarrow> attributes" where
  "insert_some m (name, None) = m"
| "insert_some m (name, Some value) = om_insert name value m"

definition to_attributes :: "uuid_api \<Rightarrow> envelope \<Rightarrow> attributes" where
  "to_attributes U e =
     (let required =
        [(''specversion'', ''1.0''),
         (''id'', message_id_text U (env_id e)),
         (''source'', source_str (env_source e)),
         (''type'', type_str (env_type e)),
         (''time'', timestamp_text (env_time e)),
         (''datacontenttype'', content_type_str (env_content_type e))];
          optional =
        [(''subject'', env_subject e),
         (''dataschema'', env_data_schema e),
         (''partitionkey'', env_partition_key e),
         (''correlationid'',
            map_option (message_id_text U) (correlation_id (env_correlation e))),
         (''causationid'', map_option (message_id_text U) (causation_id (env_correlation e))),
         (''traceparent'', map_option traceparent (env_trace e)),
         (''tracestate'', Option.bind (env_trace e) tracestate)];
          attributes = om_collect required;
          attributes = foldl insert_some attributes optional
      in foldl (\<lambda>m (name, value). om_insert name value m) attributes
           (ext_iter (env_extensions e)))"

definition required ::
    "attributes \<Rightarrow> string \<Rightarrow> (envelope_error, string \<times> attributes) result" where
  "required m name =
     ok_or (MissingAttribute name) (map_option (\<lambda>v. (v, om_remove name m)) (om_get m name))"

definition optional_id ::
    "uuid_api \<Rightarrow> attributes \<Rightarrow> string
      \<Rightarrow> (envelope_error, message_id option \<times> attributes) result" where
  "optional_id U m name =
     (case om_get m name of
        None \<Rightarrow> Inr (None, m)
      | Some text \<Rightarrow>
          and_then (map_err (\<lambda>_. envelope_error_invalid name ''not a UUID'')
              (message_id_from_str U text))
            (\<lambda>i. Inr (Some i, om_remove name m)))"

definition from_attributes ::
    "uuid_api \<Rightarrow> attributes \<Rightarrow> string \<Rightarrow> (envelope_error, envelope) result" where
  "from_attributes U attributes data =
     and_then (required attributes ''specversion'') (\<lambda>(version, m).
     if version \<noteq> ''1.0''
     then Inl (envelope_error_invalid ''specversion'' ''only CloudEvents 1.0 is supported'')
     else
     and_then (required m ''id'') (\<lambda>(id_text, m).
     and_then (message_id_from_str U id_text) (\<lambda>i.
     and_then (required m ''source'') (\<lambda>(source_text, m).
     and_then (source_new source_text) (\<lambda>source.
     and_then (required m ''type'') (\<lambda>(type_text, m).
     and_then (message_type_new type_text) (\<lambda>message_type.
     and_then (required m ''time'') (\<lambda>(time_text, m).
     and_then (timestamp_from_str time_text) (\<lambda>time.
     and_then (required m ''datacontenttype'') (\<lambda>(content_text, m).
     and_then (content_type_new content_text) (\<lambda>content_type.
     let subject = om_get m ''subject''; m = om_remove ''subject'' m;
         data_schema = om_get m ''dataschema''; m = om_remove ''dataschema'' m;
         partition_key = om_get m ''partitionkey''; m = om_remove ''partitionkey'' m
     in
     and_then (optional_id U m ''correlationid'') (\<lambda>(correlation, m).
     and_then (optional_id U m ''causationid'') (\<lambda>(causation, m).
     let tracestate = om_get m ''tracestate''; m = om_remove ''tracestate'' m;
         trace = map_option (\<lambda>p. trace_context_new p tracestate) (om_get m ''traceparent'');
         m = om_remove ''traceparent'' m
     in
     and_then (try_fold (\<lambda>e (name, value). and_then (ext_insert e name value) (\<lambda>(e', _). Inr e'))
         ext_new m) (\<lambda>extensions.
     Inr \<lparr>env_id = i, env_type = message_type, env_source = source, env_time = time,
          env_subject = subject, env_content_type = content_type, env_data_schema = data_schema,
          env_partition_key = partition_key,
          env_correlation = correlation_new correlation causation, env_trace = trace,
          env_extensions = extensions, env_data = data\<rparr>))))))))))))))"

section \<open>What a constructed envelope satisfies\<close>

definition ext_name_ok :: "string \<Rightarrow> bool" where
  "ext_name_ok n \<longleftrightarrow> n \<noteq> [] \<and> list_all (\<lambda>b. is_lower b \<or> is_digit b) n \<and> length n \<le> 20
     \<and> n \<notin> set RESERVED"

definition extensions_ok :: "extensions \<Rightarrow> bool" where
  "extensions_ok e \<longleftrightarrow> om_wf (ext_map e) \<and> (\<forall>n \<in> fst ` set (ext_map e). ext_name_ok n)"

definition envelope_ok :: "envelope \<Rightarrow> bool" where
  "envelope_ok e \<longleftrightarrow>
     source_new (source_str (env_source e)) = Inr (env_source e)
     \<and> message_type_ok (env_type e)
     \<and> content_type_new (content_type_str (env_content_type e)) = Inr (env_content_type e)
     \<and> timestamp_ok (env_time e)
     \<and> extensions_ok (env_extensions e)"

section \<open>Lemmas on extensions\<close>

lemma ext_insert_Inr:
  "ext_insert e n v = Inr (e', old) \<longleftrightarrow>
    ext_name_ok n \<and> e' = Extensions (om_insert n v (ext_map e)) \<and> old = ext_get e n"
  unfolding ext_insert_def ext_name_ok_def ext_get_def by auto

lemma ext_insert_ok_iff: "is_ok (ext_insert e n v) \<longleftrightarrow> ext_name_ok n"
  using ext_insert_Inr [of e n v] by (cases "ext_insert e n v") (auto simp: is_ok_iff)

lemma ext_insert_preserves:
  "extensions_ok e \<Longrightarrow> ext_insert e n v = Inr (e', old) \<Longrightarrow> extensions_ok e'"
  using keys_om_insert [of n v "ext_map e"]
  by (auto simp: ext_insert_Inr extensions_ok_def om_wf_insert)

lemma ext_get_insert:
  "ext_insert e n v = Inr (e', old) \<Longrightarrow> ext_get e' k = (if k = n then Some v else ext_get e k)"
  by (auto simp: ext_insert_Inr ext_get_def om_get_insert)

lemma ext_remove_preserves: "extensions_ok e \<Longrightarrow> extensions_ok (fst (ext_remove e n))"
  unfolding extensions_ok_def ext_remove_def
  using om_wf_remove [of "ext_map e" n] by (auto simp: om_remove_def)

lemma extensions_new_ok [simp]: "extensions_ok ext_new"
  by (simp add: extensions_ok_def ext_new_def om.wf_empty)

lemma extensions_not_reserved:
  assumes "extensions_ok e" and "n \<in> set RESERVED"
  shows "om_get (ext_map e) n = None"
proof (rule ccontr)
  assume "om_get (ext_map e) n \<noteq> None"
  then have "n \<in> fst ` set (ext_map e)" by (force simp: om_get_def dest: map_of_SomeD)
  with assms show False by (auto simp: extensions_ok_def ext_name_ok_def)
qed

text \<open>The loop that rebuilds the extensions from the attributes that are left.\<close>

definition ext_collect :: "(string \<times> string) list \<Rightarrow> (envelope_error, extensions) result" where
  "ext_collect m =
     try_fold (\<lambda>e (name, value). and_then (ext_insert e name value) (\<lambda>(e', _). Inr e')) ext_new m"

lemma ext_collect_ok:
  assumes "om_wf m" and "\<forall>n \<in> fst ` set m. ext_name_ok n"
  shows "ext_collect m = Inr (Extensions m)"
proof -
  let ?step = "\<lambda>e (name, value). and_then (ext_insert e name value) (\<lambda>(e', _). Inr e')"
  have "try_fold ?step e kvs
      = Inr (Extensions (foldl (\<lambda>m (k, v). om_insert k v m) (ext_map e) kvs))"
    if "\<forall>n \<in> fst ` set kvs. ext_name_ok n" for e kvs
    using that
  proof (induction kvs arbitrary: e)
    case Nil
    then show ?case by simp
  next
    case (Cons kv kvs)
    obtain k v where kv: "kv = (k, v)" by (cases kv)
    have "ext_insert e k v = Inr (Extensions (om_insert k v (ext_map e)), ext_get e k)"
      using Cons.prems kv by (simp add: ext_insert_Inr)
    then show ?case using Cons kv by simp
  qed
  then show ?thesis
    using assms om.rebuild [OF assms(1)] by (simp add: ext_collect_def ext_new_def)
qed

lemma ext_collect_Inr:
  assumes "om_wf m" and "ext_collect m = Inr e"
  shows "e = Extensions m" and "extensions_ok e"
proof -
  let ?step = "\<lambda>e (name, value). and_then (ext_insert e name value) (\<lambda>(e', _). Inr e')"
  have "\<forall>n \<in> fst ` set kvs. ext_name_ok n" if "try_fold ?step s kvs = Inr e" for s kvs
    using that by (induction kvs arbitrary: s) (auto simp: result_simps ext_insert_Inr)
  then have names: "\<forall>n \<in> fst ` set m. ext_name_ok n"
    using assms(2) by (simp add: ext_collect_def)
  then show "e = Extensions m" using ext_collect_ok [OF assms(1)] assms(2) by simp
  then show "extensions_ok e" using assms(1) names by (simp add: extensions_ok_def)
qed

section \<open>The attributes of an envelope and back\<close>

lemma om_get_insert_some:
  "om_get (insert_some m nv) k =
    (if k = fst nv then (case snd nv of None \<Rightarrow> om_get m k | Some v \<Rightarrow> Some v) else om_get m k)"
  by (cases "(m, nv)" rule: insert_some.cases) (auto simp: om_get_insert)

lemma om_wf_insert_some: "om_wf m \<Longrightarrow> om_wf (insert_some m nv)"
  by (cases "(m, nv)" rule: insert_some.cases) (auto simp: om_wf_insert)

text \<open>The attribute CloudEvents calls \<open>k\<close>, for the names of the specification.\<close>

definition standard_attributes :: "uuid_api \<Rightarrow> envelope \<Rightarrow> (string \<times> string option) list" where
  "standard_attributes U e =
     [(''specversion'', Some ''1.0''),
      (''id'', Some (message_id_text U (env_id e))),
      (''source'', Some (source_str (env_source e))),
      (''type'', Some (type_str (env_type e))),
      (''time'', Some (timestamp_text (env_time e))),
      (''datacontenttype'', Some (content_type_str (env_content_type e))),
      (''subject'', env_subject e),
      (''dataschema'', env_data_schema e),
      (''partitionkey'', env_partition_key e),
      (''correlationid'', map_option (message_id_text U) (correlation_id (env_correlation e))),
      (''causationid'', map_option (message_id_text U) (causation_id (env_correlation e))),
      (''traceparent'', map_option traceparent (env_trace e)),
      (''tracestate'', Option.bind (env_trace e) tracestate)]"

definition standard_attribute :: "uuid_api \<Rightarrow> envelope \<Rightarrow> string \<Rightarrow> string option" where
  "standard_attribute U e k = Option.bind (map_of (standard_attributes U e) k) (\<lambda>v. v)"

lemma foldl_insert_some:
  "distinct (map fst kvs) \<Longrightarrow> om_wf m \<Longrightarrow> om_wf (foldl insert_some m kvs) \<and>
    om_get (foldl insert_some m kvs) k =
      (case Option.bind (map_of kvs k) (\<lambda>v. v) of None \<Rightarrow> om_get m k | Some v \<Rightarrow> Some v)"
proof (induction kvs arbitrary: m)
  case Nil
  then show ?case by simp
next
  case (Cons kv kvs)
  have "map_of kvs (fst kv) = None"
    using Cons.prems(1) by (simp add: map_of_eq_None_iff)
  then show ?case
    using Cons.IH [of "insert_some m kv"] Cons.prems
    by (auto simp: om_wf_insert_some om_get_insert_some split: option.splits)
qed

lemma to_attributes_get:
  assumes "extensions_ok (env_extensions e)"
  shows "om_wf (to_attributes U e)"
    and "om_get (to_attributes U e) k =
      (case ext_get (env_extensions e) k of
         Some v \<Rightarrow> Some v | None \<Rightarrow> standard_attribute U e k)"
proof -
  let ?req = "[(''specversion'', ''1.0''), (''id'', message_id_text U (env_id e)),
      (''source'', source_str (env_source e)), (''type'', type_str (env_type e)),
      (''time'', timestamp_text (env_time e)),
      (''datacontenttype'', content_type_str (env_content_type e))]"
  let ?opt = "[(''subject'', env_subject e), (''dataschema'', env_data_schema e),
      (''partitionkey'', env_partition_key e),
      (''correlationid'', map_option (message_id_text U) (correlation_id (env_correlation e))),
      (''causationid'', map_option (message_id_text U) (causation_id (env_correlation e))),
      (''traceparent'', map_option traceparent (env_trace e)),
      (''tracestate'', Option.bind (env_trace e) tracestate)]"
  let ?m = "foldl insert_some (om_collect ?req) ?opt"
  let ?x = "ext_map (env_extensions e)"
  have shape: "to_attributes U e = foldl (\<lambda>m (name, value). om_insert name value m) ?m ?x"
    by (simp only: to_attributes_def Let_def ext_iter_def)
  have x: "om_wf ?x" using assms by (simp add: extensions_ok_def)
  have d: "distinct (map fst ?opt)" "distinct (map fst ?req)" by simp_all
  note opt = foldl_insert_some [OF d(1) om_collect_wf [of ?req]]
  have split: "standard_attributes U e = map (\<lambda>(k, v). (k, Some v)) ?req @ ?opt"
    by (simp add: standard_attributes_def)
  have req: "map_of (map (\<lambda>(k, v). (k, Some v)) kvs) k = map_option Some (map_of kvs k)"
    for kvs :: "(string \<times> string) list"
    by (induction kvs) auto
  have disj: "map_of ?req k = None \<or> map_of ?opt k = None" by simp
  have m: "om_get ?m k = standard_attribute U e k"
    unfolding opt [THEN conjunct2] om_get_collect [OF d(2)] standard_attribute_def split map_of_append
      map_add_def req
    using disj by (auto split: option.splits)
  note f = om.fold_insert [OF opt [THEN conjunct1] om.distinct_entries [OF x]]
  show "om_wf (to_attributes U e)" unfolding shape using f by blast
  show "om_get (to_attributes U e) k =
      (case ext_get (env_extensions e) k of
         Some v \<Rightarrow> Some v | None \<Rightarrow> standard_attribute U e k)"
    unfolding shape using f [THEN conjunct2, THEN spec, of k] m
    by (simp add: ext_get_def om_get_def split: option.splits)
qed

lemma required_get:
  "om_get m n = Some v \<Longrightarrow> required m n = Inr (v, om_remove n m)"
  by (simp add: required_def)

lemma optional_id_get:
  assumes "uuid_text_ok U" and "om_wf m" and "om_get m n = map_option (message_id_text U) c"
  shows "optional_id U m n = Inr (c, om_remove n m)"
  using assms om.remove_absent [OF assms(2), of n]
  by (cases c) (simp_all add: optional_id_def message_id_round_trip)

lemma om_remove_commute: "om_remove a (om_remove b m) = om_remove b (om_remove a m)"
  unfolding om_remove_def by (simp add: conj_commute case_prod_beta)

text \<open>What is left of the attributes when the standard ones are removed are the extensions.\<close>

lemma remaining_attributes:
  assumes x: "extensions_ok (env_extensions e)"
  shows "foldl (\<lambda>m k. om_remove k m) (to_attributes U e) (map fst (standard_attributes U e))
    = ext_map (env_extensions e)" (is "?rest = _")
proof -
  let ?m = "to_attributes U e"
  have none: "ext_get (env_extensions e) k = None" if "k \<in> set RESERVED" for k
    using extensions_not_reserved [OF x that] by (simp add: ext_get_def)
  have rest_wf: "om_wf ?rest"
    unfolding standard_attributes_def by (simp add: om_wf_remove to_attributes_get(1) [OF x])
  have "om_get ?rest k = om_get (ext_map (env_extensions e)) k" for k
  proof -
    have "om_get ?rest k =
        (if k \<in> set (map fst (standard_attributes U e)) then None else om_get ?m k)"
      unfolding standard_attributes_def by (simp add: om_get_remove)
    moreover have "standard_attribute U e k = None"
      if "k \<notin> set (map fst (standard_attributes U e))"
    proof -
      have "map_of (standard_attributes U e) k = None"
        using that by (simp add: map_of_eq_None_iff)
      then show ?thesis by (simp add: standard_attribute_def)
    qed
    moreover have "set (map fst (standard_attributes U e)) \<subseteq> set RESERVED"
      by (simp add: standard_attributes_def RESERVED_def)
    ultimately show ?thesis
      using none [of k] to_attributes_get(2) [OF x, of U k]
      by (auto simp: ext_get_def split: option.splits)
  qed
  then show ?thesis
    by (intro om.ext rest_wf) (use x in \<open>simp_all add: extensions_ok_def\<close>)
qed

lemma attributes_round_trip:
  assumes "uuid_text_ok U" and "envelope_ok e"
  shows "from_attributes U (to_attributes U e) (env_data e) = Inr e"
proof -
  let ?m = "to_attributes U e"
  have x: "extensions_ok (env_extensions e)"
    and s: "source_new (source_str (env_source e)) = Inr (env_source e)"
    and t: "message_type_new (type_str (env_type e)) = Inr (env_type e)"
    and c: "content_type_new (content_type_str (env_content_type e)) = Inr (env_content_type e)"
    and tm: "timestamp_ok (env_time e)"
    using assms(2) by (simp_all add: envelope_ok_def message_type_ok_def)
  have none: "ext_get (env_extensions e) k = None" if "k \<in> set RESERVED" for k
    using extensions_not_reserved [OF x that] by (simp add: ext_get_def)
  have g: "om_get ?m k = standard_attribute U e k" if "k \<in> set RESERVED" for k
    using to_attributes_get(2) [OF x] none [OF that] by simp
  have wf: "om_wf ?m" by (rule to_attributes_get(1) [OF x])
  note getk = g [unfolded RESERVED_def standard_attribute_def standard_attributes_def]
  have ext: "ext_collect (foldl (\<lambda>m k. om_remove k m) ?m (map fst (standard_attributes U e)))
      = Inr (env_extensions e)"
    using x ext_collect_ok unfolding remaining_attributes [OF x] extensions_ok_def by simp
  have trace: "map_option (\<lambda>p. trace_context_new p (Option.bind (env_trace e) tracestate))
      (map_option traceparent (env_trace e)) = env_trace e"
    by (cases "env_trace e") (simp_all add: trace_context_new_def)
  have cor: "correlation_new (correlation_id (env_correlation e)) (causation_id (env_correlation e))
      = env_correlation e"
    by (simp add: correlation_new_def)
  note ids = optional_id_get [OF assms(1)]
  show ?thesis
    using ext [unfolded standard_attributes_def ext_collect_def]
    by (simp add: from_attributes_def om_remove_commute [of "''tracestate''"] required_get ids om_get_remove om_wf_remove wf getk trace cor
        message_id_round_trip [OF assms(1)] s t c timestamp_from_str_def parse_timestamp_text [OF tm])
qed

lemma required_Inr [result_simps]:
  "required m n = Inr (v, m') \<longleftrightarrow> om_get m n = Some v \<and> m' = om_remove n m"
  by (auto simp: required_def result_simps)

lemma required_Inl [result_simps]:
  "required m n = Inl x \<longleftrightarrow> om_get m n = None \<and> x = MissingAttribute n"
  by (auto simp: required_def result_simps)

lemma optional_id_Inr:
  assumes "om_wf m"
  shows "optional_id U m n = Inr (c, m') \<longleftrightarrow> m' = om_remove n m
    \<and> c = Option.bind (om_get m n) (\<lambda>t. map_option MessageId (parse_str U t))
    \<and> (c = None \<longleftrightarrow> om_get m n = None)"
  using assms om.remove_absent [OF assms(1), of n]
  by (cases "om_get m n"; cases "parse_str U (the (om_get m n))")
    (auto simp: optional_id_def result_simps message_id_from_str_def)

lemma source_new_Inr: "source_new v = Inr s \<Longrightarrow> s = Source v"
  by (auto simp: source_new_def split: if_splits)

lemma content_type_new_Inr: "content_type_new v = Inr c \<Longrightarrow> c = ContentType v"
  by (auto simp: content_type_new_def split: if_splits)

lemma message_id_parsed: "parse_str U text = Some u \<Longrightarrow> message_id_from_str U text = Inr (MessageId u)"
  by (simp add: message_id_from_str_def ok_or_def)

text \<open>Everything \<open>from_attributes\<close> has read when it returns an envelope.\<close>

lemma from_attributes_fields:
  assumes "om_wf m" and "from_attributes U m d = Inr e"
  obtains rest idt tt where
    "om_get m ''specversion'' = Some ''1.0''"
    "om_get m ''id'' = Some idt" "message_id_from_str U idt = Inr (env_id e)"
    "om_get m ''source'' = Some (source_str (env_source e))"
    "source_new (source_str (env_source e)) = Inr (env_source e)"
    "om_get m ''type'' = Some (type_str (env_type e))"
    "message_type_new (type_str (env_type e)) = Inr (env_type e)"
    "om_get m ''time'' = Some tt" "timestamp_from_str tt = Inr (env_time e)"
    "om_get m ''datacontenttype'' = Some (content_type_str (env_content_type e))"
    "content_type_new (content_type_str (env_content_type e)) = Inr (env_content_type e)"
    "env_subject e = om_get m ''subject''" "env_data_schema e = om_get m ''dataschema''"
    "env_partition_key e = om_get m ''partitionkey''"
    "env_trace e = map_option (\<lambda>p. trace_context_new p (om_get m ''tracestate''))
       (om_get m ''traceparent'')"
    "rest = foldl (\<lambda>m k. om_remove k m) m (map fst (standard_attributes U e))"
    "map_option (message_id_from_str U) (om_get m ''correlationid'') = map_option Inr (correlation_id (env_correlation e))"
    "map_option (message_id_from_str U) (om_get m ''causationid'') = map_option Inr (causation_id (env_correlation e))"
    "ext_collect rest = Inr (env_extensions e)" "env_data e = d"
proof -
  note steps = source_new_Inr content_type_new_Inr
  have rm: "om_wf (om_remove k m')" if "om_wf m'" for k :: string and m' :: attributes
    using that by (rule om_wf_remove)
  from assms(2) show thesis
    unfolding from_attributes_def Let_def ext_collect_def [symmetric]
    by (clarsimp simp: result_simps assms(1) rm optional_id_Inr om_get_remove split: if_splits)
      (frule source_new_Inr, frule content_type_new_Inr, rule that,
        auto simp: message_id_parsed message_type_new_iff standard_attributes_def correlation_new_def
        om_remove_commute [of "''tracestate''"])
qed

lemma standard_names:
  "map fst (standard_attributes U e) =
     [''specversion'', ''id'', ''source'', ''type'', ''time'', ''datacontenttype'', ''subject'',
      ''dataschema'', ''partitionkey'', ''correlationid'', ''causationid'', ''traceparent'',
      ''tracestate'']"
  by (simp add: standard_attributes_def)

lemma om_get_removes:
  "om_get (foldl (\<lambda>m k. om_remove k m) m ks) k = (if k \<in> set ks then None else om_get m k)"
  by (induction ks arbitrary: m) (auto simp: om_get_remove)

lemma om_wf_removes: "om_wf m \<Longrightarrow> om_wf (foldl (\<lambda>m k. om_remove k m) m ks)"
  by (induction ks arbitrary: m) (auto simp: om_wf_remove)

lemma from_attributes_ok:
  assumes "om_wf m" and "from_attributes U m d = Inr e"
  shows "envelope_ok e"
proof (rule from_attributes_fields [OF assms])
  fix rest tt
  assume t: "timestamp_from_str tt = Inr (env_time e)"
    and r: "rest = foldl (\<lambda>m k. om_remove k m) m (map fst (standard_attributes U e))"
      "ext_collect rest = Inr (env_extensions e)"
    and s: "source_new (source_str (env_source e)) = Inr (env_source e)"
      "message_type_new (type_str (env_type e)) = Inr (env_type e)"
      "content_type_new (content_type_str (env_content_type e)) = Inr (env_content_type e)"
  have "timestamp_ok (env_time e)"
    using t parse_ok by (auto simp: timestamp_from_str_def result_simps)
  moreover have "extensions_ok (env_extensions e)"
    by (rule ext_collect_Inr(2) [OF _ r(2)]) (simp add: r(1) om_wf_removes assms(1))
  ultimately show "envelope_ok e"
    using s by (simp add: envelope_ok_def message_type_ok_def)
qed

text \<open>Every attribute that is not parsed to a value of another type is kept as it is.\<close>

lemma from_attributes_keeps:
  assumes "om_wf m" and "from_attributes U m d = Inr e"
    and "k \<notin> {''id'', ''time'', ''correlationid'', ''causationid''}"
    and "k = ''tracestate'' \<Longrightarrow> om_get m ''traceparent'' \<noteq> None"
  shows "om_get (to_attributes U e) k = om_get m k"
proof (rule from_attributes_fields [OF assms(1,2)])
  fix rest
  assume r: "rest = foldl (\<lambda>m k. om_remove k m) m (map fst (standard_attributes U e))"
      "ext_collect rest = Inr (env_extensions e)"
    and f: "om_get m ''specversion'' = Some ''1.0''"
      "om_get m ''source'' = Some (source_str (env_source e))"
      "om_get m ''type'' = Some (type_str (env_type e))"
      "om_get m ''datacontenttype'' = Some (content_type_str (env_content_type e))"
      "env_subject e = om_get m ''subject''" "env_data_schema e = om_get m ''dataschema''"
      "env_partition_key e = om_get m ''partitionkey''"
      "env_trace e = map_option (\<lambda>p. trace_context_new p (om_get m ''tracestate''))
       (om_get m ''traceparent'')"
  have wf: "om_wf rest" using assms(1) by (simp add: r(1) om_wf_removes)
  note x = ext_collect_Inr [OF wf r(2)]
  have g: "om_get (to_attributes U e) k =
      (case om_get rest k of Some v \<Rightarrow> Some v | None \<Rightarrow> standard_attribute U e k)"
    using to_attributes_get(2) [OF x(2)] by (simp add: ext_get_def x(1))
  show "om_get (to_attributes U e) k = om_get m k"
  proof (cases "k \<in> set (map fst (standard_attributes U e))")
    case True
    then have "om_get rest k = None" by (simp add: r(1) om_get_removes)
    moreover have "standard_attribute U e k = om_get m k"
    proof -
      have st: "Option.bind (env_trace e) tracestate = om_get m ''tracestate''"
        if "k = ''tracestate''"
        using assms(4) [OF that] f(8) by (auto simp: trace_context_new_def)
      have tp: "map_option traceparent (env_trace e) = om_get m ''traceparent''"
        using f(8) by (cases "om_get m ''traceparent''") (auto simp: trace_context_new_def)
      have "k \<in> {''specversion'', ''source'', ''type'', ''datacontenttype'', ''subject'',
          ''dataschema'', ''partitionkey'', ''traceparent'', ''tracestate''}"
        using True [unfolded standard_names] assms(3) by (simp; blast)
      then show ?thesis
        unfolding insert_iff empty_iff standard_attribute_def standard_attributes_def
        by (elim disjE FalseE) (simp_all add: f(1-7) tp st)
    qed
    ultimately show ?thesis using g by simp
  next
    case False
    then have "standard_attribute U e k = None"
    proof -
      have "map_of (standard_attributes U e) k = None"
        using False by (simp add: map_of_eq_None_iff)
      then show ?thesis by (simp add: standard_attribute_def)
    qed
    then show ?thesis using g False by (simp add: r(1) om_get_removes split: option.splits)
  qed
qed

text \<open>The trace state goes with its parent: alone it is dropped.\<close>

lemma from_attributes_trace:
  assumes "om_wf m" and "from_attributes U m d = Inr e"
  shows "env_trace e = None \<longleftrightarrow> om_get m ''traceparent'' = None"
  by (rule from_attributes_fields [OF assms]) simp

lemma from_attributes_missing:
  assumes "om_wf m" and "om_get m k = None"
    and "k \<in> {''specversion'', ''id'', ''source'', ''type'', ''time'', ''datacontenttype''}"
  shows "\<not> is_ok (from_attributes U m d)"
proof
  assume "is_ok (from_attributes U m d)"
  then obtain e where "from_attributes U m d = Inr e" by (auto simp: is_ok_iff)
  then show False
    by (rule from_attributes_fields [OF assms(1)]) (use assms(2,3) in auto)
qed

lemma to_attributes_standard:
  assumes "extensions_ok (env_extensions e)" and "k \<in> set RESERVED"
  shows "om_get (to_attributes U e) k = standard_attribute U e k"
  using to_attributes_get(2) [OF assms(1)] extensions_not_reserved [OF assms]
  by (simp add: ext_get_def)

lemma from_attributes_without:
  assumes "uuid_text_ok U" and "envelope_ok e"
    and "k \<in> {''specversion'', ''id'', ''source'', ''type'', ''time'', ''datacontenttype''}"
  shows "from_attributes U (om_remove k (to_attributes U e)) d = Inl (MissingAttribute k)"
proof -
  have s: "extensions_ok (env_extensions e)"
    "source_new (source_str (env_source e)) = Inr (env_source e)"
    "message_type_new (type_str (env_type e)) = Inr (env_type e)"
    "content_type_new (content_type_str (env_content_type e)) = Inr (env_content_type e)"
    "timestamp_ok (env_time e)"
    using assms(2) by (simp_all add: envelope_ok_def message_type_ok_def)
  note g = to_attributes_standard [OF s(1), unfolded RESERVED_def standard_attribute_def
      standard_attributes_def]
  show ?thesis
    using assms(3) unfolding insert_iff empty_iff
    by (elim disjE FalseE)
      (simp_all add: from_attributes_def required_def om_get_remove g message_id_round_trip
        [OF assms(1)] s(2-4) timestamp_from_str_def parse_timestamp_text [OF s(5)] ok_or_def)
qed

lemma from_attributes_version:
  assumes "om_get m ''specversion'' = Some v" and "v \<noteq> ''1.0''"
  shows "from_attributes U m d
    = Inl (envelope_error_invalid ''specversion'' ''only CloudEvents 1.0 is supported'')"
  using assms by (simp add: from_attributes_def required_get)

section \<open>Properties\<close>

text \<open>An envelope of an application, with the optional attributes set.\<close>

definition order_placed :: envelope where
  "order_placed =
     \<lparr>env_id = MessageId 7, env_type = MessageType ''order.placed.v1'',
      env_source = Source ''shop'', env_time = Timestamp 1709245800 250000000,
      env_subject = Some ''order/1'', env_content_type = ContentType ''application/json'',
      env_data_schema = None, env_partition_key = Some ''1'',
      env_correlation = correlation_new (Some (MessageId 7)) None,
      env_trace = Some (trace_context_new ''00-1-2-01'' None),
      env_extensions = Extensions [(''tenant'', ''a'')], env_data = ''{}''\<rparr>"

lemma order_placed_ok: "envelope_ok order_placed"
proof -
  have "source_new ''shop'' = Inr (Source ''shop'')"
    by (simp add: source_new_def has_control_or_space_def utf8_chars_ascii is_ascii_def is_control_def
        is_whitespace_def)
  moreover have "content_type_new ''application/json'' = Inr (ContentType ''application/json'')"
    by (simp add: content_type_new_def utf8_chars_ascii is_ascii_def is_control_def)
  moreover have "message_type_ok (MessageType ''order.placed.v1'')"
    by (simp add: message_type_ok_def message_type_new_def check_message_type_def
        MAX_MESSAGE_TYPE_LENGTH_def allowed_byte_def is_lower_def is_digit_def)
  moreover have "timestamp_ok (Timestamp 1709245800 250000000)" by code_simp
  moreover have "extensions_ok (Extensions [(''tenant'', ''a'')])"
    by (simp add: extensions_ok_def ext_name_ok_def om_wf_def is_lower_def RESERVED_def)
  ultimately show ?thesis by (simp add: envelope_ok_def order_placed_def)
qed

lemmas sample_ok = decimal_uuid_ok order_placed_ok

text \<open>
  C13: writing a valid envelope as CloudEvents attributes and reading them back with the same data
  gives the envelope itself, whatever optional attributes and extensions it carries.
\<close>

theorem envelope_round_trip:
  assumes "uuid_text_ok U" and "envelope_ok e"
  shows "from_attributes U (to_attributes U e) (env_data e) = Inr e"
  using assms by (rule attributes_round_trip)

theorem envelope_round_trip_witness:
  "from_attributes decimal_uuid (to_attributes decimal_uuid order_placed) ''{}'' = Inr order_placed"
  using envelope_round_trip [OF sample_ok] by (simp add: order_placed_def)

text \<open>
  C28: an envelope read from any attributes is valid (its type, source, content type, time and
  extension names pass their constructors), and keeps what it was read from: its data; the ids and
  the time that the texts of its attributes stand for, the correlation and the causation when they
  were given and only then; and every other attribute and extension as it was, but for a trace state
  without a parent, which is dropped.
\<close>

theorem envelope_reading_sound:
  assumes "om_wf m" and "from_attributes U m d = Inr e"
  shows "envelope_ok e \<and> env_data e = d
    \<and> (\<exists>text. om_get m ''id'' = Some text \<and> message_id_from_str U text = Inr (env_id e))
    \<and> (\<exists>text. om_get m ''time'' = Some text \<and> timestamp_from_str text = Inr (env_time e))
    \<and> map_option (message_id_from_str U) (om_get m ''correlationid'')
        = map_option Inr (correlation_id (env_correlation e))
    \<and> map_option (message_id_from_str U) (om_get m ''causationid'')
        = map_option Inr (causation_id (env_correlation e))
    \<and> (env_trace e = None \<longleftrightarrow> om_get m ''traceparent'' = None)
    \<and> (\<forall>k. k \<notin> {''id'', ''time'', ''correlationid'', ''causationid''} \<longrightarrow>
         (k = ''tracestate'' \<longrightarrow> om_get m ''traceparent'' \<noteq> None) \<longrightarrow>
         om_get (to_attributes U e) k = om_get m k)"
proof (intro conjI allI impI)
  show "env_data e = d" by (rule from_attributes_fields [OF assms])
  show "\<exists>text. om_get m ''id'' = Some text \<and> message_id_from_str U text = Inr (env_id e)"
    by (rule from_attributes_fields [OF assms]) blast
  show "\<exists>text. om_get m ''time'' = Some text \<and> timestamp_from_str text = Inr (env_time e)"
    by (rule from_attributes_fields [OF assms]) blast
  show "map_option (message_id_from_str U) (om_get m ''correlationid'')
      = map_option Inr (correlation_id (env_correlation e))"
    by (rule from_attributes_fields [OF assms])
  show "map_option (message_id_from_str U) (om_get m ''causationid'')
      = map_option Inr (causation_id (env_correlation e))"
    by (rule from_attributes_fields [OF assms])
  show "envelope_ok e" by (rule from_attributes_ok [OF assms])
  show "env_trace e = None \<longleftrightarrow> om_get m ''traceparent'' = None"
    by (rule from_attributes_trace [OF assms])
  fix k
  assume "k \<notin> {''id'', ''time'', ''correlationid'', ''causationid''}"
    and "k = ''tracestate'' \<longrightarrow> om_get m ''traceparent'' \<noteq> None"
  then show "om_get (to_attributes U e) k = om_get m k"
    by (intro from_attributes_keeps [OF assms]) simp_all
qed

theorem envelope_reading_sound_witness:
  "\<exists>m. om_wf m \<and> from_attributes decimal_uuid m ''{}'' = Inr order_placed
    \<and> map_option (message_id_from_str decimal_uuid) (om_get m ''correlationid'')
        = map_option Inr (correlation_id (env_correlation order_placed))
    \<and> om_get (to_attributes decimal_uuid order_placed) ''tenant'' = om_get m ''tenant''"
proof -
  let ?m = "to_attributes decimal_uuid order_placed"
  have wf: "om_wf ?m"
    using order_placed_ok by (simp add: envelope_ok_def to_attributes_get)
  have r: "from_attributes decimal_uuid ?m ''{}'' = Inr order_placed"
    using attributes_round_trip [OF sample_ok] by (simp add: order_placed_def)
  show ?thesis using envelope_reading_sound [OF wf r] wf r by (intro exI [of _ ?m]) simp
qed

text \<open>
  Of the attributes of a valid envelope, dropping a required one makes reading fail with the
  error that names it, and another \<open>specversion\<close> than 1.0 is refused.
\<close>

lemma envelope_reading_errors:
  assumes "uuid_text_ok U" and "envelope_ok e"
    and "k \<in> {''specversion'', ''id'', ''source'', ''type'', ''time'', ''datacontenttype''}"
    and "v \<noteq> ''1.0''"
  shows "from_attributes U (om_remove k (to_attributes U e)) d = Inl (MissingAttribute k)
    \<and> from_attributes U (om_insert ''specversion'' v (to_attributes U e)) d
        = Inl (envelope_error_invalid ''specversion'' ''only CloudEvents 1.0 is supported'')"
  using from_attributes_without [OF assms(1-3)] from_attributes_version [OF _ assms(4)]
  by (simp add: om_get_insert)

lemma envelope_reading_errors_example:
  "from_attributes decimal_uuid (om_remove ''time'' (to_attributes decimal_uuid order_placed)) ''x''
     = Inl (MissingAttribute ''time'')"
  using envelope_reading_errors [OF sample_ok, of "''time''" "''0.3''" "''x''"] by simp

text \<open>
  \<open>Extensions::insert\<close> accepts a name exactly when it is 1 to 20 lowercase letters and digits
  and not a reserved attribute; then it returns the old value, changes that name only and keeps
  the map valid, and removing the name afterwards forgets it.
\<close>

lemma extensions_insert_exact:
  assumes "extensions_ok e"
  shows "(is_ok (ext_insert e n v) \<longleftrightarrow> ext_name_ok n)
    \<and> (\<forall>e' old. ext_insert e n v = Inr (e', old) \<longrightarrow>
         extensions_ok e' \<and> old = ext_get e n
         \<and> (\<forall>k. ext_get e' k = (if k = n then Some v else ext_get e k))
         \<and> ext_get (fst (ext_remove e' n)) n = None \<and> extensions_ok (fst (ext_remove e' n)))"
proof (intro conjI allI impI)
  show "is_ok (ext_insert e n v) \<longleftrightarrow> ext_name_ok n" by (rule ext_insert_ok_iff)
  fix e' old k assume i: "ext_insert e n v = Inr (e', old)"
  show ok: "extensions_ok e'" by (rule ext_insert_preserves [OF assms i])
  show "old = ext_get e n" using i by (simp add: ext_insert_Inr)
  show "ext_get e' k = (if k = n then Some v else ext_get e k)" by (rule ext_get_insert [OF i])
  show "ext_get (fst (ext_remove e' n)) n = None"
    by (simp add: ext_remove_def ext_get_def om_get_remove)
  show "extensions_ok (fst (ext_remove e' n))" by (rule ext_remove_preserves [OF ok])
qed

lemma extensions_insert_exact_example:
  "is_ok (ext_insert ext_new ''tenant'' ''a'') \<and> \<not> is_ok (ext_insert ext_new ''subject'' ''a'')"
  using extensions_insert_exact [OF extensions_new_ok, of "''tenant''" "''a''"]
    extensions_insert_exact [OF extensions_new_ok, of "''subject''" "''a''"]
  by (simp add: ext_name_ok_def is_lower_def RESERVED_def)

end
