(* ===== verification/Codec.thy ===== *)
theory Codec
  imports Envelope
begin

text \<open>
  Codecs (\<open>core/src/codec.rs\<close>). A message type of the application is a record: its \<open>TYPE\<close> and what
  \<open>serde_json\<close> does with it, which is not under \<open>src/\<close>. The JSON codec is built on those fields;
  \<open>serde_ok\<close> is the round trip a message's \<open>Serialize\<close> and \<open>Deserialize\<close> promise.
\<close>

definition essence :: "string \<Rightarrow> string" where
  "essence content_type = str_trim (hd (split_on (CHR '';'') content_type))"

datatype codec_error =
    Encode string string string   \<comment> \<open>message type, content type, reason\<close>
  | Decode string string string

definition codec_error_text :: "codec_error \<Rightarrow> string" where
  "codec_error_text e =
     (case e of
        Encode t c r \<Rightarrow> ''could not encode '' @ t @ '' as '' @ c @ '': '' @ r
      | Decode t c r \<Rightarrow> ''could not decode '' @ t @ '' from '' @ c @ '': '' @ r)"

text \<open>The default method of the trait; \<open>own\<close> is the codec's \<open>content_type()\<close>.\<close>

definition can_decode :: "string \<Rightarrow> content_type \<Rightarrow> bool" where
  "can_decode own content_type \<longleftrightarrow>
     eq_ignore_ascii_case (essence (content_type_str content_type)) own"

section \<open>The JSON codec\<close>

datatype json_category = JsonIo | JsonSyntax | JsonData | JsonEof

record json_error =
  json_category :: json_category
  json_line :: nat
  json_column :: nat
  json_quote :: string   \<comment> \<open>serde's own text, which can quote the data\<close>

record 'm message_impl =
  msg_type :: string
  to_vec :: "'m \<Rightarrow> (string, string) result"
  from_slice :: "string \<Rightarrow> (json_error, 'm) result"

definition serde_ok :: "'m message_impl \<Rightarrow> bool" where
  "serde_ok M \<longleftrightarrow> (\<forall>m b. to_vec M m = Inr b \<longrightarrow> from_slice M b = Inr m)"

definition json_content_type :: string where
  "json_content_type = ''application/json''"

definition json_encode :: "'m message_impl \<Rightarrow> 'm \<Rightarrow> (codec_error, string) result" where
  "json_encode M message = map_err (Encode (msg_type M) json_content_type) (to_vec M message)"

definition json_error_reason :: "json_error \<Rightarrow> string" where
  "json_error_reason error =
     (let what =
        (case json_category error of
           JsonIo \<Rightarrow> ''invalid JSON''
         | JsonSyntax \<Rightarrow> ''invalid JSON''
         | JsonData \<Rightarrow> ''JSON that doesn't match the message''
         | JsonEof \<Rightarrow> ''JSON that ends early'')
      in what @ '' at line '' @ dec (json_line error) @ '', column '' @ dec (json_column error))"

definition json_decode :: "'m message_impl \<Rightarrow> string \<Rightarrow> (codec_error, 'm) result" where
  "json_decode M data =
     map_err (\<lambda>error. Decode (msg_type M) json_content_type (json_error_reason error))
       (from_slice M data)"

section \<open>Lemmas\<close>

lemma json_round_trip:
  "serde_ok M \<Longrightarrow> json_encode M m = Inr b \<Longrightarrow> json_decode M b = Inr m"
  by (auto simp: json_encode_def json_decode_def serde_ok_def result_simps)

text \<open>The text of a decode error does not depend on what serde quotes from the data.\<close>

lemma json_decode_quotes_nothing:
  assumes "json_decode M d = Inl x" and "json_decode M' d' = Inl y"
    and "from_slice M d = Inl e" and "from_slice M' d' = Inl (e\<lparr>json_quote := q\<rparr>)"
    and "msg_type M = msg_type M'"
  shows "x = y"
  using assms by (auto simp: json_decode_def json_error_reason_def)

lemma essence_params:
  assumes "CHR '';'' \<notin> set m"
  shows "essence (m @ CHR '';'' # params) = essence m"
  using assms by (simp add: essence_def split_on_append split_on_none)

lemma eq_ignore_ascii_case_append:
  "length s = length s' \<Longrightarrow> eq_ignore_ascii_case (s @ t) (s' @ t')
    \<longleftrightarrow> eq_ignore_ascii_case s s' \<and> eq_ignore_ascii_case t t'"
  by (simp add: eq_ignore_ascii_case_def)

lemma to_lower_same_byte:
  "to_lower a = to_lower b \<Longrightarrow> is_lower b \<or> b = CHR ''/'' \<Longrightarrow>
    is_ascii a \<and> a \<noteq> CHR '';'' \<and> \<not> is_whitespace (byte a)"
proof -
  assume eq: "to_lower a = to_lower b" and b: "is_lower b \<or> b = CHR ''/''"
  have l: "to_lower b = b" using b by (auto simp: to_lower_def ascii_simps)
  show ?thesis
  proof (cases "is_upper a")
    case True
    then show ?thesis by (auto simp: ascii_simps is_whitespace_def)
  next
    case False
    then have "a = b" using eq l by (simp add: to_lower_def)
    then show ?thesis using b by (auto simp: ascii_simps is_whitespace_def)
  qed
qed

text \<open>Any spelling of the codec's media type, with or without parameters, is accepted.\<close>

lemma json_can_decode:
  assumes "eq_ignore_ascii_case s json_content_type"
  shows "can_decode json_content_type (ContentType s)"
    and "can_decode json_content_type (ContentType (s @ CHR '';'' # params))"
proof -
  have bytes: "is_ascii a \<and> a \<noteq> CHR '';'' \<and> \<not> is_whitespace (byte a)" if "a \<in> set s" for a
  proof -
    have "to_lower a \<in> set (map to_lower json_content_type)"
      using assms that unfolding eq_ignore_ascii_case_def by (metis image_eqI image_set)
    then obtain b where "b \<in> set json_content_type" "to_lower a = to_lower b" by auto
    moreover have "is_lower b \<or> b = CHR ''/''" if "b \<in> set json_content_type" for b
      using that by (auto simp: json_content_type_def ascii_simps)
    ultimately show ?thesis using to_lower_same_byte by blast
  qed
  then have no: "CHR '';'' \<notin> set s" by blast
  have "essence s = s"
    using no bytes str_trim_ascii [of s] by (simp add: essence_def split_on_none list_all_iff)
  then show "can_decode json_content_type (ContentType s)"
    and "can_decode json_content_type (ContentType (s @ CHR '';'' # params))"
    using assms no by (simp_all add: can_decode_def essence_params)
qed

section \<open>Properties\<close>

text \<open>
  The JSON codec takes exactly the media type \<open>application/json\<close>, in any letter case: a content
  type with another name is refused, and parameters after a \<open>;\<close> don't matter.
\<close>

lemma json_media_type_exact:
  assumes "list_all is_ascii s" and "\<forall>c \<in> set s. c \<noteq> CHR '';'' \<and> \<not> is_whitespace (byte c)"
  shows "(can_decode json_content_type (ContentType s)
      \<longleftrightarrow> eq_ignore_ascii_case s json_content_type)
    \<and> (can_decode json_content_type (ContentType (s @ CHR '';'' # params))
      \<longleftrightarrow> eq_ignore_ascii_case s json_content_type)"
proof -
  have "CHR '';'' \<notin> set s" using assms(2) by auto
  moreover from this have "essence s = s"
    using str_trim_ascii [OF assms(1)] assms(2) by (simp add: essence_def split_on_none)
  ultimately show ?thesis by (simp add: can_decode_def essence_params)
qed

lemma essence_plain: "list_all is_ascii ''Application/JSON''
    \<and> (\<forall>c \<in> set ''Application/JSON''. c \<noteq> CHR '';'' \<and> \<not> is_whitespace (byte c))"
  by (simp add: is_ascii_def is_whitespace_def)

lemma json_media_type_exact_example:
  "can_decode json_content_type (ContentType ''Application/JSON;charset=utf-8'')"
proof -
  have "eq_ignore_ascii_case ''Application/JSON'' json_content_type"
    by code_simp
  then show ?thesis
    using json_media_type_exact [OF conjunct1 [OF essence_plain] conjunct2 [OF essence_plain],
        of "''charset=utf-8''"] by simp
qed

end
