(* ===== verification/Retry.thy ===== *)
theory Retry
  imports Prelude
begin

text \<open>
  The retry policy (\<open>runtime/src/retry.rs\<close>). A \<open>Duration\<close> is its number of nanoseconds, at most
  \<open>DURATION_MAX\<close>, and \<open>saturating_mul\<close> is the method of the standard library; an attempt number
  is a \<open>u32\<close>.
\<close>

type_synonym duration = nat

definition DURATION_MAX :: duration where
  "DURATION_MAX = (2 ^ 64 - 1) * 1000000000 + 999999999"

definition U32_MAX :: nat where
  "U32_MAX = 2 ^ 32 - 1"

definition saturating_mul :: "duration \<Rightarrow> nat \<Rightarrow> duration" where
  "saturating_mul d n = (if d * n \<le> DURATION_MAX then d * n else DURATION_MAX)"

definition saturating_add_u32 :: "nat \<Rightarrow> nat \<Rightarrow> nat" where
  "saturating_add_u32 a b = min (a + b) U32_MAX"

text \<open>A plain \<open>+\<close> on \<open>u32\<close>, as a release build computes it; a debug build panics where it wraps.\<close>

definition wrapping_add_u32 :: "nat \<Rightarrow> nat \<Rightarrow> nat" where
  "wrapping_add_u32 a b = (a + b) mod 2 ^ 32"

lemma wrapping_add_fits: "a + b \<le> U32_MAX \<Longrightarrow> wrapping_add_u32 a b = a + b"
  by (simp add: wrapping_add_u32_def U32_MAX_def)

definition from_secs :: "nat \<Rightarrow> duration" where
  "from_secs s = s * 1000000000"

record retry_policy =
  attempts :: nat
  first_delay :: duration
  max_delay :: duration

text \<open>The loop \<open>for _ in 1..attempt\<close> with its \<open>break\<close>, by the number of rounds left.\<close>

fun delay_loop :: "retry_policy \<Rightarrow> nat \<Rightarrow> duration \<Rightarrow> duration" where
  "delay_loop p 0 d = d"
| "delay_loop p (Suc n) d =
     (if d = 0 \<or> max_delay p \<le> d then d else delay_loop p n (saturating_mul d 2))"

definition delay :: "retry_policy \<Rightarrow> nat \<Rightarrow> duration" where
  "delay p attempt = min (delay_loop p (attempt - 1) (first_delay p)) (max_delay p)"

definition is_last :: "retry_policy \<Rightarrow> nat \<Rightarrow> bool" where
  "is_last p attempt \<longleftrightarrow> attempts p \<le> attempt"

definition retry_default :: retry_policy where
  "retry_default =
     \<lparr>attempts = 5, first_delay = from_secs 1, max_delay = from_secs 60\<rparr>"

definition policy_ok :: "retry_policy \<Rightarrow> bool" where
  "policy_ok p \<longleftrightarrow> attempts p \<le> U32_MAX \<and> first_delay p \<le> DURATION_MAX \<and> max_delay p \<le> DURATION_MAX"

lemma delay_loop_closed:
  assumes "max_delay p \<le> DURATION_MAX"
  shows "min (delay_loop p n d) (max_delay p) = min (d * 2 ^ n) (max_delay p)"
proof (induction n arbitrary: d)
  case 0
  then show ?case by simp
next
  case (Suc n)
  show ?case
  proof (cases "d = 0 \<or> max_delay p \<le> d")
    case True
    then show ?thesis
    proof
      assume m: "max_delay p \<le> d"
      have "d * 1 \<le> d * 2 ^ Suc n" by (rule mult_le_mono2) simp
      then have "max_delay p \<le> d * 2 ^ Suc n" using m by linarith
      then show ?thesis using m by (simp add: min_absorb2 del: power_Suc)
    qed simp
  next
    case False
    show ?thesis
    proof (cases "d * 2 \<le> DURATION_MAX")
      case True
      then show ?thesis using False Suc [of "d * 2"]
        by (simp add: saturating_mul_def mult.assoc)
    next
      case big: False
      have "DURATION_MAX * 1 \<le> DURATION_MAX * 2 ^ n" by (rule mult_le_mono2) simp
      moreover have "d * 2 * 1 \<le> d * 2 * 2 ^ n" by (rule mult_le_mono2) simp
      ultimately have "max_delay p \<le> DURATION_MAX * 2 ^ n" "max_delay p \<le> d * 2 * 2 ^ n"
        using assms big by linarith+
      then show ?thesis using False big Suc [of DURATION_MAX]
        by (simp add: saturating_mul_def mult.assoc)
    qed
  qed
qed

lemma delay_closed:
  "max_delay p \<le> DURATION_MAX \<Longrightarrow>
    delay p attempt = min (first_delay p * 2 ^ (attempt - 1)) (max_delay p)"
  by (simp add: delay_def delay_loop_closed)

lemma delay_le_max: "delay p attempt \<le> max_delay p"
  by (simp add: delay_def)

lemma delay_mono:
  "max_delay p \<le> DURATION_MAX \<Longrightarrow> a \<le> b \<Longrightarrow> delay p a \<le> delay p b"
  unfolding delay_closed by (intro min.mono mult_le_mono2 power_increasing) simp_all

section \<open>Properties\<close>

text \<open>
  C35: the wait before attempt \<open>n + 1\<close> is the first delay doubled \<open>n - 1\<close> times and cut at the maximum;
  the saturating multiplication of the loop never shows: waits only grow and stay below the maximum.
\<close>

theorem retry_delay_exact:
  assumes "policy_ok p"
  shows "delay p n = min (first_delay p * 2 ^ (n - 1)) (max_delay p)
    \<and> delay p n \<le> max_delay p \<and> delay p n \<le> delay p (n + k)"
  using assms delay_closed [of p n] delay_le_max [of p n] delay_mono [of p n "n + k"]
  by (simp add: policy_ok_def)

lemma retry_default_ok: "policy_ok retry_default"
  by (simp add: policy_ok_def retry_default_def from_secs_def U32_MAX_def DURATION_MAX_def)

theorem retry_delay_exact_witness:
  "delay retry_default 3 = from_secs 4 \<and> delay retry_default 3 \<le> delay retry_default (3 + 1)"
  using retry_delay_exact [OF retry_default_ok, of 3 1]
  by (simp add: retry_default_def from_secs_def)

end
