(* ===== verification/Store.thy ===== *)
theory Store
  imports Codec Retry Partition
begin

text \<open>
  The store and transport contracts (\<open>core/src/store.rs\<close>, \<open>partition.rs\<close>, \<open>transport.rs\<close>). A
  trait is a record of its methods, and an \<open>async\<close> method that may fail is an \<open>io\<close>: a function of
  the state it acts on, which returns its result and the state after it. What a call changes is
  kept also when it fails, so a partial effect is a behaviour of the model. A transaction is a
  state of its own: dropping it leaves the database as it was.
\<close>

section \<open>Effects\<close>

type_synonym ('s, 'e, 'a) io = "'s \<Rightarrow> ('e, 'a) result \<times> 's"

definition return_io :: "'a \<Rightarrow> ('s, 'e, 'a) io" where
  "return_io a s = (Inr a, s)"

definition throw_io :: "'e \<Rightarrow> ('s, 'e, 'a) io" where
  "throw_io e s = (Inl e, s)"

definition and_then_io :: "('s, 'e, 'a) io \<Rightarrow> ('a \<Rightarrow> ('s, 'e, 'b) io) \<Rightarrow> ('s, 'e, 'b) io" where
  "and_then_io m f s =
     (case m s of (Inl e, s') \<Rightarrow> (Inl e, s') | (Inr a, s') \<Rightarrow> f a s')"

definition map_err_io :: "('e \<Rightarrow> 'f) \<Rightarrow> ('s, 'e, 'a) io \<Rightarrow> ('s, 'f, 'a) io" where
  "map_err_io g m s = (map_err g (fst (m s)), snd (m s))"

definition lift_io :: "('e, 'a) result \<Rightarrow> ('s, 'e, 'a) io" where
  "lift_io r s = (r, s)"

named_theorems io_simps

lemma io_basic [io_simps]:
  "return_io a s = (Inr a, s)" "throw_io e s = (Inl e, s)" "lift_io r s = (r, s)"
  by (simp_all add: return_io_def throw_io_def lift_io_def)

lemma and_then_io_Inr [io_simps]:
  "and_then_io m f s = (Inr b, s') \<longleftrightarrow> (\<exists>a t. m s = (Inr a, t) \<and> f a t = (Inr b, s'))"
  unfolding and_then_io_def by (cases "m s"; cases "fst (m s)") auto

lemma and_then_io_Inl [io_simps]:
  "and_then_io m f s = (Inl e, s') \<longleftrightarrow>
    m s = (Inl e, s') \<or> (\<exists>a t. m s = (Inr a, t) \<and> f a t = (Inl e, s'))"
  unfolding and_then_io_def by (cases "m s"; cases "fst (m s)") auto

lemma map_err_io_iff [io_simps]:
  "map_err_io g m s = (Inr a, s') \<longleftrightarrow> m s = (Inr a, s')"
  "map_err_io g m s = (Inl f, s') \<longleftrightarrow> (\<exists>e. m s = (Inl e, s') \<and> f = g e)"
  unfolding map_err_io_def by (cases "m s"; cases "fst (m s)"; auto)+

text \<open>A property of the state that every step of a composition keeps, it keeps.\<close>

lemma and_then_io_state:
  assumes "P s" and "\<And>r t. m s = (r, t) \<Longrightarrow> P t"
    and "\<And>a t r u. m s = (Inr a, t) \<Longrightarrow> P t \<Longrightarrow> f a t = (r, u) \<Longrightarrow> P u"
  shows "P (snd (and_then_io m f s))"
proof (cases "m s")
  case (Pair r t)
  then show ?thesis
    using assms by (cases r; cases "f (projr r) t") (auto simp: and_then_io_def)
qed

section \<open>The outbox\<close>

datatype store_error = Database string string   \<comment> \<open>what the store was doing, the client's error\<close>

definition store_error_text :: "store_error \<Rightarrow> string" where
  "store_error_text e = (case e of Database context source \<Rightarrow> context @ '': '' @ source)"

record outbox_record =
  rec_envelope :: envelope
  rec_created_at :: timestamp
  rec_attempts :: nat
  rec_leased_until :: timestamp

definition outbox_record_new ::
    "envelope \<Rightarrow> timestamp \<Rightarrow> nat \<Rightarrow> timestamp \<Rightarrow> outbox_record" where
  "outbox_record_new e created n leased =
     \<lparr>rec_envelope = e, rec_created_at = created, rec_attempts = n, rec_leased_until = leased\<rparr>"

text \<open>\<open>'s\<close> is the world of the store's own connections, \<open>'c\<close> the caller's connection.\<close>

record ('s, 'c) outbox_store =
  ob_insert :: "envelope list \<Rightarrow> ('c, store_error, unit) io"
  ob_claim :: "nat \<Rightarrow> duration \<Rightarrow> ('s, store_error, outbox_record list) io"
  ob_mark_dispatched :: "outbox_record list \<Rightarrow> ('s, store_error, unit) io"
  ob_mark_retry :: "outbox_record \<Rightarrow> string \<Rightarrow> duration \<Rightarrow> ('s, store_error, unit) io"
  ob_mark_failed :: "outbox_record \<Rightarrow> string \<Rightarrow> ('s, store_error, unit) io"

section \<open>The inbox\<close>

record ('s, 't) inbox_store =
  ib_begin :: "('s, store_error, 't) io"
  ib_record :: "string \<Rightarrow> envelope \<Rightarrow> ('t, store_error, bool) io"
  ib_commit :: "'t \<Rightarrow> ('s, store_error, unit) io"

section \<open>Partitions\<close>

text \<open>\<open>try_lock\<close> returns whether it has the lock; \<open>unlock\<close> is the drop of the guard.\<close>

record 's partition_store =
  ps_try_lock :: "('s, store_error, bool) io"
  ps_unlock :: "'s \<Rightarrow> 's"
  ps_ensure_partitions :: "partition_interval \<Rightarrow> date \<Rightarrow> nat \<Rightarrow> ('s, store_error, unit) io"
  ps_default_rows :: "('s, store_error, nat) io"
  ps_expirable :: "date \<Rightarrow> ('s, store_error, partition_info list) io"
  ps_expire :: "partition_info \<Rightarrow> expiry \<Rightarrow> ('s, store_error, unit) io"

section \<open>The transport\<close>

datatype transport_error = Closed | Broker string string

definition transport_error_text :: "transport_error \<Rightarrow> string" where
  "transport_error_text e =
     (case e of
        Closed \<Rightarrow> ''the transport is closed''
      | Broker context source \<Rightarrow> context @ '': '' @ source)"

record endpoint_spec =
  spec_name :: string
  spec_message_types :: "message_type list"

definition endpoint_spec_new :: "string \<Rightarrow> message_type list \<Rightarrow> endpoint_spec" where
  "endpoint_spec_new n types = \<lparr>spec_name = n, spec_message_types = types\<rparr>"

record 's delivery =
  dl_envelope :: envelope
  dl_attempt :: nat
  dl_ack :: "('s, transport_error, unit) io"
  dl_retry :: "duration \<Rightarrow> ('s, transport_error, unit) io"
  dl_reject :: "('s, transport_error, unit) io"

text \<open>\<open>'q\<close> is what a subscription streams its deliveries from.\<close>

record ('s, 'q) transport =
  tr_publish :: "envelope \<Rightarrow> ('s, transport_error, unit) io"
  tr_subscribe :: "endpoint_spec \<Rightarrow> ('s, transport_error, 'q) io"
  tr_publish_error :: "string \<Rightarrow> envelope \<Rightarrow> ('s, transport_error, unit) io"

end
