(* ===== verification/Handler.thy ===== *)
theory Handler
  imports Store
begin

text \<open>
  Handlers, their context and their errors (\<open>runtime/src/handler.rs\<close>), the encoding of a message
  as an envelope (\<open>publish.rs\<close>) and the publisher that writes to the outbox (\<open>outbox.rs\<close>). The id
  and the time of a new envelope come from the clock, so they are arguments: \<open>fresh\<close> is the pair
  that \<open>Envelope::new\<close> reads.
\<close>

record handler_error =
  error_type :: string
  error_message :: string

definition handler_error_new :: "string \<Rightarrow> string \<Rightarrow> handler_error" where
  "handler_error_new t m = \<lparr>error_type = t, error_message = m\<rparr>"

text \<open>\<open>From<Err>\<close> for the crate's own errors: \<open>type_name\<close> and \<open>Display\<close>.\<close>

definition handler_error_from_store :: "store_error \<Rightarrow> handler_error" where
  "handler_error_from_store e =
     handler_error_new ''sisa_messaging_core::store::StoreError'' (store_error_text e)"

definition handler_error_from_transport :: "transport_error \<Rightarrow> handler_error" where
  "handler_error_from_transport e =
     handler_error_new ''sisa_messaging_core::transport::TransportError'' (transport_error_text e)"

definition codec_error_type_name :: string where
  "codec_error_type_name = ''sisa_messaging_core::codec::CodecError''"

definition handler_error_from_codec :: "codec_error \<Rightarrow> handler_error" where
  "handler_error_from_codec e = handler_error_new codec_error_type_name (codec_error_text e)"

section \<open>The context\<close>

record 't handler_context =
  ctx_source :: source
  ctx_endpoint :: string
  ctx_envelope :: envelope
  ctx_attempt :: nat
  ctx_held :: "envelope list"
  ctx_transaction :: 't

definition handler_context_new ::
    "source \<Rightarrow> string \<Rightarrow> envelope \<Rightarrow> nat \<Rightarrow> unit handler_context" where
  "handler_context_new source endpoint e attempt =
     \<lparr>ctx_source = source, ctx_endpoint = endpoint, ctx_envelope = e, ctx_attempt = attempt,
      ctx_held = [], ctx_transaction = ()\<rparr>"

definition with_transaction ::
    "'t handler_context \<Rightarrow> 'u \<Rightarrow> 'u handler_context \<times> 't" where
  "with_transaction c t =
     (\<lparr>ctx_source = ctx_source c, ctx_endpoint = ctx_endpoint c, ctx_envelope = ctx_envelope c,
       ctx_attempt = ctx_attempt c, ctx_held = ctx_held c, ctx_transaction = t\<rparr>,
      ctx_transaction c)"

section \<open>Publishing\<close>

datatype publish_error =
    PublishMessageType envelope_error
  | PublishEncode codec_error
  | PublishTransport transport_error
  | PublishStore store_error

text \<open>
  The content type of the codec is checked by \<open>ContentType::new\<close> with \<open>expect\<close>: \<open>None\<close> is its
  panic, which \<open>encode_never_panics\<close> excludes.
\<close>

definition encode ::
    "message_id \<times> timestamp \<Rightarrow> source \<Rightarrow> 'm message_impl \<Rightarrow> 'm
      \<Rightarrow> (publish_error, envelope) result option" where
  "encode fresh source M message =
     (case map_err PublishMessageType (message_type_new (msg_type M)) of
        Inl e \<Rightarrow> Some (Inl e)
      | Inr message_type \<Rightarrow>
          (case content_type_new json_content_type of
             Inl _ \<Rightarrow> None
           | Inr content_type \<Rightarrow>
               Some (and_then (map_err PublishEncode (json_encode M message)) (\<lambda>data.
                 Inr (envelope_new (fst fresh) (snd fresh) message_type source content_type data)))))"

lemma json_content_type_valid:
  "content_type_new json_content_type = Inr (ContentType json_content_type)"
  by (simp add: content_type_new_def json_content_type_def utf8_chars_ascii is_ascii_def
      is_control_def)

lemma encode_never_panics: "encode fresh source M m \<noteq> None"
  by (auto simp: encode_def json_content_type_valid split: sum.splits)

lemma encode_Inr:
  "encode fresh source M m = Some (Inr e) \<longleftrightarrow>
    (\<exists>t d. message_type_new (msg_type M) = Inr t \<and> json_encode M m = Inr d
      \<and> e = envelope_new (fst fresh) (snd fresh) t source (ContentType json_content_type) d)"
  by (auto simp: encode_def json_content_type_valid result_simps split: sum.splits)

text \<open>What every publish makes of a valid source and clock is a valid envelope.\<close>

lemma encode_ok:
  assumes "encode fresh source M m = Some (Inr e)" and "timestamp_ok (snd fresh)"
    and "source_new (source_str source) = Inr source"
  shows "envelope_ok e"
  using assms json_content_type_valid
  by (auto simp: encode_Inr envelope_new_def envelope_ok_def message_type_ok_def
      message_type_new_iff)

text \<open>\<open>Publisher for HandlerContext\<close>: it ties the envelope to the handled message and holds it.\<close>

definition context_publish ::
    "message_id \<times> timestamp \<Rightarrow> 'm message_impl \<Rightarrow> 'm \<Rightarrow> 't handler_context
      \<Rightarrow> (publish_error, unit) result option \<times> 't handler_context" where
  "context_publish fresh M message c =
     (case encode fresh (ctx_source c) M message of
        None \<Rightarrow> (None, c)
      | Some (Inl e) \<Rightarrow> (Some (Inl e), c)
      | Some (Inr e) \<Rightarrow>
          (let e = e\<lparr>env_correlation :=
                 correlation_new (correlation_id (env_correlation (ctx_envelope c)))
                   (Some (env_id (ctx_envelope c)))\<rparr>;
               e = e\<lparr>env_trace := env_trace (ctx_envelope c)\<rparr>
           in (Some (Inr ()), c\<lparr>ctx_held := ctx_held c @ [e]\<rparr>)))"

text \<open>\<open>OutboxPublisher::publish\<close>, on the connection of the caller's transaction.\<close>

definition outbox_publish ::
    "('s, 'c) outbox_store \<Rightarrow> message_id \<times> timestamp \<Rightarrow> source \<Rightarrow> 'm message_impl \<Rightarrow> 'm
      \<Rightarrow> 'c \<Rightarrow> (publish_error, unit) result option \<times> 'c" where
  "outbox_publish store fresh source M message connection =
     (case encode fresh source M message of
        None \<Rightarrow> (None, connection)
      | Some (Inl e) \<Rightarrow> (Some (Inl e), connection)
      | Some (Inr e) \<Rightarrow>
          (case ob_insert store [e] connection of
             (r, connection') \<Rightarrow> (Some (map_err PublishStore r), connection')))"

text \<open>\<open>Publisher for Bus\<close>: straight to the broker.\<close>

definition bus_publish ::
    "('s, 'q) transport \<Rightarrow> message_id \<times> timestamp \<Rightarrow> source \<Rightarrow> 'm message_impl \<Rightarrow> 'm
      \<Rightarrow> 's \<Rightarrow> (publish_error, unit) result option \<times> 's" where
  "bus_publish T fresh source M message s =
     (case encode fresh source M message of
        None \<Rightarrow> (None, s)
      | Some (Inl e) \<Rightarrow> (Some (Inl e), s)
      | Some (Inr e) \<Rightarrow>
          (case tr_publish T e s of (r, s') \<Rightarrow> (Some (map_err PublishTransport r), s')))"

lemma context_publish_held:
  assumes "context_publish fresh M m c = (Some (Inr ()), c')"
  shows "\<exists>e. ctx_held c' = ctx_held c @ [e]
    \<and> causation_id (env_correlation e) = Some (env_id (ctx_envelope c))
    \<and> correlation_id (env_correlation e) = correlation_id (env_correlation (ctx_envelope c))
    \<and> env_trace e = env_trace (ctx_envelope c) \<and> env_source e = ctx_source c
    \<and> env_id e = fst fresh \<and> type_str (env_type e) = msg_type M
    \<and> json_encode M m = Inr (env_data e)"
  using assms
  by (auto simp: context_publish_def encode_Inr Let_def envelope_new_def correlation_new_def
      message_type_new_iff split: option.splits sum.splits)

lemma context_publish_error:
  assumes "context_publish fresh M m c = (Some (Inl e), c')"
  shows "c' = c"
  using assms by (auto simp: context_publish_def Let_def split: option.splits sum.splits)

section \<open>Properties\<close>

text \<open>A message of an application, for the examples: its JSON is its text.\<close>

definition text_message :: "string message_impl" where
  "text_message = \<lparr>msg_type = ''order.paid.v1'', to_vec = Inr, from_slice = Inr\<rparr>"

lemma text_message_serde: "serde_ok text_message"
  by (simp add: serde_ok_def text_message_def)

lemma text_message_type: "message_type_new ''order.paid.v1'' = Inr (MessageType ''order.paid.v1'')"
  by (simp add: message_type_new_def check_message_type_def MAX_MESSAGE_TYPE_LENGTH_def
      allowed_byte_def is_lower_def is_digit_def)

lemma text_message_encode:
  "encode fresh source text_message m = Some (Inr (envelope_new (fst fresh) (snd fresh)
     (MessageType ''order.paid.v1'') source (ContentType json_content_type) m))"
  by (simp add: encode_Inr json_encode_def) (simp add: text_message_def text_message_type)

text \<open>
  What a handler publishes is held, tied to the message it handles: the new envelope's causation
  is that message, its correlation id and trace are passed on; an error holds nothing, and
  publishing never panics.
\<close>

lemma handler_publish_held:
  assumes "context_publish fresh M m c = (r, c')"
  shows "r \<noteq> None \<and> (\<forall>x. r = Some (Inl x) \<longrightarrow> c' = c)
    \<and> (r = Some (Inr ()) \<longrightarrow> (\<exists>e. c' = c\<lparr>ctx_held := ctx_held c @ [e]\<rparr>
        \<and> causation_id (env_correlation e) = Some (env_id (ctx_envelope c))
        \<and> correlation_id (env_correlation e) = correlation_id (env_correlation (ctx_envelope c))
        \<and> env_trace e = env_trace (ctx_envelope c) \<and> env_source e = ctx_source c
        \<and> type_str (env_type e) = msg_type M \<and> json_encode M m = Inr (env_data e)))"
proof (cases "encode fresh (ctx_source c) M m")
  case None
  then show ?thesis using encode_never_panics by metis
next
  case (Some res)
  show ?thesis
  proof (cases res)
    case (Inl x)
    then show ?thesis using assms Some by (auto simp: context_publish_def)
  next
    case (Inr e)
    then obtain t d where e: "message_type_new (msg_type M) = Inr t" "json_encode M m = Inr d"
      "e = envelope_new (fst fresh) (snd fresh) t (ctx_source c) (ContentType json_content_type) d"
      using Some by (auto simp: encode_Inr)
    have "type_str t = msg_type M" using e(1) by (cases t) (simp add: message_type_new_iff)
    then show ?thesis
      using assms Some Inr e
      by (auto simp: context_publish_def Let_def envelope_new_def correlation_new_def)
  qed
qed

lemma handler_publish_held_example:
  "\<exists>c'. context_publish (MessageId 9, Timestamp 0 0) text_message ''paid''
       (handler_context_new (Source ''shop'') ''billing'' order_placed 1) = (Some (Inr ()), c')
     \<and> map (causation_id \<circ> env_correlation) (ctx_held c') = [Some (MessageId 7)]"
proof -
  obtain r c' where p: "context_publish (MessageId 9, Timestamp 0 0) text_message ''paid''
      (handler_context_new (Source ''shop'') ''billing'' order_placed 1) = (r, c')"
    by fastforce
  then have "r = Some (Inr ())" by (auto simp: context_publish_def text_message_encode Let_def)
  then show ?thesis
    using handler_publish_held [OF p] p by (auto simp: handler_context_new_def order_placed_def)
qed

text \<open>
  Publishing outside a handler hands the transport or the outbox exactly one envelope, valid and
  with the message's type and JSON, and nothing when the message has no valid type or can't be
  encoded; it never panics.
\<close>

lemma publish_one_valid:
  assumes "bus_publish T fresh source M m s = (r, s')"
    and "outbox_publish store fresh source M m k = (q, k')"
    and "timestamp_ok (snd fresh)" and "source_new (source_str source) = Inr source"
  shows "r \<noteq> None \<and> q \<noteq> None
    \<and> (if is_ok (message_type_new (msg_type M)) \<and> is_ok (json_encode M m)
       then \<exists>e. envelope_ok e \<and> env_id e = fst fresh \<and> type_str (env_type e) = msg_type M
          \<and> json_encode M m = Inr (env_data e) \<and> s' = snd (tr_publish T e s)
          \<and> k' = snd (ob_insert store [e] k)
       else s' = s \<and> k' = k)"
proof (cases "encode fresh source M m")
  case None
  then show ?thesis using encode_never_panics by metis
next
  case (Some res)
  show ?thesis
  proof (cases res)
    case (Inl x)
    then have "\<not> (is_ok (message_type_new (msg_type M)) \<and> is_ok (json_encode M m))"
      using Some encode_Inr [of fresh source M m] by (fastforce simp: is_ok_iff)
    then show ?thesis
      using assms(1,2) Some Inl by (auto simp: bus_publish_def outbox_publish_def)
  next
    case (Inr e)
    then obtain t d where e: "message_type_new (msg_type M) = Inr t" "json_encode M m = Inr d"
      "e = envelope_new (fst fresh) (snd fresh) t source (ContentType json_content_type) d"
      using Some by (auto simp: encode_Inr)
    have "type_str t = msg_type M" using e(1) by (cases t) (simp add: message_type_new_iff)
    moreover have "envelope_ok e" using encode_ok [OF _ assms(3,4)] Some Inr by simp
    ultimately show ?thesis
      using assms(1,2) Some Inr e
      by (auto simp: bus_publish_def outbox_publish_def is_ok_iff envelope_new_def
          split: prod.splits)
  qed
qed

lemma sample_source: "source_new (source_str (Source ''shop'')) = Inr (Source ''shop'')"
  and sample_time: "timestamp_ok (snd (MessageId 9, Timestamp 1709245800 250000000))"
  using order_placed_ok by (simp_all add: envelope_ok_def order_placed_def)

lemma publish_one_valid_example:
  "\<exists>e. envelope_ok e \<and> env_data e = ''paid''
     \<and> bus_publish \<lparr>tr_publish = (\<lambda>e s. (Inr (), s @ [e])), tr_subscribe = (\<lambda>_ s. (Inr (), s)),
          tr_publish_error = (\<lambda>_ _ s. (Inr (), s))\<rparr>
         (MessageId 9, Timestamp 1709245800 250000000) (Source ''shop'') text_message ''paid'' []
       = (Some (Inr ()), [e])"
    (is "\<exists>e. _ \<and> _ \<and> bus_publish ?T ?f ?s _ _ _ = _")
proof -
  let ?S = "\<lparr>ob_insert = (\<lambda>es k. (Inr (), k @ es)), ob_claim = (\<lambda>_ _ s. (Inr [], s)),
    ob_mark_dispatched = (\<lambda>_ s. (Inr (), s)), ob_mark_retry = (\<lambda>_ _ _ s. (Inr (), s)),
    ob_mark_failed = (\<lambda>_ _ s. (Inr (), s))\<rparr> :: (unit, envelope list) outbox_store"
  obtain r s' where b: "bus_publish ?T ?f ?s text_message ''paid'' [] = (r, s')" by fastforce
  obtain q k' where o: "outbox_publish ?S ?f ?s text_message ''paid'' [] = (q, k')" by fastforce
  have "r = Some (Inr ())" using b by (auto simp: bus_publish_def text_message_encode)
  moreover have "is_ok (message_type_new (msg_type text_message))
      \<and> is_ok (json_encode text_message ''paid'')"
    by (simp add: json_encode_def) (simp add: text_message_def text_message_type)
  ultimately show ?thesis
    using publish_one_valid [OF b o sample_time sample_source] b
    by (auto simp: json_encode_def text_message_def)
qed

end
