(* ===== verification/Endpoint.thy ===== *)
theory Endpoint
  imports Handler
begin

text \<open>
  Endpoints (\<open>runtime/src/endpoint.rs\<close>): the erased handlers of an endpoint, the pipeline without
  an inbox, the builder, and the loop that handles and settles each delivery. A future that may
  panic returns an \<open>outcome\<close>; \<open>call\<close> is \<open>catch_unwind\<close> around it. A handler acts on the world
  \<open>'s\<close> and on its context, whose transaction is \<open>'t\<close>.
\<close>

section \<open>Panics and failures\<close>

datatype panic = PanicStr string | PanicString string | PanicOther

definition panic_message :: "panic \<Rightarrow> string" where
  "panic_message payload =
     (case payload of
        PanicStr m \<Rightarrow> m
      | PanicString m \<Rightarrow> m
      | PanicOther \<Rightarrow> ''a panic without a message'')"

datatype 'a outcome = Returned 'a | Panicked panic

datatype failure = Undecodable handler_error | HandlerFailure handler_error

definition failure_from_store :: "store_error \<Rightarrow> failure" where
  "failure_from_store e = HandlerFailure (handler_error_from_store e)"

section \<open>Erased handlers\<close>

type_synonym ('s, 't) erased_handler =
  "'t handler_context \<Rightarrow> 's \<Rightarrow> (failure, 't handler_context) result outcome \<times> 's"

type_synonym ('s, 't) handlers = "(message_type, ('s, 't) erased_handler) omap"

text \<open>A \<open>Handler<Msg, Transaction>\<close> of the application, which changes its context in place.\<close>

type_synonym ('s, 't, 'm) handler =
  "'m \<Rightarrow> 't handler_context \<Rightarrow> 's
    \<Rightarrow> (handler_error, unit) result outcome \<times> 't handler_context \<times> 's"

definition decode_and_handle ::
    "'m message_impl \<Rightarrow> ('s, 't, 'm) handler \<Rightarrow> 't handler_context \<Rightarrow> 's
      \<Rightarrow> (failure, unit) result outcome \<times> 't handler_context \<times> 's" where
  "decode_and_handle M handler context s =
     (let envelope = ctx_envelope context in
      if \<not> can_decode json_content_type (env_content_type envelope)
      then (Returned (Inl (Undecodable (handler_error_new codec_error_type_name
              (''no codec reads '' @ content_type_str (env_content_type envelope))))), context, s)
      else (case json_decode M (env_data envelope) of
          Inl error \<Rightarrow>
            (Returned (Inl (Undecodable (handler_error_from_codec error))), context, s)
        | Inr message \<Rightarrow>
            (case handler message context s of
               (Panicked p, context', s') \<Rightarrow> (Panicked p, context', s')
             | (Returned r, context', s') \<Rightarrow>
                 (Returned (map_err HandlerFailure r), context', s'))))"

definition typed_handle ::
    "'m message_impl \<Rightarrow> ('s, 't, 'm) handler \<Rightarrow> ('s, 't) erased_handler" where
  "typed_handle M handler context s =
     (case decode_and_handle M handler context s of
        (Panicked p, _, s') \<Rightarrow> (Panicked p, s')
      | (Returned (Inl e), _, s') \<Rightarrow> (Returned (Inl e), s')
      | (Returned (Inr _), context', s') \<Rightarrow> (Returned (Inr context'), s'))"

definition without_transaction :: "('s, unit) erased_handler \<Rightarrow> ('s, 't) erased_handler" where
  "without_transaction h context s =
     (case with_transaction context () of
        (context, transaction) \<Rightarrow>
          (case h context s of
             (Panicked p, s') \<Rightarrow> (Panicked p, s')
           | (Returned (Inl e), s') \<Rightarrow> (Returned (Inl e), s')
           | (Returned (Inr context'), s') \<Rightarrow>
               (Returned (Inr (fst (with_transaction context' transaction))), s')))"

definition find_handler ::
    "('s, 't) handlers \<Rightarrow> string \<Rightarrow> envelope \<Rightarrow> (failure, ('s, 't) erased_handler) result" where
  "find_handler handlers endpoint envelope =
     ok_or (Undecodable (handler_error_new ''no_handler''
         (''endpoint '' @ endpoint @ '' has no handler for this message type'')))
       (om_get handlers (env_type envelope))"

definition call ::
    "('s, 't) erased_handler \<Rightarrow> 't handler_context \<Rightarrow> ('s, failure, 't handler_context) io" where
  "call handler context s =
     (case handler context s of
        (Returned r, s') \<Rightarrow> (r, s')
      | (Panicked payload, s') \<Rightarrow>
          (Inl (HandlerFailure (handler_error_new ''panic'' (panic_message payload))), s'))"

section \<open>The pipeline without an inbox\<close>

type_synonym 's pipeline = "unit handler_context \<Rightarrow> ('s, failure, envelope list) io"

definition plain_run :: "string \<Rightarrow> ('s, unit) handlers \<Rightarrow> 's pipeline" where
  "plain_run endpoint handlers context =
     and_then_io (lift_io (find_handler handlers endpoint (ctx_envelope context))) (\<lambda>handler.
     and_then_io (call handler context) (\<lambda>context'. return_io (ctx_held context')))"

text \<open>
  \<open>EndpointInbox\<close> and \<open>InboxPipeline\<close>: whether the endpoint's handlers run in a transaction, and
  the pipeline it builds on a bus whose outbox is \<open>'o\<close>.
\<close>

record ('s, 't, 'o) endpoint_inbox =
  ei_transactional :: bool
  ei_pipeline :: "string \<Rightarrow> ('s, 't) handlers \<Rightarrow> 'o \<Rightarrow> 's pipeline"

definition no_inbox :: "('s, unit, 'o) endpoint_inbox" where
  "no_inbox =
     \<lparr>ei_transactional = False, ei_pipeline = (\<lambda>endpoint handlers _. plain_run endpoint handlers)\<rparr>"

section \<open>Building an endpoint\<close>

datatype start_error =
    EnvelopeStartError envelope_error
  | DuplicateEndpoint string
  | DuplicateHandler string string   \<comment> \<open>endpoint, message type\<close>
  | InboxBeforeOutbox string
  | InvalidDispatchSettings string
  | Subscribe string transport_error

record ('s, 't, 'o) endpoint_builder =
  eb_name :: string
  eb_retry :: retry_policy
  eb_inbox :: "('s, 't, 'o) endpoint_inbox"
  eb_handlers :: "((envelope_error, message_type) result \<times> ('s, 't) erased_handler) list"

definition endpoint_builder_new :: "string \<Rightarrow> ('s, unit, 'o) endpoint_builder" where
  "endpoint_builder_new n =
     \<lparr>eb_name = n, eb_retry = retry_default, eb_inbox = no_inbox, eb_handlers = []\<rparr>"

definition builder_inbox ::
    "('s, 't, 'o) endpoint_inbox \<Rightarrow> ('s, unit, 'o) endpoint_builder
      \<Rightarrow> ('s, 't, 'o) endpoint_builder" where
  "builder_inbox inbox b =
     \<lparr>eb_name = eb_name b, eb_retry = eb_retry b, eb_inbox = inbox,
      eb_handlers = map (\<lambda>(t, h). (t, without_transaction h)) (eb_handlers b)\<rparr>"

definition builder_handle ::
    "'m message_impl \<Rightarrow> ('s, 't, 'm) handler \<Rightarrow> ('s, 't, 'o) endpoint_builder
      \<Rightarrow> ('s, 't, 'o) endpoint_builder" where
  "builder_handle M handler b =
     b\<lparr>eb_handlers := eb_handlers b @ [(message_type_new (msg_type M), typed_handle M handler)]\<rparr>"

definition builder_retry ::
    "retry_policy \<Rightarrow> ('s, 't, 'o) endpoint_builder \<Rightarrow> ('s, 't, 'o) endpoint_builder" where
  "builder_retry policy b = b\<lparr>eb_retry := policy\<rparr>"

record 's endpoint =
  ep_name :: string
  ep_retry :: retry_policy
  ep_message_types :: "message_type list"
  ep_transactional :: bool
  ep_pipeline :: "'s pipeline"

definition add_handler ::
    "string \<Rightarrow> ('s, 't) handlers \<Rightarrow> (envelope_error, message_type) result \<times> ('s, 't) erased_handler
      \<Rightarrow> (start_error, ('s, 't) handlers) result" where
  "add_handler endpoint handlers added =
     and_then (map_err EnvelopeStartError (fst added)) (\<lambda>message_type.
       if om_contains handlers message_type
       then Inl (DuplicateHandler endpoint (type_str message_type))
       else Inr (om_insert message_type (snd added) handlers))"

definition build :: "'o \<Rightarrow> ('s, 't, 'o) endpoint_builder \<Rightarrow> (start_error, 's endpoint) result" where
  "build outbox b =
     and_then (try_fold (add_handler (eb_name b)) [] (eb_handlers b)) (\<lambda>handlers.
       Inr \<lparr>ep_name = eb_name b, ep_retry = eb_retry b, ep_message_types = map fst handlers,
            ep_transactional = ei_transactional (eb_inbox b),
            ep_pipeline = ei_pipeline (eb_inbox b) (eb_name b) handlers outbox\<rparr>)"

section \<open>Handling one delivery\<close>

definition error_envelope ::
    "envelope \<Rightarrow> string \<Rightarrow> handler_error \<Rightarrow> nat \<Rightarrow> (envelope_error, envelope) result" where
  "error_envelope envelope endpoint error attempt =
     map_err id (and_then
       (try_fold (\<lambda>e (name, value). and_then (ext_insert e name value) (\<lambda>(e', _). Inr e'))
          (env_extensions envelope)
          [(''errorendpoint'', endpoint),
           (''errortype'', error_type error),
           (''errormessage'', error_message error),
           (''errorattempts'', dec attempt)])
       (\<lambda>extensions. Inr (envelope\<lparr>env_extensions := extensions\<rparr>)))"

fun send_held :: "('s, 'q) transport \<Rightarrow> envelope list \<Rightarrow> ('s, failure, unit) io" where
  "send_held T [] s = (Inr (), s)"
| "send_held T (envelope # held) s =
     (case tr_publish T envelope s of
        (Inl error, s') \<Rightarrow> (Inl (HandlerFailure (handler_error_from_transport error)), s')
      | (Inr _, s') \<Rightarrow> send_held T held s')"

text \<open>
  \<open>process\<close>: what it settled and the state after; \<open>None\<close> is the panic of the \<open>expect\<close> in
  \<open>error_envelope\<close>, which \<open>error_envelope_total\<close> excludes. The result of settling is only logged.
\<close>

definition settle_failed ::
    "'s endpoint \<Rightarrow> ('s, 'q) transport \<Rightarrow> 's delivery \<Rightarrow> handler_error \<Rightarrow> 's
      \<Rightarrow> ((transport_error, unit) result \<times> 's) option" where
  "settle_failed ep T d error s =
     (case error_envelope (dl_envelope d) (ep_name ep) error (dl_attempt d) of
        Inl _ \<Rightarrow> None
      | Inr failed \<Rightarrow>
          (case tr_publish_error T (ep_name ep) failed s of
             (Inr _, s') \<Rightarrow> Some (dl_reject d s')
           | (Inl _, s') \<Rightarrow> Some (dl_retry d (delay (ep_retry ep) (dl_attempt d)) s')))"

definition handle_delivery ::
    "'s endpoint \<Rightarrow> ('s, 'q) transport \<Rightarrow> source \<Rightarrow> 's delivery \<Rightarrow> ('s, failure, unit) io" where
  "handle_delivery ep T source d s =
     (let context = handler_context_new source (ep_name ep) (dl_envelope d) (dl_attempt d) in
      case ep_pipeline ep context s of
        (Inr held, s') \<Rightarrow> send_held T held s'
      | (Inl failure, s') \<Rightarrow> (Inl failure, s'))"

definition process ::
    "'s endpoint \<Rightarrow> ('s, 'q) transport \<Rightarrow> source \<Rightarrow> 's delivery \<Rightarrow> 's
      \<Rightarrow> ((transport_error, unit) result \<times> 's) option" where
  "process ep T source d s =
     (case handle_delivery ep T source d s of
        (Inr _, s') \<Rightarrow> Some (dl_ack d s')
      | (Inl (HandlerFailure error), s') \<Rightarrow>
          if \<not> is_last (ep_retry ep) (dl_attempt d)
          then Some (dl_retry d (delay (ep_retry ep) (dl_attempt d)) s')
          else settle_failed ep T d error s'
      | (Inl (Undecodable error), s') \<Rightarrow> settle_failed ep T d error s')"

section \<open>The receive loop\<close>

text \<open>
  What \<open>select!\<close> sees next: the stop signal, an item of the stream, or its end. After an error the
  loop waits for the stop signal or the sleep, and the flag says the signal came first.
\<close>

datatype 's event =
    Stop
  | Delivered "'s delivery"
  | ReceiveError transport_error bool
  | Ended

datatype 's worker = Running 's | Stopped 's | WorkerPanicked

fun receive ::
    "'s endpoint \<Rightarrow> ('s, 'q) transport \<Rightarrow> source \<Rightarrow> 's event list \<Rightarrow> 's \<Rightarrow> 's worker" where
  "receive ep T source [] s = Running s"
| "receive ep T source (Stop # events) s = Stopped s"
| "receive ep T source (Ended # events) s = Stopped s"
| "receive ep T source (ReceiveError error stop # events) s =
     (if stop then Stopped s else receive ep T source events s)"
| "receive ep T source (Delivered d # events) s =
     (case process ep T source d s of
        None \<Rightarrow> WorkerPanicked
      | Some (_, s') \<Rightarrow> receive ep T source events s')"

section \<open>Lemmas\<close>

lemma call_state: "call h c s = (r, s') \<Longrightarrow> \<exists>p. h c s = (p, s')"
  by (auto simp: call_def split: prod.splits outcome.splits)

lemma call_panic:
  "h c s = (Panicked p, s') \<Longrightarrow>
    call h c s = (Inl (HandlerFailure (handler_error_new ''panic'' (panic_message p))), s')"
  by (simp add: call_def)

lemma error_names_ok:
  "ext_name_ok ''errorendpoint'' \<and> ext_name_ok ''errortype'' \<and> ext_name_ok ''errormessage''
    \<and> ext_name_ok ''errorattempts''"
  by (simp add: ext_name_ok_def RESERVED_def ascii_simps)

lemma ext_insert_ok:
  "ext_name_ok n \<Longrightarrow>
    ext_insert e n v = Inr (Extensions (om_insert n v (ext_map e)), ext_get e n)"
  by (simp add: ext_insert_Inr)

lemma error_envelope_eq:
  "error_envelope e endpoint error attempt =
    Inr (e\<lparr>env_extensions := Extensions
      (om_insert ''errorattempts'' (dec attempt)
      (om_insert ''errormessage'' (error_message error)
      (om_insert ''errortype'' (error_type error)
      (om_insert ''errorendpoint'' endpoint (ext_map (env_extensions e))))))\<rparr>)"
  using error_names_ok by (simp add: error_envelope_def ext_insert_ok)

lemma error_envelope_total: "is_ok (error_envelope e endpoint error attempt)"
  by (simp add: error_envelope_eq)

lemma error_envelope_ok:
  assumes "envelope_ok e" and "error_envelope e endpoint error attempt = Inr e'"
  shows "envelope_ok e'"
proof -
  have i: "extensions_ok (Extensions (om_insert n v m))"
    if "extensions_ok (Extensions m)" "ext_name_ok n" for n v m
    using ext_insert_preserves [OF that(1)] that(2) by (simp add: ext_insert_Inr)
  have "extensions_ok (env_extensions e)" using assms(1) by (simp add: envelope_ok_def)
  then have "extensions_ok (env_extensions e')"
    using assms(2) error_names_ok
    by (auto simp: error_envelope_eq intro!: i)
  then show ?thesis using assms by (auto simp: error_envelope_eq envelope_ok_def)
qed

lemma error_envelope_get:
  assumes "error_envelope e endpoint error attempt = Inr e'"
  shows "ext_get (env_extensions e') ''errorendpoint'' = Some endpoint"
    and "ext_get (env_extensions e') ''errortype'' = Some (error_type error)"
    and "ext_get (env_extensions e') ''errormessage'' = Some (error_message error)"
    and "ext_get (env_extensions e') ''errorattempts'' = Some (dec attempt)"
    and "k \<notin> {''errorendpoint'', ''errortype'', ''errormessage'', ''errorattempts''} \<Longrightarrow>
      ext_get (env_extensions e') k = ext_get (env_extensions e) k"
    and "e'\<lparr>env_extensions := env_extensions e\<rparr> = e"
  using assms by (auto simp: error_envelope_eq ext_get_def om_get_insert)

lemma process_total: "process ep T source d s \<noteq> None"
  by (auto simp: process_def settle_failed_def error_envelope_eq
      split: prod.splits sum.splits failure.splits if_splits)

lemma receive_never_panics: "receive ep T source events s \<noteq> WorkerPanicked"
proof (induction events arbitrary: s)
  case Nil
  then show ?case by simp
next
  case (Cons ev events)
  then show ?case
    using process_total [of ep T source _ s] by (cases ev) (auto split: option.splits prod.splits)
qed

text \<open>A stopped worker takes no other delivery.\<close>

lemma receive_stop: "receive ep T source (evs @ Stop # evs') s = receive ep T source (evs @ [Stop]) s"
proof (induction evs arbitrary: s)
  case Nil
  then show ?case by simp
next
  case (Cons ev evs)
  then show ?case by (cases ev) (auto split: option.splits prod.splits)
qed

lemma send_held_append:
  "send_held T (xs @ ys) s =
    (case send_held T xs s of (Inl e, s') \<Rightarrow> (Inl e, s') | (Inr _, s') \<Rightarrow> send_held T ys s')"
  by (induction xs arbitrary: s) (auto split: prod.splits sum.splits)

subsection \<open>Building\<close>

lemma add_handler_Inr:
  "add_handler n hs (mt, h) = Inr hs' \<longleftrightarrow>
    (\<exists>t. mt = Inr t \<and> om_get hs t = None \<and> hs' = om_insert t h hs)"
  by (auto simp: add_handler_def result_simps om_contains_def split: if_splits)

lemma add_handlers_Inr:
  assumes "om_wf hs"
  shows "try_fold (add_handler n) hs added = Inr hs' \<Longrightarrow>
    om_wf hs' \<and> distinct (map fst added)
    \<and> (\<forall>(mt, h) \<in> set added. \<exists>t. mt = Inr t \<and> om_get hs t = None \<and> om_get hs' t = Some h)
    \<and> (\<forall>t h. om_get hs' t = Some h \<longleftrightarrow> om_get hs t = Some h \<or> (Inr t, h) \<in> set added)"
  using assms
proof (induction added arbitrary: hs)
  case Nil
  then show ?case by simp
next
  case (Cons a added)
  obtain mt h where a: "a = (mt, h)" by (cases a)
  from Cons.prems(1) a obtain t where t: "mt = Inr t" "om_get hs t = None"
      and rest: "try_fold (add_handler n) (om_insert t h hs) added = Inr hs'"
    by (auto simp: result_simps add_handler_Inr)
  note ih = Cons.IH [OF rest om_wf_insert [OF Cons.prems(2)]]
  have new: "\<exists>u. mu = Inr u \<and> u \<noteq> t \<and> om_get hs u = None \<and> om_get hs' u = Some g"
    if "(mu, g) \<in> set added" for mu g
    using ih that by (force simp: om_get_insert split: if_splits)
  then have "mt \<notin> fst ` set added" using t(1) by fastforce
  then have c1: "distinct (map fst (a # added))" using ih a by simp
  have got: "om_get hs' t = Some h" using ih by (auto simp: om_get_insert)
  have c2: "\<forall>(mt, h) \<in> set (a # added).
      \<exists>t. mt = Inr t \<and> om_get hs t = None \<and> om_get hs' t = Some h"
    using new got a t by fastforce
  have "\<forall>t' h'. om_get hs' t' = Some h' \<longleftrightarrow>
      om_get (om_insert t h hs) t' = Some h' \<or> (Inr t', h') \<in> set added"
    using ih by blast
  then have c3: "\<forall>t' h'. om_get hs' t' = Some h' \<longleftrightarrow>
      om_get hs t' = Some h' \<or> (Inr t', h') \<in> set (a # added)"
    using a t by (simp add: om_get_insert) (metis option.inject option.simps(3))
  show ?case using ih c1 c2 c3 by blast
qed

lemma build_Inr:
  assumes "build outbox b = Inr ep"
  shows "distinct (map fst (eb_handlers b))" and "distinct (ep_message_types ep)"
    and "t \<in> set (ep_message_types ep) \<longleftrightarrow> Inr t \<in> fst ` set (eb_handlers b)"
    and "ep_name ep = eb_name b" and "ep_retry ep = eb_retry b"
    and "\<exists>hs. ep_pipeline ep = ei_pipeline (eb_inbox b) (eb_name b) hs outbox
      \<and> (\<forall>t h. om_get hs t = Some h \<longleftrightarrow> (Inr t, h) \<in> set (eb_handlers b))"
proof -
  from assms obtain hs where hs: "try_fold (add_handler (eb_name b)) [] (eb_handlers b) = Inr hs"
      and ep: "ep = \<lparr>ep_name = eb_name b, ep_retry = eb_retry b, ep_message_types = map fst hs,
            ep_transactional = ei_transactional (eb_inbox b),
            ep_pipeline = ei_pipeline (eb_inbox b) (eb_name b) hs outbox\<rparr>"
    by (auto simp: build_def result_simps)
  note f = add_handlers_Inr [OF om.wf_empty hs]
  have keys: "om_get hs t \<noteq> None \<longleftrightarrow> t \<in> set (map fst hs)" for t
    by (force simp: om_get_def map_of_eq_None_iff)
  have get: "om_get hs t = Some h \<longleftrightarrow> (Inr t, h) \<in> set (eb_handlers b)" for t h
    using f by (simp add: om.get_empty)
  show "distinct (map fst (eb_handlers b))" using f by blast
  show "distinct (ep_message_types ep)" using f om.distinct_entries ep by auto
  show "t \<in> set (ep_message_types ep) \<longleftrightarrow> Inr t \<in> fst ` set (eb_handlers b)"
    using keys [of t] get by (force simp: ep)
  show "ep_name ep = eb_name b" "ep_retry ep = eb_retry b" by (simp_all add: ep)
  show "\<exists>hs. ep_pipeline ep = ei_pipeline (eb_inbox b) (eb_name b) hs outbox
      \<and> (\<forall>t h. om_get hs t = Some h \<longleftrightarrow> (Inr t, h) \<in> set (eb_handlers b))"
    using get by (auto simp: ep)
qed

lemma add_handlers_is_ok:
  "\<forall>a \<in> set added. is_ok (fst a) \<Longrightarrow> distinct (map fst added)
    \<Longrightarrow> (\<forall>t. om_get hs t \<noteq> None \<longrightarrow> Inr t \<notin> fst ` set added)
    \<Longrightarrow> is_ok (try_fold (add_handler n) hs added)"
proof (induction added arbitrary: hs)
  case Nil
  then show ?case by simp
next
  case (Cons a added)
  obtain t h where a: "a = (Inr t, h)" using Cons.prems(1) by (cases a) (auto simp: is_ok_iff)
  have "om_get hs t = None" using Cons.prems(3) a by (cases "om_get hs t") auto
  then have "add_handler n hs a = Inr (om_insert t h hs)" by (simp add: a add_handler_Inr)
  moreover have "is_ok (try_fold (add_handler n) (om_insert t h hs) added)"
    using Cons.prems a by (intro Cons.IH) (auto simp: om_get_insert)
  ultimately show ?case by simp
qed

lemma build_is_ok:
  "is_ok (build outbox b) \<longleftrightarrow>
    (\<forall>a \<in> set (eb_handlers b). is_ok (fst a)) \<and> distinct (map fst (eb_handlers b))"
proof
  assume "is_ok (build outbox b)"
  then obtain ep where "build outbox b = Inr ep" by (auto simp: is_ok_iff)
  then obtain hs where hs: "try_fold (add_handler (eb_name b)) [] (eb_handlers b) = Inr hs"
    by (auto simp: build_def result_simps)
  show "(\<forall>a \<in> set (eb_handlers b). is_ok (fst a)) \<and> distinct (map fst (eb_handlers b))"
    using add_handlers_Inr [OF om.wf_empty hs] by fastforce
next
  assume "(\<forall>a \<in> set (eb_handlers b). is_ok (fst a)) \<and> distinct (map fst (eb_handlers b))"
  then have "is_ok (try_fold (add_handler (eb_name b)) [] (eb_handlers b))"
    by (intro add_handlers_is_ok) (auto simp: om.get_empty)
  then show "is_ok (build outbox b)" by (auto simp: build_def is_ok_iff)
qed

section \<open>Properties\<close>

text \<open>
  An endpoint is built exactly when every handler's message type is valid and no type has two
  handlers; it then subscribes to the types of its handlers, each once, and its pipeline looks a
  message up in exactly those handlers.
\<close>

lemma endpoint_build_exact:
  "(is_ok (build outbox b) \<longleftrightarrow>
      (\<forall>a \<in> set (eb_handlers b). is_ok (fst a)) \<and> distinct (map fst (eb_handlers b)))
    \<and> (build outbox b = Inr ep \<longrightarrow>
        distinct (ep_message_types ep)
        \<and> (\<forall>t. t \<in> set (ep_message_types ep) \<longleftrightarrow> Inr t \<in> fst ` set (eb_handlers b))
        \<and> (\<exists>hs. ep_pipeline ep = ei_pipeline (eb_inbox b) (eb_name b) hs outbox
           \<and> (\<forall>t h. om_get hs t = Some h \<longleftrightarrow> (Inr t, h) \<in> set (eb_handlers b))))"
  using build_is_ok [of outbox b] build_Inr [of outbox b ep] by blast

text \<open>The endpoint of the examples handles one type, with a handler that counts in its state.\<close>

definition count_orders :: "(nat, unit, string) handler" where
  "count_orders message context s = (Returned (Inr ()), context, s + 1)"

definition billing :: "(nat, unit, unit) endpoint_builder" where
  "billing = builder_handle text_message count_orders (endpoint_builder_new ''billing'')"

lemma endpoint_build_exact_example:
  "is_ok (build () billing) \<and> \<not> is_ok (build () (builder_handle text_message count_orders billing))"
  using endpoint_build_exact [of "()" billing]
    endpoint_build_exact [of "()" "builder_handle text_message count_orders billing"]
  by (simp add: billing_def builder_handle_def endpoint_builder_new_def)
    (simp add: text_message_def text_message_type)

text \<open>
  C29: the envelope an endpoint sends to its error destination is always built, stays valid, and is
  the failed one with the endpoint, the error's type and message and the number of attempts as
  extensions; nothing else of it changes.
\<close>

theorem error_envelope_exact:
  assumes "envelope_ok e"
  shows "\<exists>e'. error_envelope e n x a = Inr e' \<and> envelope_ok e'
    \<and> e'\<lparr>env_extensions := env_extensions e\<rparr> = e
    \<and> map (ext_get (env_extensions e'))
        [''errorendpoint'', ''errortype'', ''errormessage'', ''errorattempts'']
      = map Some [n, error_type x, error_message x, dec a]
    \<and> (\<forall>k. k \<notin> {''errorendpoint'', ''errortype'', ''errormessage'', ''errorattempts''} \<longrightarrow>
        ext_get (env_extensions e') k = ext_get (env_extensions e) k)"
proof -
  obtain e' where e': "error_envelope e n x a = Inr e'"
    using error_envelope_total [of e n x a] by (auto simp: is_ok_iff)
  note g = error_envelope_get [OF e']
  have "map (ext_get (env_extensions e'))
        [''errorendpoint'', ''errortype'', ''errormessage'', ''errorattempts'']
      = map Some [n, error_type x, error_message x, dec a]"
    using g(1-4) by simp
  then show ?thesis using e' error_envelope_ok [OF assms e'] g(5,6) by blast
qed

theorem error_envelope_exact_witness:
  "\<exists>e'. error_envelope order_placed ''billing'' (handler_error_new ''panic'' ''boom'') 12 = Inr e'
     \<and> ext_get (env_extensions e') ''errorendpoint'' = Some ''billing''
     \<and> ext_get (env_extensions e') ''tenant'' = Some ''a''"
  by (insert error_envelope_exact [OF order_placed_ok, of "''billing''"
      "handler_error_new ''panic'' ''boom''" 12], elim exE conjE, drule spec [of _ "''tenant''"],
      intro exI conjI)
    (assumption, simp, simp add: order_placed_def ext_get_def om_get_def)

end
