(* ===== verification/Settlement.thy ===== *)
theory Settlement
  imports Endpoint "HOL-Library.Multiset"
begin

text \<open>
  What an endpoint's settling means to the broker. The promises of \<open>Delivery\<close> and of
  \<open>publish_error\<close> (\<open>core/src/transport.rs\<close>) are the locale \<open>delivery_contract\<close>: the copies of an
  endpoint that wait to be delivered, with their attempt numbers, and its error destination.
  \<open>In_Memory\<close> interprets it.
\<close>

locale delivery_contract =
  fixes T :: "('s, 'q) transport"
    and D :: "string \<Rightarrow> envelope \<Rightarrow> nat \<Rightarrow> 's delivery"
    and ready :: "'s \<Rightarrow> string \<Rightarrow> bool"
    and copies :: "'s \<Rightarrow> string \<Rightarrow> (envelope \<times> nat) multiset"
    and errors :: "'s \<Rightarrow> string \<Rightarrow> envelope list"
  assumes envelope_is: "dl_envelope (D n e a) = e"
    and attempt_is: "dl_attempt (D n e a) = a"
    and ack_done: "dl_ack (D n e a) s = (Inr (), t) \<Longrightarrow> ready s n \<Longrightarrow>
      copies t = copies s \<and> errors t = errors s"
    and reject_done: "dl_reject (D n e a) s = (Inr (), t) \<Longrightarrow> ready s n \<Longrightarrow>
      copies t = copies s \<and> errors t = errors s"
    and retry_done: "dl_retry (D n e a) w s = (Inr (), t) \<Longrightarrow> ready s n \<Longrightarrow>
      copies t = (copies s)(n := add_mset (e, wrapping_add_u32 a 1) (copies s n)) \<and> errors t = errors s"
    and error_done: "tr_publish_error T n e s = (Inr (), t) \<Longrightarrow> ready s n \<Longrightarrow>
      ready t n \<and> copies t = copies s \<and> errors t = (errors s)(n := errors s n @ [e])"
    and error_failed: "tr_publish_error T n e s = (Inl x, t) \<Longrightarrow> ready s n \<Longrightarrow>
      ready t n \<and> copies t = copies s \<and> errors t = errors s"
begin

text \<open>
  Handled, waiting again with the next attempt number, or in the error destination: one of the
  three, and only one, when the broker takes the settlement.
\<close>

lemma settle_failed_settles:
  assumes sf: "settle_failed ep T (D (ep_name ep) e a) x u = Some (Inr (), t)"
    and ready: "ready u (ep_name ep)"
  shows "(copies t = (copies u)(ep_name ep := add_mset (e, wrapping_add_u32 a 1) (copies u (ep_name ep)))
      \<and> errors t = errors u)
    \<or> (copies t = copies u \<and> (\<exists>g. error_envelope e (ep_name ep) x a = Inr g
        \<and> errors t = (errors u)(ep_name ep := errors u (ep_name ep) @ [g])))"
proof -
  let ?n = "ep_name ep" and ?d = "D (ep_name ep) e a"
  obtain g where g: "error_envelope e ?n x a = Inr g" by (simp add: error_envelope_eq)
  obtain r v where v: "tr_publish_error T ?n g u = (r, v)"
    by (cases "tr_publish_error T ?n g u")
  show ?thesis
  proof (cases r)
    case (Inl y)
    have keep: "ready v ?n \<and> copies v = copies u \<and> errors v = errors u"
      using error_failed [OF v [unfolded Inl] ready] .
    have "dl_retry ?d (delay (ep_retry ep) a) v = (Inr (), t)"
      using sf g v Inl by (simp add: settle_failed_def envelope_is attempt_is)
    then show ?thesis using retry_done keep by metis
  next
    case (Inr y)
    have keep: "ready v ?n \<and> copies v = copies u \<and> errors v = (errors u)(?n := errors u ?n @ [g])"
      using error_done [OF _ ready] v Inr by simp
    have "dl_reject ?d v = (Inr (), t)"
      using sf g v Inr by (simp add: settle_failed_def envelope_is attempt_is)
    then have "copies t = copies v \<and> errors t = errors v" using reject_done keep by blast
    then show ?thesis using g keep by auto
  qed
qed

lemma process_settles:
  assumes run: "handle_delivery ep T source (D (ep_name ep) e a) s = (res, u)"
    and fin: "process ep T source (D (ep_name ep) e a) s = Some (Inr (), t)"
    and ready: "ready u (ep_name ep)"
  shows "res = Inr () \<Longrightarrow> copies t = copies u \<and> errors t = errors u"
    and "res = Inl f \<Longrightarrow>
      (copies t = (copies u)(ep_name ep := add_mset (e, wrapping_add_u32 a 1) (copies u (ep_name ep)))
        \<and> errors t = errors u)
      \<or> (copies t = copies u \<and>
         (\<exists>x g. error_envelope e (ep_name ep) x a = Inr g \<and> f \<in> {HandlerFailure x, Undecodable x}
            \<and> errors t = (errors u)(ep_name ep := errors u (ep_name ep) @ [g])))"
    and "res = Inl (HandlerFailure x) \<Longrightarrow> \<not> is_last (ep_retry ep) a \<Longrightarrow>
      copies t = (copies u)(ep_name ep := add_mset (e, wrapping_add_u32 a 1) (copies u (ep_name ep)))"
proof -
  let ?n = "ep_name ep" and ?d = "D (ep_name ep) e a"
  let ?again = "copies t = (copies u)(?n := add_mset (e, wrapping_add_u32 a 1) (copies u ?n)) \<and> errors t = errors u"
  let ?gone = "\<lambda>x. copies t = copies u \<and> (\<exists>g. error_envelope e ?n x a = Inr g
      \<and> errors t = (errors u)(?n := errors u ?n @ [g]))"
  have failed: "?again \<or> ?gone x" if "settle_failed ep T ?d x u = Some (Inr (), t)" for x
    using settle_failed_settles [OF that ready] by blast
  have retried: ?again if "dl_retry ?d (delay (ep_retry ep) a) u = (Inr (), t)"
    using retry_done [OF that ready] by simp
  show "res = Inr () \<Longrightarrow> copies t = copies u \<and> errors t = errors u"
    using fin run ack_done ready by (simp add: process_def)
  show "res = Inl (HandlerFailure x) \<Longrightarrow> \<not> is_last (ep_retry ep) a \<Longrightarrow>
      copies t = (copies u)(?n := add_mset (e, wrapping_add_u32 a 1) (copies u ?n))"
    using fin run retried by (simp add: process_def attempt_is)
  show "res = Inl f \<Longrightarrow> ?again \<or> (copies t = copies u \<and>
         (\<exists>x g. error_envelope e ?n x a = Inr g \<and> f \<in> {HandlerFailure x, Undecodable x}
            \<and> errors t = (errors u)(?n := errors u ?n @ [g])))"
  proof -
    assume f: "res = Inl f"
    show ?thesis
    proof (cases f)
      case (Undecodable x)
      then have "settle_failed ep T ?d x u = Some (Inr (), t)"
        using fin run f by (simp add: process_def)
      then show ?thesis using failed Undecodable by blast
    next
      case (HandlerFailure x)
      show ?thesis
      proof (cases "is_last (ep_retry ep) a")
        case True
        then have "settle_failed ep T ?d x u = Some (Inr (), t)"
          using fin run f HandlerFailure by (simp add: process_def attempt_is)
        then show ?thesis using failed HandlerFailure by blast
      next
        case False
        then show ?thesis using fin run f HandlerFailure retried
          by (simp add: process_def attempt_is)
      qed
    qed
  qed
qed

end

section \<open>Never lost\<close>

text \<open>
  What is left of the contract where a settlement may fail, for one delivery to the endpoint \<open>n\<close>: a
  message that is retried comes again, whatever the broker answers, and a copy that the error
  destination took stays there.
\<close>

locale lossless_delivery =
  fixes T :: "('s, 'q) transport" and d :: "'s delivery" and n :: string
    and ready :: "'s \<Rightarrow> bool" and again :: "'s \<Rightarrow> bool" and copied :: "envelope \<Rightarrow> 's \<Rightarrow> bool"
  assumes retried: "ready s \<Longrightarrow> dl_retry d w s = (r, t) \<Longrightarrow> again t"
    and rejected: "copied g s \<Longrightarrow> dl_reject d s = (r, t) \<Longrightarrow> copied g t"
    and error_copied: "ready s \<Longrightarrow> tr_publish_error T n g s = (Inr (), t) \<Longrightarrow> copied g t"
    and error_ready: "ready s \<Longrightarrow> tr_publish_error T n g s = (r, t) \<Longrightarrow> ready t"
begin

lemma settle_failed_keeps:
  assumes "ep_name ep = n" and "settle_failed ep T d x s = Some (out, t)" and "ready s"
  shows "again t \<or> (\<exists>g. error_envelope (dl_envelope d) n x (dl_attempt d) = Inr g \<and> copied g t)"
proof -
  obtain g where g: "error_envelope (dl_envelope d) n x (dl_attempt d) = Inr g" by (simp add: error_envelope_eq)
  obtain r u where p: "tr_publish_error T n g s = (r, u)" by (cases "tr_publish_error T n g s")
  show ?thesis
  proof (cases r)
    case (Inl y)
    then have "dl_retry d (delay (ep_retry ep) (dl_attempt d)) u = (out, t)"
      using assms(1,2) g p by (simp add: settle_failed_def)
    then show ?thesis using retried error_ready [OF assms(3) p] by blast
  next
    case (Inr y)
    then have "dl_reject d u = (out, t)" using assms(1,2) g p by (simp add: settle_failed_def)
    moreover have "copied g u" using error_copied [OF assms(3)] p Inr by simp
    ultimately show ?thesis using g rejected by blast
  qed
qed

text \<open>A message whose handling failed comes again, or its copy is in the error destination.\<close>

lemma never_lost:
  assumes n: "ep_name ep = n" and run: "handle_delivery ep T source d s = (Inl f, u)" and ready: "ready u"
    and fin: "process ep T source d s = Some (out, t)"
  shows "again t \<or> (\<exists>x g. f \<in> {HandlerFailure x, Undecodable x}
    \<and> error_envelope (dl_envelope d) n x (dl_attempt d) = Inr g \<and> copied g t)"
proof (cases f)
  case (HandlerFailure x)
  show ?thesis
  proof (cases "is_last (ep_retry ep) (dl_attempt d)")
    case True
    then have "settle_failed ep T d x u = Some (out, t)" using fin run HandlerFailure by (simp add: process_def)
    then show ?thesis using settle_failed_keeps [OF n _ ready] HandlerFailure by blast
  next
    case False
    then have "dl_retry d (delay (ep_retry ep) (dl_attempt d)) u = (out, t)"
      using fin run HandlerFailure by (simp add: process_def)
    then show ?thesis using retried [OF ready] by blast
  qed
next
  case (Undecodable x)
  then have "settle_failed ep T d x u = Some (out, t)" using fin run by (simp add: process_def)
  then show ?thesis using settle_failed_keeps [OF n _ ready] Undecodable by blast
qed

end

end
