(* ===== verification/In_Memory.thy ===== *)
theory In_Memory
  imports Settlement
begin

text \<open>
  The transport inside the process (\<open>runtime/src/in_memory.rs\<close>): one queue of copies for each
  endpoint, shared by its subscribers. A subscription streams from the queue of its endpoint, so
  its handle is the endpoint's name; a retried delivery sleeps in a task of its own until its
  delay has passed, which \<open>im_wake\<close> ends. The maps are ordered here, and no operation depends on
  the order of a \<open>HashMap\<close>.
\<close>

type_synonym im_pending = "envelope \<times> nat"

record im_queue =
  q_pending :: "im_pending list"
  q_delayed :: "(duration \<times> im_pending) list"
  q_rejected :: "message_id list"

record im_endpoint =
  im_types :: "message_type list"
  im_queue :: im_queue

record im_state =
  im_endpoints :: "(string, im_endpoint) omap"
  im_published :: "envelope list"
  im_errors :: "(string, envelope list) omap"
  im_failing :: bool

definition queue_default :: im_queue where
  "queue_default = \<lparr>q_pending = [], q_delayed = [], q_rejected = []\<rparr>"

definition im_new :: im_state where
  "im_new = \<lparr>im_endpoints = [], im_published = [], im_errors = [], im_failing = False\<rparr>"

definition queue_push :: "im_pending \<Rightarrow> im_queue \<Rightarrow> im_queue" where
  "queue_push p q = q\<lparr>q_pending := q_pending q @ [p]\<rparr>"

definition queue_pop :: "im_queue \<Rightarrow> (im_pending \<times> im_queue) option" where
  "queue_pop q =
     (case q_pending q of [] \<Rightarrow> None | p # ps \<Rightarrow> Some (p, q\<lparr>q_pending := ps\<rparr>))"

definition update_queue :: "string \<Rightarrow> (im_queue \<Rightarrow> im_queue) \<Rightarrow> im_state \<Rightarrow> im_state" where
  "update_queue n f s =
     (case om_get (im_endpoints s) n of
        None \<Rightarrow> s
      | Some ep \<Rightarrow>
          s\<lparr>im_endpoints := om_insert n (ep\<lparr>im_queue := f (im_queue ep)\<rparr>) (im_endpoints s)\<rparr>)"

section \<open>The delivery\<close>

definition next_attempt :: "im_pending \<Rightarrow> im_pending" where
  "next_attempt p = (fst p, wrapping_add_u32 (snd p) 1)"

definition im_ack :: "(im_state, transport_error, unit) io" where
  "im_ack s = (Inr (), s)"

definition im_retry ::
    "string \<Rightarrow> im_pending \<Rightarrow> duration \<Rightarrow> (im_state, transport_error, unit) io" where
  "im_retry n p w s =
     (Inr (), update_queue n (\<lambda>q. q\<lparr>q_delayed := q_delayed q @ [(w, next_attempt p)]\<rparr>) s)"

definition im_reject :: "string \<Rightarrow> im_pending \<Rightarrow> (im_state, transport_error, unit) io" where
  "im_reject n p s =
     (Inr (), update_queue n (\<lambda>q. q\<lparr>q_rejected := q_rejected q @ [env_id (fst p)]\<rparr>) s)"

text \<open>\<open>Drop\<close> of a delivery that was not settled.\<close>

definition im_drop :: "string \<Rightarrow> im_pending \<Rightarrow> im_state \<Rightarrow> im_state" where
  "im_drop n p s = update_queue n (queue_push (next_attempt p)) s"

definition im_delivery :: "string \<Rightarrow> envelope \<Rightarrow> nat \<Rightarrow> im_state delivery" where
  "im_delivery n e a =
     \<lparr>dl_envelope = e, dl_attempt = a, dl_ack = im_ack, dl_retry = im_retry n (e, a),
      dl_reject = im_reject n (e, a)\<rparr>"

text \<open>The sleep of a retried delivery is over: its task pushes it.\<close>

definition im_wake :: "string \<Rightarrow> nat \<Rightarrow> im_state \<Rightarrow> im_state" where
  "im_wake n i s =
     update_queue n (\<lambda>q.
       if i < length (q_delayed q)
       then queue_push (snd (q_delayed q ! i))
              (q\<lparr>q_delayed := take i (q_delayed q) @ drop (Suc i) (q_delayed q)\<rparr>)
       else q) s"

section \<open>The transport\<close>

definition im_published_list :: "im_state \<Rightarrow> envelope list" where
  "im_published_list s = im_published s"

definition im_rejected_list :: "string \<Rightarrow> im_state \<Rightarrow> message_id list" where
  "im_rejected_list n s =
     (case om_get (im_endpoints s) n of None \<Rightarrow> [] | Some ep \<Rightarrow> q_rejected (im_queue ep))"

definition im_errors_list :: "string \<Rightarrow> im_state \<Rightarrow> envelope list" where
  "im_errors_list n s = (case om_get (im_errors s) n of None \<Rightarrow> [] | Some es \<Rightarrow> es)"

definition fail_publishes :: "bool \<Rightarrow> im_state \<Rightarrow> im_state" where
  "fail_publishes failing s = s\<lparr>im_failing := failing\<rparr>"

definition unreachable_broker :: transport_error where
  "unreachable_broker = Broker ''publishing in memory'' ''publishes are set to fail''"

definition fan_out :: "envelope \<Rightarrow> im_endpoint \<Rightarrow> im_endpoint" where
  "fan_out e ep =
     (if env_type e \<in> set (im_types ep)
      then ep\<lparr>im_queue := queue_push (e, 1) (im_queue ep)\<rparr> else ep)"

definition im_publish :: "envelope \<Rightarrow> (im_state, transport_error, unit) io" where
  "im_publish e s =
     (if im_failing s then (Inl unreachable_broker, s)
      else (Inr (), s\<lparr>im_published := im_published s @ [e],
              im_endpoints := map (\<lambda>(n, ep). (n, fan_out e ep)) (im_endpoints s)\<rparr>))"

definition im_subscribe :: "endpoint_spec \<Rightarrow> (im_state, transport_error, string) io" where
  "im_subscribe spec s =
     (let entry = (case om_get (im_endpoints s) (spec_name spec) of
                     None \<Rightarrow> \<lparr>im_types = [], im_queue = queue_default\<rparr>
                   | Some ep \<Rightarrow> ep);
          entry = entry\<lparr>im_types := remdups (im_types entry @ spec_message_types spec)\<rparr>
      in (Inr (spec_name spec),
          s\<lparr>im_endpoints := om_insert (spec_name spec) entry (im_endpoints s)\<rparr>))"

text \<open>One item of the stream of a subscription: \<open>None\<close> while the queue is empty.\<close>

definition im_next :: "string \<Rightarrow> im_state \<Rightarrow> (im_state delivery \<times> im_state) option" where
  "im_next n s =
     Option.bind (om_get (im_endpoints s) n) (\<lambda>ep.
       map_option (\<lambda>(p, q). (im_delivery n (fst p) (snd p), update_queue n (\<lambda>_. q) s))
         (queue_pop (im_queue ep)))"

definition im_publish_error :: "string \<Rightarrow> envelope \<Rightarrow> (im_state, transport_error, unit) io" where
  "im_publish_error n e s =
     (if im_failing s then (Inl unreachable_broker, s)
      else (Inr (), s\<lparr>im_errors := om_insert n (im_errors_list n s @ [e]) (im_errors s)\<rparr>))"

definition im_transport :: "(im_state, string) transport" where
  "im_transport =
     \<lparr>tr_publish = im_publish, tr_subscribe = im_subscribe, tr_publish_error = im_publish_error\<rparr>"

section \<open>The copies of an endpoint\<close>

definition im_copies :: "im_state \<Rightarrow> string \<Rightarrow> im_pending multiset" where
  "im_copies s n =
     (case om_get (im_endpoints s) n of
        None \<Rightarrow> {#}
      | Some ep \<Rightarrow>
          mset (q_pending (im_queue ep)) + mset (map snd (q_delayed (im_queue ep))))"

definition im_ready :: "im_state \<Rightarrow> string \<Rightarrow> bool" where
  "im_ready s n \<longleftrightarrow> om_contains (im_endpoints s) n"

lemma copies_update_queue:
  assumes "im_ready s n"
    and "\<And>q. mset (q_pending (f q)) + mset (map snd (q_delayed (f q)))
      = g (mset (q_pending q) + mset (map snd (q_delayed q)))"
  shows "im_copies (update_queue n f s) = (im_copies s)(n := g (im_copies s n))"
  using assms
  by (auto simp: fun_eq_iff im_copies_def im_ready_def om_contains_def update_queue_def om_get_insert
      split: option.splits)

lemma errors_update_queue [simp]: "im_errors_list m (update_queue n f s) = im_errors_list m s"
  by (simp add: im_errors_list_def update_queue_def split: option.splits)

lemma ready_update_queue [simp]: "im_ready (update_queue n f s) m = im_ready s m"
  by (auto simp: im_ready_def om_contains_def update_queue_def om_get_insert split: option.splits)

lemma om_get_map:
  "om_get (map (\<lambda>(n, x). (n, f x)) m) k = map_option f (om_get m k)"
  by (induction m) (auto simp: om_get_def)

interpretation im: delivery_contract im_transport im_delivery im_ready im_copies
  "\<lambda>s n. im_errors_list n s"
proof unfold_locales
  fix n e a and s t :: im_state and w
  show "dl_envelope (im_delivery n e a) = e" "dl_attempt (im_delivery n e a) = a"
    by (simp_all add: im_delivery_def)
  assume r: "im_ready s n"
  show "im_copies t = im_copies s \<and> (\<lambda>n. im_errors_list n t) = (\<lambda>n. im_errors_list n s)"
    if "dl_ack (im_delivery n e a) s = (Inr (), t)"
    using that by (simp add: im_delivery_def im_ack_def)
  show "im_copies t = im_copies s \<and> (\<lambda>n. im_errors_list n t) = (\<lambda>n. im_errors_list n s)"
    if "dl_reject (im_delivery n e a) s = (Inr (), t)"
    using that copies_update_queue [OF r, of "\<lambda>q. q\<lparr>q_rejected := q_rejected q @ [env_id e]\<rparr>" "\<lambda>x. x"]
    by (auto simp: im_delivery_def im_reject_def)
  show "im_copies t = (im_copies s)(n := add_mset (e, wrapping_add_u32 a 1) (im_copies s n))
      \<and> (\<lambda>n. im_errors_list n t) = (\<lambda>n. im_errors_list n s)"
    if "dl_retry (im_delivery n e a) w s = (Inr (), t)"
    using that copies_update_queue [OF r,
      of "\<lambda>q. q\<lparr>q_delayed := q_delayed q @ [(w, next_attempt (e, a))]\<rparr>" "add_mset (e, wrapping_add_u32 a 1)"]
    by (auto simp: im_delivery_def im_retry_def next_attempt_def)
next
  fix n e x and s t :: im_state
  assume r: "im_ready s n"
  show "im_ready t n \<and> im_copies t = im_copies s
      \<and> (\<lambda>m. im_errors_list m t) = (\<lambda>m. im_errors_list m s)(n := im_errors_list n s @ [e])"
    if "tr_publish_error im_transport n e s = (Inr (), t)"
    using that r
    by (auto simp: im_transport_def im_publish_error_def im_ready_def im_copies_def fun_eq_iff
        im_errors_list_def om_get_insert split: if_splits)
  show "im_ready t n \<and> im_copies t = im_copies s
      \<and> (\<lambda>m. im_errors_list m t) = (\<lambda>m. im_errors_list m s)"
    if "tr_publish_error im_transport n e s = (Inl x, t)"
    using that r by (auto simp: im_transport_def im_publish_error_def split: if_splits)
qed

interpretation im_lossless: lossless_delivery im_transport "im_delivery n e a" n "\<lambda>s. im_ready s n"
    "\<lambda>s. (e, wrapping_add_u32 a 1) \<in># im_copies s n" "\<lambda>g s. g \<in> set (im_errors_list n s)"
  for n e a
proof unfold_locales
  fix s t :: im_state and w r g
  assume ready: "im_ready s n"
  show "(e, wrapping_add_u32 a 1) \<in># im_copies t n" if "dl_retry (im_delivery n e a) w s = (r, t)"
    using im.retry_done [OF _ ready, of e a w t] that by (simp add: im_delivery_def im_retry_def)
  show "g \<in> set (im_errors_list n t)" if "tr_publish_error im_transport n g s = (Inr (), t)"
    using im.error_done [OF that ready] by (simp add: fun_eq_iff)
  show "im_ready t n" if "tr_publish_error im_transport n g s = (r, t)"
    using im.error_done [of n g s t] im.error_failed [of n g s _ t] that ready by (cases r) auto
next
  fix s t :: im_state and r g
  show "g \<in> set (im_errors_list n t)"
    if "g \<in> set (im_errors_list n s)" "dl_reject (im_delivery n e a) s = (r, t)"
    using that by (auto simp: im_delivery_def im_reject_def)
qed

section \<open>Fan-out and redelivery\<close>

lemma im_publish_copies:
  assumes "im_publish e s = (Inr (), t)"
  shows "im_copies t n =
    (case om_get (im_endpoints s) n of
       Some ep \<Rightarrow> if env_type e \<in> set (im_types ep) then add_mset (e, 1) (im_copies s n)
                 else im_copies s n
     | None \<Rightarrow> {#})"
    and "im_published t = im_published s @ [e]"
  using assms
  by (auto simp: im_publish_def im_copies_def fan_out_def queue_push_def om_get_map
      split: if_splits option.splits)

lemma im_publish_error_unchanged: "im_publish e s = (Inl x, t) \<Longrightarrow> t = s"
  by (auto simp: im_publish_def split: if_splits)

lemma im_wake_copies: "im_copies (im_wake n i s) = im_copies s"
proof (cases "im_ready s n")
  case True
  let ?f = "\<lambda>q. if i < length (q_delayed q)
       then queue_push (snd (q_delayed q ! i))
              (q\<lparr>q_delayed := take i (q_delayed q) @ drop (Suc i) (q_delayed q)\<rparr>)
       else q"
  have "mset (q_pending (?f q)) + mset (map snd (q_delayed (?f q)))
      = mset (q_pending q) + mset (map snd (q_delayed q))" for q
  proof (cases "i < length (q_delayed q)")
    case True
    have "mset (map snd (q_delayed q)) =
        mset (map snd (take i (q_delayed q) @ q_delayed q ! i # drop (Suc i) (q_delayed q)))"
      by (simp only: id_take_nth_drop [OF True, symmetric])
    then show ?thesis using True by (simp add: queue_push_def)
  qed simp
  then have "im_copies (update_queue n ?f s) = (im_copies s)(n := im_copies s n)"
    by (intro copies_update_queue [OF True, of ?f "\<lambda>x. x"]) simp
  then show ?thesis by (simp add: im_wake_def)
next
  case False
  then show ?thesis by (auto simp: im_wake_def im_ready_def om_contains_def update_queue_def)
qed

lemma im_drop_copies:
  "im_ready s n \<Longrightarrow>
    im_copies (im_drop n (e, a) s) = (im_copies s)(n := add_mset (e, wrapping_add_u32 a 1) (im_copies s n))"
  unfolding im_drop_def
  by (rule copies_update_queue) (simp_all add: queue_push_def next_attempt_def)

text \<open>What a subscriber takes leaves the queue: no two subscribers get one copy.\<close>

lemma im_next_copies:
  assumes "im_next n s = Some (d, t)"
  shows "im_copies s = (im_copies t)(n := add_mset (dl_envelope d, dl_attempt d) (im_copies t n))"
  using assms
  by (auto simp: im_next_def queue_pop_def im_copies_def update_queue_def om_get_insert fun_eq_iff
      im_delivery_def bind_eq_Some_conv split: option.splits list.splits)

section \<open>The attempts of one message\<close>

text \<open>An endpoint's queue, and its next turn: the next delivery, else the oldest delayed one wakes.\<close>

definition queue_at :: "string \<Rightarrow> im_state \<Rightarrow> im_queue option" where
  "queue_at n s = map_option im_queue (om_get (im_endpoints s) n)"

definition turn :: "im_state endpoint \<Rightarrow> source \<Rightarrow> im_state \<Rightarrow> im_state" where
  "turn ep source s =
     (case im_next (ep_name ep) s of
        None \<Rightarrow> im_wake (ep_name ep) 0 s
      | Some (d, t) \<Rightarrow> (case process ep im_transport source d t of None \<Rightarrow> t | Some (_, u) \<Rightarrow> u))"

lemma queue_at_update [simp]: "queue_at n (update_queue n f s) = map_option f (queue_at n s)"
  by (auto simp: queue_at_def update_queue_def om_get_insert split: option.splits)

lemma failing_update [simp]: "im_failing (update_queue n f s) = im_failing s"
  by (simp add: update_queue_def split: option.splits)

lemma queue_at_errors [simp]: "queue_at n (s\<lparr>im_errors := es\<rparr>) = queue_at n s"
  by (simp add: queue_at_def)

lemma errors_insert [simp]:
  "im_errors_list n (s\<lparr>im_errors := om_insert n es (im_errors s)\<rparr>) = es"
  by (simp add: im_errors_list_def om_get_insert)

lemma im_next_at:
  "queue_at n s = Some q \<Longrightarrow> q_pending q = p # ps \<Longrightarrow>
    im_next n s = Some (im_delivery n (fst p) (snd p), update_queue n (\<lambda>_. q\<lparr>q_pending := ps\<rparr>) s)"
  by (auto simp: im_next_def queue_at_def queue_pop_def)

lemma im_next_none:
  "queue_at n s = Some q \<Longrightarrow> q_pending q = [] \<Longrightarrow> im_next n s = None"
  by (auto simp: im_next_def queue_at_def queue_pop_def)

text \<open>The one message of the queue, before attempt \<open>a\<close>.\<close>

definition waiting ::
    "string \<Rightarrow> envelope \<Rightarrow> message_id list \<Rightarrow> envelope list \<Rightarrow> nat \<Rightarrow> im_state \<Rightarrow> bool" where
  "waiting n e gone errors a s \<longleftrightarrow>
     queue_at n s = Some \<lparr>q_pending = [(e, a)], q_delayed = [], q_rejected = gone\<rparr>
     \<and> im_errors_list n s = errors \<and> \<not> im_failing s"

lemma turns_retry:
  assumes w: "waiting (ep_name ep) e gone errors a s"
    and fails: "\<And>c s. ep_pipeline ep c s = (Inl (HandlerFailure x), s)"
    and more: "a < attempts (ep_retry ep)" and u32: "policy_ok (ep_retry ep)"
  shows "waiting (ep_name ep) e gone errors (a + 1) (turn ep source (turn ep source s))"
proof -
  let ?n = "ep_name ep"
  let ?q = "\<lparr>q_pending = [], q_delayed = [], q_rejected = gone\<rparr>"
  let ?t = "update_queue ?n (\<lambda>_. ?q) s"
  let ?u = "update_queue ?n (\<lambda>q. q\<lparr>q_delayed := q_delayed q
    @ [(delay (ep_retry ep) a, next_attempt (e, a))]\<rparr>) ?t"
  have w': "queue_at ?n s = Some \<lparr>q_pending = [(e, a)], q_delayed = [], q_rejected = gone\<rparr>"
    "im_errors_list ?n s = errors" "\<not> im_failing s"
    using w by (simp_all add: waiting_def)
  have "process ep im_transport source (im_delivery ?n e a) ?t = Some (Inr (), ?u)"
    using more by (simp add: process_def handle_delivery_def fails im_delivery_def im_retry_def
        is_last_def Let_def)
  then have t1: "turn ep source s = ?u" by (simp add: turn_def im_next_at [OF w'(1)])
  have q1: "queue_at ?n ?u
      = Some (?q\<lparr>q_delayed := [(delay (ep_retry ep) a, (e, a + 1))]\<rparr>)"
    using more u32 by (simp add: w'(1) next_attempt_def policy_ok_def wrapping_add_fits)
  have "turn ep source ?u = im_wake ?n 0 ?u"
    by (simp add: turn_def im_next_none [OF q1])
  then show ?thesis
    unfolding t1 waiting_def im_wake_def using q1 w'(2,3) by (simp add: queue_push_def)
qed

lemma turn_last:
  assumes w: "waiting (ep_name ep) e gone errors a s"
    and fails: "\<And>c s. ep_pipeline ep c s = (Inl (HandlerFailure x), s)"
    and last: "attempts (ep_retry ep) \<le> a"
  shows "\<exists>g. error_envelope e (ep_name ep) x a = Inr g
    \<and> im_errors_list (ep_name ep) (turn ep source s) = errors @ [g]
    \<and> queue_at (ep_name ep) (turn ep source s)
        = Some \<lparr>q_pending = [], q_delayed = [], q_rejected = gone @ [env_id e]\<rparr>"
proof -
  let ?n = "ep_name ep"
  obtain g where g: "error_envelope e ?n x a = Inr g"
    using error_envelope_total [of e ?n x a] by (auto simp: is_ok_iff)
  have w': "queue_at ?n s = Some \<lparr>q_pending = [(e, a)], q_delayed = [], q_rejected = gone\<rparr>"
    "im_errors_list ?n s = errors" "\<not> im_failing s"
    using w by (simp_all add: waiting_def)
  let ?t = "update_queue ?n (\<lambda>_. \<lparr>q_pending = [], q_delayed = [], q_rejected = gone\<rparr>) s"
  let ?u = "?t\<lparr>im_errors := om_insert ?n (errors @ [g]) (im_errors ?t)\<rparr>"
  let ?v = "update_queue ?n (\<lambda>q. q\<lparr>q_rejected := q_rejected q @ [env_id e]\<rparr>) ?u"
  have "process ep im_transport source (im_delivery ?n e a) ?t = Some (Inr (), ?v)"
    using last w'(2,3) g by (simp add: process_def handle_delivery_def fails im_delivery_def im_reject_def
        is_last_def Let_def settle_failed_def im_transport_def im_publish_error_def)
  then have "turn ep source s = ?v" by (simp add: turn_def im_next_at [OF w'(1)])
  then show ?thesis using g w'(1) by simp
qed

lemma turns_retry_many:
  assumes "waiting (ep_name ep) e gone errors 1 s"
    and fails: "\<And>c s. ep_pipeline ep c s = (Inl (HandlerFailure x), s)" and u32: "policy_ok (ep_retry ep)"
  shows "k < attempts (ep_retry ep) \<Longrightarrow>
    waiting (ep_name ep) e gone errors (k + 1) ((turn ep source ^^ (2 * k)) s)"
proof (induction k)
  case 0
  then show ?case using assms(1) by simp
next
  case (Suc k)
  have "waiting (ep_name ep) e gone errors (k + 1) ((turn ep source ^^ (2 * k)) s)"
    using Suc by simp
  from turns_retry [OF this fails] Suc.prems u32 show ?case by simp
qed

section \<open>Properties\<close>

text \<open>A transport with one subscribed endpoint and one published envelope.\<close>

definition one_subscriber :: im_state where
  "one_subscriber = snd (im_subscribe (endpoint_spec_new ''billing'' [MessageType ''order.placed.v1'']) im_new)"

definition with_order :: im_state where
  "with_order = snd (im_publish order_placed one_subscriber)"

definition failing_endpoint :: "im_state endpoint" where
  "failing_endpoint =
     \<lparr>ep_name = ''billing'', ep_retry = retry_default, ep_message_types = [MessageType ''order.placed.v1''],
      ep_transactional = False,
      ep_pipeline = (\<lambda>_ s. (Inl (HandlerFailure (handler_error_new ''db'' ''down'')), s))\<rparr>"

lemmas sample_state = one_subscriber_def im_subscribe_def endpoint_spec_new_def im_new_def
  queue_default_def om_get_def

lemma with_order_at:
  "with_order = \<lparr>im_endpoints = [(''billing'', \<lparr>im_types = [MessageType ''order.placed.v1''],
      im_queue = \<lparr>q_pending = [(order_placed, 1)], q_delayed = [], q_rejected = []\<rparr>\<rparr>)],
    im_published = [order_placed], im_errors = [], im_failing = False\<rparr>"
  by (simp add: with_order_def sample_state im_publish_def fan_out_def queue_push_def)
    (simp add: order_placed_def)

text \<open>
  A publish reaches every endpoint of the message's type with exactly one new copy, at attempt 1,
  and no other endpoint; when publishes are set to fail it is an error and changes nothing.
\<close>

lemma in_memory_publish_fans_out:
  assumes "im_publish e s = (r, t)"
  shows "(is_ok r \<longleftrightarrow> \<not> im_failing s)
    \<and> (if is_ok r
       then im_published t = im_published s @ [e]
         \<and> (\<forall>n. im_copies t n =
              (case om_get (im_endpoints s) n of
                 Some ep \<Rightarrow> if env_type e \<in> set (im_types ep) then add_mset (e, 1) (im_copies s n)
                           else im_copies s n
               | None \<Rightarrow> {#}))
       else t = s)"
proof (cases r)
  case (Inl x)
  then show ?thesis using assms im_publish_error_unchanged [of e s x t]
    by (auto simp: im_publish_def split: if_splits)
next
  case (Inr u)
  then have "im_publish e s = (Inr (), t)" using assms by simp
  moreover from this have "\<not> im_failing s" by (auto simp: im_publish_def split: if_splits)
  ultimately show ?thesis using Inr im_publish_copies [of e s t] by simp
qed

lemma in_memory_publish_fans_out_example:
  "im_copies with_order ''billing'' = {#(order_placed, 1)#}"
proof -
  have p: "im_publish order_placed one_subscriber = (Inr (), with_order)"
    by (simp add: with_order_def sample_state im_publish_def)
  have "om_get (im_endpoints one_subscriber) ''billing''
      = Some \<lparr>im_types = [MessageType ''order.placed.v1''], im_queue = queue_default\<rparr>"
    "im_copies one_subscriber ''billing'' = {#}" "env_type order_placed = MessageType ''order.placed.v1''"
    by (simp_all add: sample_state im_copies_def order_placed_def)
  then show ?thesis using in_memory_publish_fans_out [OF p] by simp
qed

text \<open>
  C31: settling a delivery of the in-memory transport does exactly one of three things: a handled
  message is gone; a failed one waits again with the next attempt number; or it is in the endpoint's
  error destination, once, and gone from the queue. A failed attempt before the last one is retried.
\<close>

theorem in_memory_settles_once:
  assumes run: "handle_delivery ep im_transport source (im_delivery (ep_name ep) e a) s = (res, u)"
    and fin: "process ep im_transport source (im_delivery (ep_name ep) e a) s = Some (Inr (), t)"
    and ready: "im_ready u (ep_name ep)"
  shows "case res of
      Inr _ \<Rightarrow> im_copies t = im_copies u \<and> (\<forall>n. im_errors_list n t = im_errors_list n u)
    | Inl f \<Rightarrow>
        (im_copies t = (im_copies u)(ep_name ep := add_mset (e, wrapping_add_u32 a 1) (im_copies u (ep_name ep)))
           \<and> (\<forall>n. im_errors_list n t = im_errors_list n u))
        \<or> (im_copies t = im_copies u \<and> (is_last (ep_retry ep) a \<or> (\<exists>x. f = Undecodable x))
           \<and> (\<exists>x g. error_envelope e (ep_name ep) x a = Inr g \<and> f \<in> {HandlerFailure x, Undecodable x}
              \<and> (\<forall>n. im_errors_list n t = im_errors_list n u @ (if n = ep_name ep then [g] else []))))"
proof (cases res)
  case (Inr v)
  then show ?thesis using im.process_settles(1) [OF run fin ready] by (simp add: fun_eq_iff)
next
  case (Inl f)
  let ?n = "ep_name ep"
  let ?again = "im_copies t = (im_copies u)(?n := add_mset (e, wrapping_add_u32 a 1) (im_copies u ?n))"
  note settles = im.process_settles(2,3) [OF run fin ready]
  show ?thesis
  proof (cases "?again \<and> (\<forall>n. im_errors_list n t = im_errors_list n u)")
    case False
    with settles(1) [OF Inl] have gone: "im_copies t = im_copies u" by (auto simp: fun_eq_iff)
    from settles(1) [OF Inl] False obtain x g where g: "error_envelope e ?n x a = Inr g"
        "f \<in> {HandlerFailure x, Undecodable x}"
        "\<forall>n. im_errors_list n t = im_errors_list n u @ (if n = ?n then [g] else [])"
      by (auto simp: fun_eq_iff)
    have "is_last (ep_retry ep) a \<or> (\<exists>x. f = Undecodable x)"
    proof (rule ccontr)
      assume n: "\<not> (is_last (ep_retry ep) a \<or> (\<exists>x. f = Undecodable x))"
      then have "res = Inl (HandlerFailure x)" using Inl g(2) by auto
      then have ?again using settles(2) n by blast
      then have "im_copies t ?n = add_mset (e, wrapping_add_u32 a 1) (im_copies u ?n)" by simp
      then show False using gone by simp
    qed
    then show ?thesis using Inl gone g by auto
  qed (simp add: Inl)
qed

theorem in_memory_settles_once_witness:
  "\<exists>t. process failing_endpoint im_transport (Source ''shop'')
        (im_delivery (ep_name failing_endpoint) order_placed 1) with_order = Some (Inr (), t)
     \<and> im_copies t ''billing'' = {#(order_placed, 2), (order_placed, 1)#}"
proof -
  let ?d = "im_delivery (ep_name failing_endpoint) order_placed 1"
  have h: "handle_delivery failing_endpoint im_transport (Source ''shop'') ?d with_order
      = (Inl (HandlerFailure (handler_error_new ''db'' ''down'')), with_order)"
    by (simp add: handle_delivery_def failing_endpoint_def Let_def)
  have last: "\<not> is_last (ep_retry failing_endpoint) 1"
    by (simp add: is_last_def failing_endpoint_def retry_default_def)
  then obtain t where p: "process failing_endpoint im_transport (Source ''shop'') ?d with_order
      = Some (Inr (), t)"
    unfolding process_def h by (simp add: im_delivery_def im_retry_def)
  have n: "ep_name failing_endpoint = ''billing''" by (simp add: failing_endpoint_def)
  have "im_ready with_order (ep_name failing_endpoint)"
    by (simp add: im_ready_def om_contains_def om_get_def with_order_at n)
  moreover have "im_copies with_order ''billing'' = {#(order_placed, 1)#}"
    by (simp add: im_copies_def om_get_def with_order_at)
  ultimately show ?thesis
    using in_memory_settles_once [OF h p] p last by (simp add: n wrapping_add_u32_def)
qed

text \<open>
  C7: a message whose handler fails every time is attempted exactly as often as the retry policy
  says, with attempt numbers 1, 2, ...; then it is in the error destination exactly once, with that
  number of attempts, its id among the rejected ones, and nothing of it is left in the queue.
\<close>

theorem failing_message_attempts:
  assumes "waiting (ep_name ep) e gone errors 1 s"
    and "\<And>c s. ep_pipeline ep c s = (Inl (HandlerFailure x), s)"
    and "attempts (ep_retry ep) = Suc n" and "policy_ok (ep_retry ep)"
  shows "(\<forall>k \<le> n. waiting (ep_name ep) e gone errors (k + 1) ((turn ep source ^^ (2 * k)) s))
    \<and> (\<exists>g t. t = (turn ep source ^^ (2 * n + 1)) s
        \<and> error_envelope e (ep_name ep) x (Suc n) = Inr g
        \<and> im_errors_list (ep_name ep) t = errors @ [g]
        \<and> queue_at (ep_name ep) t
            = Some \<lparr>q_pending = [], q_delayed = [], q_rejected = gone @ [env_id e]\<rparr>)"
proof -
  have w: "waiting (ep_name ep) e gone errors (k + 1) ((turn ep source ^^ (2 * k)) s)"
    if "k \<le> n" for k
    using turns_retry_many [OF assms(1,2,4)] assms(3) that by simp
  then show ?thesis using turn_last [OF w [OF order_refl] assms(2)] assms(3) by simp
qed

theorem failing_message_attempts_witness:
  "\<exists>g. im_errors_list ''billing'' ((turn failing_endpoint (Source ''shop'') ^^ 9) with_order) = [g]"
proof -
  have n: "ep_name failing_endpoint = ''billing''" by (simp add: failing_endpoint_def)
  have w: "waiting (ep_name failing_endpoint) order_placed [] [] 1 with_order"
    by (simp add: waiting_def with_order_at failing_endpoint_def queue_at_def om_get_def
        im_errors_list_def)
  have f: "ep_pipeline failing_endpoint c s
      = (Inl (HandlerFailure (handler_error_new ''db'' ''down'')), s)" for c s
    by (simp add: failing_endpoint_def)
  have a: "attempts (ep_retry failing_endpoint) = Suc 4"
    by (simp add: failing_endpoint_def retry_default_def)
  have u32: "policy_ok (ep_retry failing_endpoint)" using retry_default_ok by (simp add: failing_endpoint_def)
  show ?thesis
    using failing_message_attempts [OF w f a u32, of "Source ''shop''"] by (auto simp: n)
qed

end
