(* ===== verification/Inbox_Step.thy ===== *)
theory Inbox_Step
  imports Endpoint
begin

text \<open>
  The inbox step (\<open>runtime/src/inbox.rs\<close>): a transaction per delivery with a receipt that makes a
  redelivery a no-op, and what a bus's outbox does with the publishes of a handler. The promises
  the step relies on are the locale \<open>inbox_contract\<close>, over the database of the world and the
  view a transaction has of it; \<open>Pg_Inbox\<close> interprets it.
\<close>

section \<open>The outbox of a handler\<close>

text \<open>\<open>write\<close> changes the transaction and the held publishes in place.\<close>

type_synonym 't handler_outbox =
  "'t \<Rightarrow> envelope list \<Rightarrow> (store_error, envelope list) result \<times> 't"

definition no_outbox_write :: "'t handler_outbox" where
  "no_outbox_write transaction held = (Inr held, transaction)"

definition store_write :: "('s, 't) outbox_store \<Rightarrow> 't handler_outbox" where
  "store_write store transaction held =
     (if held \<noteq> []
      then (case ob_insert store held transaction of
              (Inl e, transaction') \<Rightarrow> (Inl e, transaction')
            | (Inr _, transaction') \<Rightarrow> (Inr [], transaction'))
      else (Inr held, transaction))"

section \<open>The pipeline with an inbox\<close>

definition commit_with ::
    "('s, 't) inbox_store \<Rightarrow> 't \<Rightarrow> 'a \<Rightarrow> ('s, failure, 'a) io" where
  "commit_with inbox transaction a =
     and_then_io (map_err_io failure_from_store (ib_commit inbox transaction))
       (\<lambda>_. return_io a)"

definition write_and_commit ::
    "('s, 't) inbox_store \<Rightarrow> 't handler_outbox \<Rightarrow> 't handler_context
      \<Rightarrow> ('s, failure, envelope list) io" where
  "write_and_commit inbox write handled =
     (case write (ctx_transaction handled) (ctx_held handled) of
        (Inl e, _) \<Rightarrow> throw_io (failure_from_store e)
      | (Inr held, transaction) \<Rightarrow> commit_with inbox transaction held)"

definition transactional_run ::
    "string \<Rightarrow> ('s, 't) handlers \<Rightarrow> ('s, 't) inbox_store \<Rightarrow> 't handler_outbox \<Rightarrow> 's pipeline" where
  "transactional_run endpoint handlers inbox write context =
     and_then_io (lift_io (find_handler handlers endpoint (ctx_envelope context))) (\<lambda>handler.
     and_then_io (map_err_io failure_from_store (ib_begin inbox)) (\<lambda>transaction.
     case ib_record inbox endpoint (ctx_envelope context) transaction of
       (Inl e, _) \<Rightarrow> throw_io (failure_from_store e)
     | (Inr recorded, transaction) \<Rightarrow>
         if \<not> recorded then commit_with inbox transaction []
         else and_then_io (call handler (fst (with_transaction context transaction)))
                (write_and_commit inbox write)))"

definition inbox_of :: "('s, 't) inbox_store \<Rightarrow> ('s, 't, 't handler_outbox) endpoint_inbox" where
  "inbox_of inbox =
     \<lparr>ei_transactional = True,
      ei_pipeline = (\<lambda>endpoint handlers write. transactional_run endpoint handlers inbox write)\<rparr>"

section \<open>The contract\<close>

type_synonym receipt_key = "string \<times> message_id \<times> timestamp"

definition receipt_key :: "string \<Rightarrow> envelope \<Rightarrow> receipt_key" where
  "receipt_key endpoint e = (endpoint, env_id e, env_time e)"

text \<open>
  What is asked of handlers: they work in the transaction, do not take receipts back, and leave
  the database alone otherwise. \<open>write_ok\<close> asks the same of the outbox.
\<close>

definition handler_ok ::
    "('s \<Rightarrow> 'd) \<Rightarrow> ('t \<Rightarrow> 'd) \<Rightarrow> ('d \<Rightarrow> receipt_key \<Rightarrow> bool) \<Rightarrow> ('s, 't) erased_handler \<Rightarrow> bool" where
  "handler_ok db view has h \<longleftrightarrow>
     (\<forall>c s r s'. call h c s = (r, s') \<longrightarrow> db s' = db s
        \<and> (\<forall>c'. r = Inr c' \<longrightarrow>
             (\<forall>k. has (view (ctx_transaction c)) k \<longrightarrow> has (view (ctx_transaction c')) k)))"

definition write_ok :: "('t \<Rightarrow> 'd) \<Rightarrow> ('d \<Rightarrow> receipt_key \<Rightarrow> bool) \<Rightarrow> 't handler_outbox \<Rightarrow> bool" where
  "write_ok view has w \<longleftrightarrow>
     (\<forall>t held held' t'. w t held = (Inr held', t') \<longrightarrow>
        (\<forall>k. has (view t) k \<longrightarrow> has (view t') k))"

text \<open>
  A history of deliveries to one endpoint: runs of its pipeline, for any message and any number of
  times each, with whatever else changes the database in between and keeps the receipts of the keys
  \<open>K\<close>. The log holds for each run the message's key and whether the run changed the database.
\<close>

inductive delivery_history ::
    "(unit handler_context \<Rightarrow> ('s, failure, envelope list) io) \<Rightarrow> string \<Rightarrow> ('s \<Rightarrow> 'd)
      \<Rightarrow> ('d \<Rightarrow> receipt_key \<Rightarrow> bool) \<Rightarrow> ('s \<Rightarrow> bool) \<Rightarrow> receipt_key set \<Rightarrow> 's
      \<Rightarrow> (receipt_key \<times> bool) list \<Rightarrow> 's \<Rightarrow> bool"
  for run n db has ok K where
  start: "delivery_history run n db has ok K s [] s"
| deliver: "delivery_history run n db has ok K s log u \<Longrightarrow> ok u \<Longrightarrow> run c u = (r, v) \<Longrightarrow>
    delivery_history run n db has ok K s (log @ [(receipt_key n (ctx_envelope c), db v \<noteq> db u)]) v"
| other: "delivery_history run n db has ok K s log u \<Longrightarrow> (\<forall>k \<in> K. has (db u) k \<longrightarrow> has (db v) k) \<Longrightarrow>
    delivery_history run n db has ok K s log v"

locale inbox_contract =
  fixes I :: "('s, 't) inbox_store"
    and db :: "'s \<Rightarrow> 'd"
    and view :: "'t \<Rightarrow> 'd"
    and has :: "'d \<Rightarrow> receipt_key \<Rightarrow> bool"
    and ok :: "'s \<Rightarrow> bool"
    and fresh :: "'t \<Rightarrow> bool"
  assumes begin_ok: "ok s \<Longrightarrow> ib_begin I s = (Inr t, s') \<Longrightarrow>
      db s' = db s \<and> view t = db s \<and> fresh t"
    and begin_error: "ib_begin I s = (Inl e, s') \<Longrightarrow> db s' = db s"
    and record_new: "ib_record I n env t = (Inr True, t') \<Longrightarrow>
      \<not> has (view t) (receipt_key n env) \<and> has (view t') (receipt_key n env)"
    and record_keeps: "ib_record I n env t = (Inr True, t') \<Longrightarrow> has (view t) k \<Longrightarrow> has (view t') k"
    and record_old: "fresh t \<Longrightarrow> ib_record I n env t = (Inr False, t') \<Longrightarrow>
      has (view t) (receipt_key n env) \<and> view t' = view t"
    and commit_ok: "ib_commit I t s = (Inr u, s') \<Longrightarrow> db s' = view t"
    and commit_error: "ib_commit I t s = (Inl e, s') \<Longrightarrow> db s' = db s \<or> db s' = view t"
begin

lemma commit_with_cases:
  assumes "commit_with I t a s = (r, s')"
  shows "(r = Inr a \<and> db s' = view t)
    \<or> (\<exists>e. r = Inl (failure_from_store e) \<and> (db s' = db s \<or> db s' = view t))"
  using assms commit_ok commit_error
  by (cases r) (fastforce simp: commit_with_def io_simps)+

text \<open>The handler, the write of what it published and the commit, once the receipt is recorded.\<close>

lemma handled_cases:
  assumes h: "handler_ok db view has h"
    and run: "and_then_io (call h c) (write_and_commit I w) s = (r, s')"
  shows "db s' = db s \<and> \<not> is_ok r
    \<or> (\<exists>c' u' held t2. call h c s = (Inr c', u') \<and> w (ctx_transaction c') (ctx_held c') = (Inr held, t2)
        \<and> (is_ok r \<longrightarrow> r = Inr held) \<and> db s' = view t2)"
proof -
  obtain p s2 where p: "call h c s = (p, s2)" by (cases "call h c s")
  have s2: "db s2 = db s" using h p by (auto simp: handler_ok_def)
  show ?thesis
  proof (cases p)
    case (Inl e)
    then show ?thesis using run p s2 by (auto simp: and_then_io_def)
  next
    case P: (Inr c')
    obtain v t2 where v: "w (ctx_transaction c') (ctx_held c') = (v, t2)"
      by (cases "w (ctx_transaction c') (ctx_held c')")
    have fin: "write_and_commit I w c' s2 = (r, s')" using run p P by (simp add: and_then_io_def)
    show ?thesis
    proof (cases v)
      case (Inl e)
      then show ?thesis using fin v s2 by (auto simp: write_and_commit_def io_simps)
    next
      case (Inr held)
      then have "commit_with I t2 held s2 = (r, s')" using fin v by (simp add: write_and_commit_def)
      from commit_with_cases [OF this]
      have "db s' = db s \<and> \<not> is_ok r \<or> (is_ok r \<longrightarrow> r = Inr held) \<and> db s' = view t2"
        using s2 by auto
      then show ?thesis using p P v Inr by blast
    qed
  qed
qed

text \<open>
  What a run does to the database: nothing; or it is the commit of a transaction that recorded the
  message for the first time, ran the handler and wrote what the handler published.
\<close>

lemma run_cases:
  assumes run: "transactional_run n hs I w c s = (r, s')"
    and hs: "\<forall>h. om_get hs (env_type (ctx_envelope c)) = Some h \<longrightarrow> handler_ok db view has h"
    and ok: "ok s"
  shows "db s' = db s \<and> (is_ok r \<longrightarrow> r = Inr [] \<and> has (db s) (receipt_key n (ctx_envelope c)))
    \<or> (\<exists>h t t1 u c' u' held t2. om_get hs (env_type (ctx_envelope c)) = Some h
        \<and> ib_begin I s = (Inr t, u) \<and> ib_record I n (ctx_envelope c) t = (Inr True, t1)
        \<and> call h (fst (with_transaction c t1)) u = (Inr c', u')
        \<and> w (ctx_transaction c') (ctx_held c') = (Inr held, t2)
        \<and> (is_ok r \<longrightarrow> r = Inr held) \<and> db s' = view t2)"
proof (cases "find_handler hs n (ctx_envelope c)")
  case (Inl e)
  then show ?thesis using run by (auto simp: transactional_run_def and_then_io_def io_simps)
next
  case (Inr h)
  then have get: "om_get hs (env_type (ctx_envelope c)) = Some h"
    by (auto simp: find_handler_def result_simps)
  then have h: "handler_ok db view has h" using hs by blast
  obtain b s1 where b: "ib_begin I s = (b, s1)" by (cases "ib_begin I s")
  show ?thesis
  proof (cases b)
    case (Inl e)
    then show ?thesis using run Inr b begin_error
      by (auto simp: transactional_run_def and_then_io_def map_err_io_def io_simps)
  next
    case B: (Inr t)
    obtain q t1 where q: "ib_record I n (ctx_envelope c) t = (q, t1)"
      by (cases "ib_record I n (ctx_envelope c) t")
    have s1: "db s1 = db s" "view t = db s" "fresh t" using begin_ok [OF ok] b B by auto
    have step: "transactional_run n hs I w c s =
      (case q of Inl e \<Rightarrow> throw_io (failure_from_store e)
       | Inr recorded \<Rightarrow> if \<not> recorded then commit_with I t1 []
         else and_then_io (call h (fst (with_transaction c t1))) (write_and_commit I w)) s1"
      using Inr b B q
      by (simp add: transactional_run_def and_then_io_def map_err_io_def io_simps split: sum.splits)
    consider (err) e where "q = Inl e" | (old) "q = Inr False" | (new) "q = Inr True"
      by (cases q) auto
    then show ?thesis
    proof cases
      case err
      then show ?thesis using run step s1 by (auto simp: io_simps)
    next
      case old
      from old have "has (db s) (receipt_key n (ctx_envelope c))" "view t1 = db s"
        using record_old [OF s1(3), of n "ctx_envelope c" t1] q old s1 by auto
      moreover have "commit_with I t1 [] s1 = (r, s')" using run step old by simp
      ultimately show ?thesis using commit_with_cases s1 by fastforce
    next
      case new
      then have "and_then_io (call h (fst (with_transaction c t1))) (write_and_commit I w) s1 = (r, s')"
        using run step by simp
      from handled_cases [OF h this] show ?thesis
        using get s1 b B q new by (elim disjE) (simp, blast)
    qed
  qed
qed

text \<open>
  The database changes only by the commit of a transaction that holds the receipt, and every
  receipt the database had.
\<close>

lemma run_atomic:
  assumes run: "transactional_run n hs I w c s = (r, s')"
    and hs: "\<And>h. om_get hs (env_type (ctx_envelope c)) = Some h \<Longrightarrow> handler_ok db view has h"
    and w: "write_ok view has w" and ok: "ok s"
  shows "db s' = db s \<or> has (db s') (receipt_key n (ctx_envelope c))
      \<and> (\<forall>k. has (db s) k \<longrightarrow> has (db s') k)"
    and "r = Inr held \<Longrightarrow> has (db s') (receipt_key n (ctx_envelope c))"
proof -
  let ?k = "receipt_key n (ctx_envelope c)" and ?kept = "\<lambda>d. \<forall>k. has (db s) k \<longrightarrow> has d k"
  have "has (db s') ?k \<and> ?kept (db s')"
    if get: "om_get hs (env_type (ctx_envelope c)) = Some h" and b: "ib_begin I s = (Inr t, u)"
      and q: "ib_record I n (ctx_envelope c) t = (Inr True, t1)"
      and p: "call h (fst (with_transaction c t1)) u = (Inr c', u')"
      and v: "w (ctx_transaction c') (ctx_held c') = (Inr held, t2)" and d: "db s' = view t2"
    for h t t1 u c' u' held t2
  proof -
    have "has (view t1) ?k \<and> ?kept (view t1)"
      using record_new [OF q] record_keeps [OF q] begin_ok [OF ok b] by simp
    moreover have "has (view (ctx_transaction (fst (with_transaction c t1)))) k
        \<longrightarrow> has (view (ctx_transaction c')) k" for k
      using hs [OF get] p unfolding handler_ok_def by blast
    ultimately have "has (view (ctx_transaction c')) ?k \<and> ?kept (view (ctx_transaction c'))"
      by (simp add: with_transaction_def)
    then show ?thesis using w v unfolding write_ok_def d by blast
  qed
  moreover have "\<forall>h. om_get hs (env_type (ctx_envelope c)) = Some h \<longrightarrow> handler_ok db view has h"
    using hs by blast
  note run_cases [OF run this ok]
  ultimately have "(db s' = db s \<or> has (db s') ?k \<and> ?kept (db s')) \<and> (is_ok r \<longrightarrow> has (db s') ?k)"
    by (elim disjE exE conjE) (simp, blast)
  then show "db s' = db s \<or> has (db s') ?k \<and> ?kept (db s')" and "r = Inr held \<Longrightarrow> has (db s') ?k"
    by auto
qed

text \<open>
  A message with a receipt does not run its handler: the step is the same whatever the handler
  and the outbox are, leaves the database as it is and has nothing to publish.
\<close>

lemma run_again:
  assumes "has (db s) (receipt_key n (ctx_envelope c))"
    and "find_handler hs n (ctx_envelope c) = Inr h" and "find_handler hs' n (ctx_envelope c) = Inr h'"
    and ok: "ok s"
  shows "transactional_run n hs I w c s = transactional_run n hs' I w' c s"
    and "transactional_run n hs I w c s = (r, s') \<Longrightarrow>
      db s' = db s \<and> (\<forall>held. r = Inr held \<longrightarrow> held = [])"
proof -
  obtain b s1 where b: "ib_begin I s = (b, s1)" by (cases "ib_begin I s")
  have "transactional_run n hs I w c s = transactional_run n hs' I w' c s
    \<and> (transactional_run n hs I w c s = (r, s') \<longrightarrow>
        db s' = db s \<and> (\<forall>held. r = Inr held \<longrightarrow> held = []))"
  proof (cases b)
    case (Inl e)
    then show ?thesis using assms(2,3) b begin_error
      by (auto simp: transactional_run_def and_then_io_def map_err_io_def io_simps)
  next
    case B: (Inr t)
    obtain q t1 where q: "ib_record I n (ctx_envelope c) t = (q, t1)"
      by (cases "ib_record I n (ctx_envelope c) t")
    have s1: "db s1 = db s" "view t = db s" "fresh t" using begin_ok [OF ok] b B by auto
    have "q \<noteq> Inr True" using record_new [of n "ctx_envelope c" t t1] q s1 assms(1) by auto
    then consider (err) e where "q = Inl e" | (old) "q = Inr False" by (cases q) auto
    then show ?thesis
    proof cases
      case err
      then show ?thesis using assms(2,3) b B q s1
        by (auto simp: transactional_run_def and_then_io_def map_err_io_def io_simps)
    next
      case old
      then have "view t1 = db s" using record_old [OF s1(3), of n "ctx_envelope c" t1] q old s1 by auto
      moreover have "transactional_run n hs I w c s = commit_with I t1 [] s1"
        "transactional_run n hs' I w' c s = commit_with I t1 [] s1"
        using assms(2,3) b B q old
        by (simp_all add: transactional_run_def and_then_io_def map_err_io_def io_simps)
      ultimately show ?thesis using commit_with_cases [of t1 "[]" s1 r s'] s1 by auto
    qed
  qed
  then show "transactional_run n hs I w c s = transactional_run n hs' I w' c s"
    and "transactional_run n hs I w c s = (r, s') \<Longrightarrow>
      db s' = db s \<and> (\<forall>held. r = Inr held \<longrightarrow> held = [])"
    by blast+
qed

lemma run_recorded:
  assumes "has (db s) (receipt_key n (ctx_envelope c))" and "ok s"
    and run: "transactional_run n hs I w c s = (r, s')"
  shows "db s' = db s"
proof (cases "find_handler hs n (ctx_envelope c)")
  case (Inl e)
  then show ?thesis using run by (auto simp: transactional_run_def and_then_io_def io_simps)
next
  case (Inr h)
  then show ?thesis using run_again(2) [OF assms(1) Inr Inr assms(2) run] by blast
qed

text \<open>The log of any history of deliveries says of at most one per message that it had an effect.\<close>

lemma effect_at_most_once:
  assumes hs: "\<And>t h. om_get hs t = Some h \<Longrightarrow> handler_ok db view has h" and w: "write_ok view has w"
    and k: "k \<in> K"
  shows "delivery_history (transactional_run n hs I w) n db has ok K s log s' \<Longrightarrow>
    length (filter (\<lambda>(k', effect). k' = k \<and> effect) log) \<le> (if has (db s') k then 1 else 0)"
proof (induction rule: delivery_history.induct)
  case (deliver s log u c r v)
  let ?k = "receipt_key n (ctx_envelope c)"
  note step = run_atomic(1) [OF deliver.hyps(3) _ w deliver.hyps(2)]
  have kept: "db v = db u \<or> has (db v) ?k \<and> (\<forall>k. has (db u) k \<longrightarrow> has (db v) k)"
    using step hs by blast
  have new: "db v \<noteq> db u \<Longrightarrow> \<not> has (db u) ?k"
    using run_recorded [OF _ deliver.hyps(2,3)] by blast
  show ?case
  proof (cases "db v = db u")
    case True
    then show ?thesis using deliver.IH by simp
  next
    case False
    then have "has (db v) ?k" "\<not> has (db u) ?k" "has (db u) k \<Longrightarrow> has (db v) k"
      using kept new by blast+
    then show ?thesis using deliver.IH by (cases "k = ?k") (auto split: if_splits)
  qed
next
  case (other s log u v)
  then have "has (db u) k \<Longrightarrow> has (db v) k" using k by blast
  then show ?case using other.IH by (auto split: if_splits)
qed simp

end

end
