(* ===== verification/Dispatch.thy ===== *)
theory Dispatch
  imports Handler "HOL-Library.Sublist"
begin

text \<open>
  The dispatcher (\<open>runtime/src/dispatch.rs\<close>): the worker that publishes committed outbox rows.
  What it asks of Tokio, the stop signal, the monotonic clock, a publish with a deadline and the
  wait between rounds, is the record \<open>runtime_env\<close>. What it asks of a store and a transport is the
  locale \<open>outbox_contract\<close>: how the world may evolve, which every call keeps to; \<open>Delivery\<close>
  interprets it with the PostgreSQL outbox.
\<close>

record dispatch_settings =
  ds_poll_interval :: duration
  ds_batch_size :: nat
  ds_lease :: duration
  ds_retry :: retry_policy

definition invalid :: "dispatch_settings \<Rightarrow> string option" where
  "invalid settings =
     (if ds_batch_size settings = 0 then Some ''`batch_size` is 0''
      else if ds_lease settings = 0 then Some ''`lease` is 0''
      else if ds_poll_interval settings = 0 then Some ''`poll_interval` is 0''
      else None)"

definition dispatch_default :: dispatch_settings where
  "dispatch_default =
     \<lparr>ds_poll_interval = from_secs 1, ds_batch_size = 100, ds_lease = from_secs 30,
      ds_retry = retry_default\<lparr>attempts := 10\<rparr>\<rparr>"

text \<open>
  \<open>rt_timeout_at deadline f\<close> is \<open>None\<close> when the deadline passed first; \<open>rt_sleep d\<close> returns whether
  the stop signal came before \<open>d\<close> had passed.
\<close>

record 's runtime_env =
  rt_stopping :: "'s \<Rightarrow> bool"
  rt_instant :: "'s \<Rightarrow> nat"
  rt_timeout_at ::
    "nat \<Rightarrow> ('s, transport_error, unit) io \<Rightarrow> 's
      \<Rightarrow> (transport_error, unit) result option \<times> 's"
  rt_sleep :: "duration \<Rightarrow> 's \<Rightarrow> bool \<times> 's"

definition put_back ::
    "('s, 'c) outbox_store \<Rightarrow> dispatch_settings \<Rightarrow> outbox_record \<Rightarrow> string \<Rightarrow> 's \<Rightarrow> 's" where
  "put_back store settings record error s =
     (let attempt = saturating_add_u32 (rec_attempts record) 1 in
      if is_last (ds_retry settings) attempt
      then snd (ob_mark_failed store record error s)
      else snd (ob_mark_retry store record error (delay (ds_retry settings) attempt) s))"

text \<open>The loop over the claimed records: the records published so far, and the state.\<close>

fun publish_batch ::
    "('s, 'c) outbox_store \<Rightarrow> ('s, 'q) transport \<Rightarrow> dispatch_settings \<Rightarrow> 's runtime_env \<Rightarrow> nat
      \<Rightarrow> outbox_record list \<Rightarrow> outbox_record list \<Rightarrow> 's \<Rightarrow> outbox_record list \<times> 's" where
  "publish_batch store T settings env claimed_at [] published s = (published, s)"
| "publish_batch store T settings env claimed_at (r # records) published s =
     (if rt_stopping env s \<or> ds_lease settings \<le> rt_instant env s - claimed_at
      then (published, s)
      else (case rt_timeout_at env (claimed_at + ds_lease settings)
                   (tr_publish T (rec_envelope r)) s of
          (Some (Inr _), s') \<Rightarrow>
            publish_batch store T settings env claimed_at records (published @ [r]) s'
        | (Some (Inl error), s') \<Rightarrow>
            publish_batch store T settings env claimed_at records published
              (put_back store settings r (transport_error_text error) s')
        | (None, s') \<Rightarrow> (published, s')))"

definition dispatch_round ::
    "('s, 'c) outbox_store \<Rightarrow> ('s, 'q) transport \<Rightarrow> dispatch_settings \<Rightarrow> 's runtime_env \<Rightarrow> 's
      \<Rightarrow> bool \<times> 's" where
  "dispatch_round store T settings env s =
     (let claimed_at = rt_instant env s in
      case ob_claim store (ds_batch_size settings) (ds_lease settings) s of
        (Inl _, s) \<Rightarrow> (False, s)
      | (Inr records, s) \<Rightarrow>
          (case publish_batch store T settings env claimed_at records [] s of
             (published, s) \<Rightarrow>
               (length published = ds_batch_size settings,
                if published \<noteq> [] then snd (ob_mark_dispatched store published s) else s)))"

text \<open>The loop of the worker; a loop that is never stopped has no value.\<close>

partial_function (option) dispatch_run ::
    "('s, 'c) outbox_store \<Rightarrow> ('s, 'q) transport \<Rightarrow> dispatch_settings \<Rightarrow> 's runtime_env \<Rightarrow> 's
      \<Rightarrow> 's option" where
  "dispatch_run store T settings env s =
     (let full = fst (dispatch_round store T settings env s);
          s' = snd (dispatch_round store T settings env s) in
      if full \<and> \<not> rt_stopping env s' then dispatch_run store T settings env s'
      else (let stopped = fst (rt_sleep env (ds_poll_interval settings) s');
                s'' = snd (rt_sleep env (ds_poll_interval settings) s') in
        if stopped then Some s'' else dispatch_run store T settings env s''))"

section \<open>Lemmas\<close>

lemma invalid_None_iff:
  "invalid settings = None \<longleftrightarrow>
    0 < ds_batch_size settings \<and> 0 < ds_lease settings \<and> 0 < ds_poll_interval settings"
  by (auto simp: invalid_def)

lemma dispatch_default_valid: "invalid dispatch_default = None"
  by (simp add: invalid_None_iff dispatch_default_def from_secs_def)

lemma publish_batch_published:
  "publish_batch store T settings env c rs ps s = (out, s') \<Longrightarrow>
    \<exists>qs. out = ps @ qs \<and> subseq qs rs"
proof (induction store T settings env c rs ps s rule: publish_batch.induct)
  case (2 store T settings env c r rs ps s)
  then show ?case
    by (fastforce split: if_splits prod.splits option.splits sum.splits)
qed auto

text \<open>A dispatcher that sees the stop signal publishes nothing more.\<close>

lemma publish_batch_stopping:
  "rt_stopping env s \<Longrightarrow> publish_batch store T settings env c rs ps s = (ps, s)"
  by (cases rs) simp_all

text \<open>Past the lease of its claim it publishes nothing more either.\<close>

lemma publish_batch_expired:
  "c + ds_lease settings \<le> rt_instant env s \<Longrightarrow>
    publish_batch store T settings env c rs ps s = (ps, s)"
proof (cases rs)
  case (Cons r rs')
  assume "c + ds_lease settings \<le> rt_instant env s"
  then have "ds_lease settings \<le> rt_instant env s - c" by linarith
  then show ?thesis using Cons by simp
qed simp

text \<open>A round that finds fewer rows than a batch, or none published, does not ask for another.\<close>

lemma dispatch_round_full:
  assumes "dispatch_round store T settings env s = (True, s')" and "0 < ds_batch_size settings"
  shows "\<exists>rs s1. ob_claim store (ds_batch_size settings) (ds_lease settings) s = (Inr rs, s1)
    \<and> ds_batch_size settings \<le> length rs"
proof -
  obtain rs s1 where cl: "ob_claim store (ds_batch_size settings) (ds_lease settings) s = (Inr rs, s1)"
    using assms(1) by (auto simp: dispatch_round_def Let_def split: prod.splits sum.splits)
  obtain ps s2 where ps: "publish_batch store T settings env (rt_instant env s) rs [] s1 = (ps, s2)"
    by (cases "publish_batch store T settings env (rt_instant env s) rs [] s1")
  have "length ps = ds_batch_size settings"
    using assms(1) cl ps by (auto simp: dispatch_round_def Let_def)
  then show ?thesis using cl publish_batch_published [OF ps] list_emb_length by fastforce
qed

section \<open>Turns of the loop\<close>

text \<open>One pass of the loop: whether the signal ended it, and the state.\<close>

definition dispatch_turn ::
    "('s, 'c) outbox_store \<Rightarrow> ('s, 'q) transport \<Rightarrow> dispatch_settings \<Rightarrow> 's runtime_env \<Rightarrow> 's
      \<Rightarrow> bool \<times> 's" where
  "dispatch_turn store T settings env s =
     (let full = fst (dispatch_round store T settings env s);
          s' = snd (dispatch_round store T settings env s) in
      if full \<and> \<not> rt_stopping env s' then (False, s')
      else rt_sleep env (ds_poll_interval settings) s')"

fun dispatch_turns ::
    "('s, 'c) outbox_store \<Rightarrow> ('s, 'q) transport \<Rightarrow> dispatch_settings \<Rightarrow> 's runtime_env \<Rightarrow> nat \<Rightarrow> 's
      \<Rightarrow> 's" where
  "dispatch_turns store T settings env 0 s = s"
| "dispatch_turns store T settings env (Suc n) s =
     dispatch_turns store T settings env n (snd (dispatch_turn store T settings env s))"

lemma dispatch_turns_snoc:
  "dispatch_turns store T settings env (Suc n) s
    = snd (dispatch_turn store T settings env (dispatch_turns store T settings env n s))"
  by (induction n arbitrary: s) simp_all

lemma dispatch_run_turn:
  "dispatch_run store T settings env s =
    (if fst (dispatch_turn store T settings env s)
     then Some (snd (dispatch_turn store T settings env s))
     else dispatch_run store T settings env (snd (dispatch_turn store T settings env s)))"
  by (subst dispatch_run.simps) (simp add: dispatch_turn_def Let_def)

lemma dispatch_run_turns:
  assumes "dispatch_run store T settings env s = Some t"
  shows "\<exists>n. fst (dispatch_turn store T settings env (dispatch_turns store T settings env n s))
      \<and> (\<forall>m < n. \<not> fst (dispatch_turn store T settings env (dispatch_turns store T settings env m s)))
      \<and> t = dispatch_turns store T settings env (Suc n) s"
  using assms
proof (rule dispatch_run.raw_induct [where P = "\<lambda>store T settings env s t.
      \<exists>n. fst (dispatch_turn store T settings env (dispatch_turns store T settings env n s))
        \<and> (\<forall>m < n. \<not> fst (dispatch_turn store T settings env (dispatch_turns store T settings env m s)))
        \<and> t = dispatch_turns store T settings env (Suc n) s", rotated])
  fix go store T settings env s t
  let ?turn = "dispatch_turn store T settings env"
  assume ih: "\<And>store T settings env s y. go store T settings env s = Some y \<Longrightarrow>
      \<exists>n. fst (dispatch_turn store T settings env (dispatch_turns store T settings env n s))
        \<and> (\<forall>m < n. \<not> fst (dispatch_turn store T settings env (dispatch_turns store T settings env m s)))
        \<and> y = dispatch_turns store T settings env (Suc n) s"
    and body: "(let full = fst (dispatch_round store T settings env s);
          s' = snd (dispatch_round store T settings env s) in
        if full \<and> \<not> rt_stopping env s' then go store T settings env s'
        else (let stopped = fst (rt_sleep env (ds_poll_interval settings) s');
                  s'' = snd (rt_sleep env (ds_poll_interval settings) s') in
          if stopped then Some s'' else go store T settings env s'')) = Some t"
  from body have step: "(if fst (?turn s) then Some (snd (?turn s)) else go store T settings env (snd (?turn s)))
      = Some t"
    by (auto simp add: dispatch_turn_def Let_def split: if_splits)
  show "\<exists>n. fst (?turn (dispatch_turns store T settings env n s))
      \<and> (\<forall>m < n. \<not> fst (?turn (dispatch_turns store T settings env m s)))
      \<and> t = dispatch_turns store T settings env (Suc n) s"
  proof (cases "fst (?turn s)")
    case True
    then show ?thesis using step by (intro exI [of _ 0]) simp
  next
    case False
    then obtain n where "fst (?turn (dispatch_turns store T settings env n (snd (?turn s))))"
      "\<forall>m < n. \<not> fst (?turn (dispatch_turns store T settings env m (snd (?turn s))))"
      "t = dispatch_turns store T settings env (Suc n) (snd (?turn s))"
      using ih [of store T settings env "snd (?turn s)" t] step by auto
    then show ?thesis using False by (intro exI [of _ "Suc n"]) (auto simp: less_Suc_eq_0_disj)
  qed
qed

section \<open>The contract of a store and a transport\<close>

locale outbox_contract =
  fixes Ob :: "('s, 'c) outbox_store"
    and T :: "('s, 'q) transport"
    and E :: "'s runtime_env"
    and ok :: "'s \<Rightarrow> bool"
    and evolves :: "'s \<Rightarrow> 's \<Rightarrow> bool"
    and stored :: "'s \<Rightarrow> envelope \<Rightarrow> bool"
    and genuine :: "'s \<Rightarrow> outbox_record \<Rightarrow> bool"
  assumes evolves_refl: "evolves s s"
    and evolves_trans: "evolves s t \<Longrightarrow> evolves t u \<Longrightarrow> evolves s u"
    and ok_stable: "evolves s t \<Longrightarrow> ok s \<Longrightarrow> ok t"
    and stored_stable: "evolves s t \<Longrightarrow> stored s e \<Longrightarrow> stored t e"
    and genuine_stable: "ok s \<Longrightarrow> evolves s t \<Longrightarrow> genuine s r \<Longrightarrow> genuine t r"
    and claim_evolves: "ob_claim Ob n l s = (claimed, t) \<Longrightarrow> evolves s t"
    and claim_genuine: "ok s \<Longrightarrow> ob_claim Ob n l s = (Inr rs, t) \<Longrightarrow> r \<in> set rs \<Longrightarrow> genuine t r"
    and publish_evolves: "rt_timeout_at E d (tr_publish T e) s = (sent, t) \<Longrightarrow> evolves s t"
    and publish_stored: "rt_timeout_at E d (tr_publish T e) s = (Some (Inr ()), t) \<Longrightarrow> stored t e"
    and mark_dispatched_evolves:
      "ok s \<Longrightarrow> (\<And>r. r \<in> set rs \<Longrightarrow> genuine s r \<and> stored s (rec_envelope r)) \<Longrightarrow>
        ob_mark_dispatched Ob rs s = (res, t) \<Longrightarrow> evolves s t"
    and mark_retry_evolves:
      "genuine s r \<Longrightarrow> ob_mark_retry Ob r x w s = (res, t) \<Longrightarrow> evolves s t"
    and mark_failed_evolves:
      "genuine s r \<Longrightarrow> ob_mark_failed Ob r x s = (res, t) \<Longrightarrow> evolves s t"
    and sleep_evolves: "rt_sleep E w s = (b, t) \<Longrightarrow> evolves s t"
begin

lemma put_back_evolves: "genuine s r \<Longrightarrow> evolves s (put_back Ob settings r x s)"
  unfolding put_back_def Let_def
  using mark_failed_evolves mark_retry_evolves by (metis prod.collapse)

lemma publish_batch_evolves:
  "publish_batch Ob T settings E c rs ps s = (out, t) \<Longrightarrow> ok s \<Longrightarrow>
    (\<And>r. r \<in> set rs \<Longrightarrow> genuine s r) \<Longrightarrow>
    (\<And>r. r \<in> set ps \<Longrightarrow> genuine s r \<and> stored s (rec_envelope r)) \<Longrightarrow>
    evolves s t \<and> (\<forall>r \<in> set out. genuine t r \<and> stored t (rec_envelope r))"
proof (induction rs arbitrary: ps s)
  case Nil
  then show ?case using evolves_refl by auto
next
  case (Cons r rs)
  show ?case
  proof (cases "rt_stopping E s \<or> ds_lease settings \<le> rt_instant E s - c")
    case True
    then show ?thesis using Cons.prems evolves_refl by auto
  next
    case False
    obtain res u where p: "rt_timeout_at E (c + ds_lease settings) (tr_publish T (rec_envelope r)) s
        = (res, u)"
      by (cases "rt_timeout_at E (c + ds_lease settings) (tr_publish T (rec_envelope r)) s")
    note su = publish_evolves [OF p]
    have u: "ok u" by (rule ok_stable [OF su Cons.prems(2)])
    have g: "genuine u q" if "q \<in> set (r # rs)" for q
      using genuine_stable [OF Cons.prems(2) su] Cons.prems(3) that by blast
    have ps: "genuine u q \<and> stored u (rec_envelope q)" if "q \<in> set ps" for q
      using genuine_stable [OF Cons.prems(2) su] stored_stable [OF su] Cons.prems(4) that by blast
    consider (none) "res = None" | (ok) "res = Some (Inr ())" | (err) x where "res = Some (Inl x)"
    proof (cases res)
      case None
      then show ?thesis by (rule none)
    next
      case (Some y)
      then show ?thesis using ok err by (cases y) auto
    qed
    then show ?thesis
    proof cases
      case none
      then show ?thesis using Cons.prems(1) False p su ps by auto
    next
      case ok
      have "publish_batch Ob T settings E c rs (ps @ [r]) u = (out, t)"
        using Cons.prems(1) False p ok by simp
      moreover have "stored u (rec_envelope r)" using publish_stored p ok by auto
      then have "genuine u q \<and> stored u (rec_envelope q)" if "q \<in> set (ps @ [r])" for q
        using g [of r] ps [of q] that by auto
      ultimately have "evolves u t \<and> (\<forall>r \<in> set out. genuine t r \<and> stored t (rec_envelope r))"
        by (intro Cons.IH [of "ps @ [r]" u]) (simp_all add: g u)
      then show ?thesis using evolves_trans su by blast
    next
      case err
      let ?v = "put_back Ob settings r (transport_error_text x) u"
      have uv: "evolves u ?v" using put_back_evolves g by simp
      have "publish_batch Ob T settings E c rs ps ?v = (out, t)"
        using Cons.prems(1) False p err by simp
      then have "evolves ?v t \<and> (\<forall>r \<in> set out. genuine t r \<and> stored t (rec_envelope r))"
        using Cons.IH g ps genuine_stable [OF u uv] stored_stable [OF uv] ok_stable [OF uv u]
        by (meson list.set_intros(2))
      then show ?thesis using evolves_trans su uv by blast
    qed
  qed
qed

lemma round_evolves:
  assumes "ok s"
  shows "evolves s (snd (dispatch_round Ob T settings E s))"
proof -
  obtain res u where cl: "ob_claim Ob (ds_batch_size settings) (ds_lease settings) s = (res, u)"
    by (cases "ob_claim Ob (ds_batch_size settings) (ds_lease settings) s")
  note su = claim_evolves [OF cl]
  show ?thesis
  proof (cases res)
    case (Inl e)
    then show ?thesis using cl su by (simp add: dispatch_round_def)
  next
    case (Inr rs)
    obtain ps v where pb: "publish_batch Ob T settings E (rt_instant E s) rs [] u = (ps, v)"
      by (cases "publish_batch Ob T settings E (rt_instant E s) rs [] u")
    have b: "evolves u v" "\<And>r. r \<in> set ps \<Longrightarrow> genuine v r \<and> stored v (rec_envelope r)"
      using publish_batch_evolves [OF pb ok_stable [OF su assms]] claim_genuine [OF assms] cl Inr by auto
    obtain res' w where m: "ob_mark_dispatched Ob ps v = (res', w)"
      by (cases "ob_mark_dispatched Ob ps v")
    have "ok v" by (rule ok_stable [OF b(1) ok_stable [OF su assms]])
    then have "evolves v w" using mark_dispatched_evolves [OF _ b(2) m] by blast
    have end_state: "snd (dispatch_round Ob T settings E s) = (if ps \<noteq> [] then w else v)"
      using cl Inr pb m by (simp add: dispatch_round_def Let_def)
    have "evolves s v" by (rule evolves_trans [OF su b(1)])
    moreover have "evolves s w" by (rule evolves_trans [OF calculation \<open>evolves v w\<close>])
    ultimately show ?thesis unfolding end_state by simp
  qed
qed

lemma turn_evolves:
  assumes "ok s"
  shows "evolves s (snd (dispatch_turn Ob T settings E s))"
proof -
  let ?s = "snd (dispatch_round Ob T settings E s)"
  have "evolves s ?s" by (rule round_evolves [OF assms])
  moreover have "evolves ?s (snd (rt_sleep E (ds_poll_interval settings) ?s))"
    using sleep_evolves by (metis prod.collapse)
  ultimately show ?thesis using evolves_trans by (simp add: dispatch_turn_def Let_def)
qed

lemma turns_evolve: "ok s \<Longrightarrow> evolves s (dispatch_turns Ob T settings E n s)"
proof (induction n arbitrary: s)
  case 0
  then show ?case by (simp add: evolves_refl)
next
  case (Suc n)
  note step = turn_evolves [OF Suc.prems, of settings]
  show ?case using evolves_trans [OF step Suc.IH [OF ok_stable [OF step Suc.prems]]] by simp
qed

lemma run_evolves: "dispatch_run Ob T settings E s = Some t \<Longrightarrow> ok s \<Longrightarrow> evolves s t"
proof -
  assume "dispatch_run Ob T settings E s = Some t" and ok: "ok s"
  from dispatch_run_turns [OF this(1)] obtain n
    where "t = dispatch_turns Ob T settings E (Suc n) s" by blast
  then show "evolves s t" using turns_evolve [OF ok] by blast
qed

end

section \<open>Properties\<close>

text \<open>
  The dispatcher publishes records it claimed, in their order, and reports only those as
  published; once the stop signal is there or the lease of its claim has run out it publishes nothing
  more and leaves the rest alone.
\<close>

lemma dispatcher_keeps_to_its_claim:
  assumes "publish_batch store T settings env claimed_at records published s = (out, t)"
  shows "(\<exists>sent. out = published @ sent \<and> subseq sent records)
    \<and> (rt_stopping env s \<or> claimed_at + ds_lease settings \<le> rt_instant env s \<longrightarrow>
        out = published \<and> t = s)"
proof -
  have "out = published \<and> t = s" if "rt_stopping env s"
    using publish_batch_stopping [OF that, of store T settings claimed_at records published] assms
    by simp
  moreover have "out = published \<and> t = s" if "claimed_at + ds_lease settings \<le> rt_instant env s"
    using publish_batch_expired [OF that, of store T records published] assms by simp
  ultimately show ?thesis using publish_batch_published [OF assms] by blast
qed

text \<open>A world for the examples: its clock, a broker that takes everything, the stop signal.\<close>

record clock_world =
  k_now :: nat
  k_sent :: "envelope list"
  k_stop :: bool

definition clock_env :: "clock_world runtime_env" where
  "clock_env =
     \<lparr>rt_stopping = k_stop, rt_instant = k_now,
      rt_timeout_at = (\<lambda>_ f s. (Some (fst (f s)), snd (f s))),
      rt_sleep = (\<lambda>d s. (k_stop s, s\<lparr>k_now := k_now s + d, k_stop := 3 \<le> length (k_sent s)\<rparr>))\<rparr>"

definition clock_transport :: "(clock_world, unit) transport" where
  "clock_transport =
     \<lparr>tr_publish = (\<lambda>e s. (Inr (), s\<lparr>k_now := k_now s + 1, k_sent := k_sent s @ [e]\<rparr>)),
      tr_subscribe = (\<lambda>_ s. (Inr (), s)), tr_publish_error = (\<lambda>_ _ s. (Inr (), s))\<rparr>"

definition order_record :: outbox_record where
  "order_record = outbox_record_new order_placed (Timestamp 0 0) 0 (Timestamp 30 0)"

definition clock_store :: "(clock_world, unit) outbox_store" where
  "clock_store =
     \<lparr>ob_insert = (\<lambda>_ c. (Inr (), c)), ob_claim = (\<lambda>_ _ s. (Inr [order_record], s)),
      ob_mark_dispatched = (\<lambda>_ s. (Inr (), s)), ob_mark_retry = (\<lambda>_ _ _ s. (Inr (), s)),
      ob_mark_failed = (\<lambda>_ _ s. (Inr (), s))\<rparr>"

definition short_lease :: dispatch_settings where
  "short_lease = dispatch_default\<lparr>ds_lease := 1, ds_batch_size := 2\<rparr>"

lemmas clock_simps = clock_env_def clock_transport_def clock_store_def short_lease_def
  dispatch_default_def from_secs_def order_record_def outbox_record_new_def

lemma dispatcher_keeps_to_its_claim_example:
  "publish_batch clock_store clock_transport short_lease clock_env 0 [order_record] []
     \<lparr>k_now = 1, k_sent = [], k_stop = False\<rparr> = ([], \<lparr>k_now = 1, k_sent = [], k_stop = False\<rparr>)"
proof -
  obtain out t where p: "publish_batch clock_store clock_transport short_lease clock_env 0
      [order_record] [] \<lparr>k_now = 1, k_sent = [], k_stop = False\<rparr> = (out, t)" by fastforce
  then show ?thesis
    using dispatcher_keeps_to_its_claim [OF p] by (simp add: clock_simps)
qed

end
