(* ===== verification/Maintenance.thy ===== *)
theory Maintenance
  imports Store
begin

text \<open>
  The partition maintenance worker (\<open>runtime/src/maintenance.rs\<close>). The guard of the lock drops
  when \<open>maintain\<close> returns, also on an error. The locale \<open>partition_contract\<close> states what a store
  promises about the rows it guards; \<open>Pg_Partitions\<close> interprets it for what was not sent, and
  \<open>Retention\<close> for receipts.
\<close>

datatype partition_mode = Managed | External

record partition_settings =
  pn_partitions :: partition_mode
  pn_interval :: partition_interval
  pn_ahead :: nat
  pn_retention_days :: "nat option"
  pn_on_expiry :: expiry

definition partition_settings_default :: partition_settings where
  "partition_settings_default =
     \<lparr>pn_partitions = Managed, pn_interval = Day, pn_ahead = 7, pn_retention_days = None,
      pn_on_expiry = Detach\<rparr>"

fun expire_all :: "'s partition_store \<Rightarrow> expiry \<Rightarrow> partition_info list \<Rightarrow> 's \<Rightarrow> 's" where
  "expire_all store mode [] s = s"
| "expire_all store mode (info # rest) s =
     (if 0 < pending_rows info \<or> 0 < failed_rows info
      then expire_all store mode rest s
      else expire_all store mode rest (snd (ps_expire store info mode s)))"

definition apply_retention ::
    "'s partition_store \<Rightarrow> partition_settings \<Rightarrow> date \<Rightarrow> ('s, store_error, unit) io" where
  "apply_retention store settings today =
     (case pn_retention_days settings of
        None \<Rightarrow> return_io ()
      | Some days \<Rightarrow>
          and_then_io (ps_expirable store (add_days today (- int days))) (\<lambda>partitions s.
            (Inr (), expire_all store (pn_on_expiry settings) partitions s)))"

definition maintain_locked ::
    "'s partition_store \<Rightarrow> partition_settings \<Rightarrow> date \<Rightarrow> ('s, store_error, unit) io" where
  "maintain_locked store settings today s =
     (let count = saturating_add_u32 (pn_ahead settings) 1;
          s = snd (ps_ensure_partitions store (pn_interval settings) today count s)
      in and_then_io (ps_default_rows store) (\<lambda>rows. apply_retention store settings today) s)"

definition maintain ::
    "'s partition_store \<Rightarrow> partition_settings \<Rightarrow> date \<Rightarrow> ('s, store_error, unit) io" where
  "maintain store settings today s =
     (case ps_try_lock store s of
        (Inl e, s) \<Rightarrow> (Inl e, s)
      | (Inr locked, s) \<Rightarrow>
          if \<not> locked then (Inr (), s)
          else (case maintain_locked store settings today s of
                  (r, s') \<Rightarrow> (r, ps_unlock store s')))"

text \<open>
  The worker: each round has the clock's time and whether the stop signal came in the wait after
  it. It returns whether it stopped.
\<close>

fun maintenance_run ::
    "'s partition_store \<Rightarrow> partition_settings \<Rightarrow> (timestamp \<times> bool) list \<Rightarrow> 's \<Rightarrow> bool \<times> 's" where
  "maintenance_run store settings [] s = (False, s)"
| "maintenance_run store settings ((now, stop) # rounds) s =
     (let s' = snd (maintain store settings (timestamp_date now) s) in
      if stop then (True, s') else maintenance_run store settings rounds s')"

section \<open>The contract\<close>

text \<open>
  What a store promises of the rows it guards. \<open>clean s p\<close>: expiring the partition \<open>p\<close> takes none of
  them; that holds of what \<open>expirable\<close> finds before a day that is \<open>due\<close>, in a state that is \<open>sound\<close>.
\<close>

locale partition_contract =
  fixes P :: "'s partition_store"
    and guarded :: "'s \<Rightarrow> 'r set"
    and clean :: "'s \<Rightarrow> partition_info \<Rightarrow> bool"
    and sound :: "'s \<Rightarrow> bool"
    and due :: "date \<Rightarrow> bool"
  assumes lock_keeps: "sound s \<Longrightarrow> ps_try_lock P s = (locked, t) \<Longrightarrow> guarded t = guarded s \<and> sound t"
    and unlock_keeps: "sound s \<Longrightarrow> guarded (ps_unlock P s) = guarded s \<and> sound (ps_unlock P s)"
    and ensure_keeps: "sound s \<Longrightarrow> date_ok d \<Longrightarrow> ps_ensure_partitions P i d n s = (ensured, t) \<Longrightarrow>
      guarded t = guarded s \<and> sound t"
    and default_keeps: "sound s \<Longrightarrow> ps_default_rows P s = (counted, t) \<Longrightarrow> guarded t = guarded s \<and> sound t"
    and expirable_keeps: "sound s \<Longrightarrow> ps_expirable P d s = (found, t) \<Longrightarrow> guarded t = guarded s \<and> sound t"
    and expirable_clean: "sound s \<Longrightarrow> due d \<Longrightarrow> ps_expirable P d s = (Inr ps, t) \<Longrightarrow> p \<in> set ps \<Longrightarrow>
      pending_rows p = 0 \<Longrightarrow> failed_rows p = 0 \<Longrightarrow> clean t p"
    and expire_keeps: "sound s \<Longrightarrow> clean s p \<Longrightarrow> ps_expire P p m s = (expired, t) \<Longrightarrow>
      guarded t = guarded s \<and> sound t"
    and expire_clean: "clean s p \<Longrightarrow> clean s q \<Longrightarrow> ps_expire P p m s = (expired, t) \<Longrightarrow> clean t q"
begin

lemma expire_all_keeps:
  assumes "sound s" and "\<And>p. p \<in> set ps \<Longrightarrow> pending_rows p = 0 \<Longrightarrow> failed_rows p = 0 \<Longrightarrow> clean s p"
  shows "guarded (expire_all P m ps s) = guarded s \<and> sound (expire_all P m ps s)"
  using assms
proof (induction ps arbitrary: s)
  case Nil
  then show ?case by simp
next
  case (Cons p ps)
  show ?case
  proof (cases "0 < pending_rows p \<or> 0 < failed_rows p")
    case True
    then show ?thesis using Cons by simp
  next
    case False
    obtain r t where e: "ps_expire P p m s = (r, t)" by (cases "ps_expire P p m s")
    have c: "clean s p" using Cons.prems(2) False by simp
    note k = expire_keeps [OF Cons.prems(1) c e]
    have "guarded (expire_all P m ps t) = guarded t \<and> sound (expire_all P m ps t)"
      using Cons.IH [of t] Cons.prems(2) expire_clean [OF c _ e] k by simp
    then show ?thesis using False e k by simp
  qed
qed

text \<open>The days a retention counts back from today.\<close>

definition retains :: "partition_settings \<Rightarrow> date \<Rightarrow> bool" where
  "retains settings today \<longleftrightarrow>
     (\<forall>days. pn_retention_days settings = Some days \<longrightarrow> due (add_days today (- int days)))"

lemma apply_retention_keeps:
  assumes s: "sound s" and due: "retains settings today"
    and run: "apply_retention P settings today s = (r, t)"
  shows "guarded t = guarded s \<and> sound t"
proof (cases "pn_retention_days settings")
  case None
  then show ?thesis using run s by (simp add: apply_retention_def io_simps)
next
  case (Some days)
  obtain f u where f: "ps_expirable P (add_days today (- int days)) s = (f, u)"
    by (cases "ps_expirable P (add_days today (- int days)) s")
  note k = expirable_keeps [OF s f]
  show ?thesis
  proof (cases f)
    case (Inl e)
    then show ?thesis using run Some f k by (simp add: apply_retention_def and_then_io_def)
  next
    case (Inr ps)
    then have "t = expire_all P (pn_on_expiry settings) ps u"
      using run Some f by (simp add: apply_retention_def and_then_io_def)
    moreover have "clean u p" if "p \<in> set ps" "pending_rows p = 0" "failed_rows p = 0" for p
      using expirable_clean [OF s _ f [unfolded Inr] that] due Some by (simp add: retains_def)
    ultimately show ?thesis using expire_all_keeps k by simp
  qed
qed

lemma maintain_locked_keeps:
  assumes s: "sound s" and today: "date_ok today" and due: "retains settings today"
    and run: "maintain_locked P settings today s = (r, t)"
  shows "guarded t = guarded s \<and> sound t"
proof -
  let ?n = "saturating_add_u32 (pn_ahead settings) 1"
  obtain e u where e: "ps_ensure_partitions P (pn_interval settings) today ?n s = (e, u)"
    by (cases "ps_ensure_partitions P (pn_interval settings) today ?n s")
  obtain c v where c: "ps_default_rows P u = (c, v)" by (cases "ps_default_rows P u")
  have u: "guarded u = guarded s \<and> sound u" by (rule ensure_keeps [OF s today e])
  then have v: "guarded v = guarded s \<and> sound v" using default_keeps [OF _ c] by simp
  have shape: "maintain_locked P settings today s =
      (case c of Inl x \<Rightarrow> (Inl x, v) | Inr n \<Rightarrow> apply_retention P settings today v)"
    using e c by (simp add: maintain_locked_def and_then_io_def Let_def split: sum.splits)
  show ?thesis
    using run shape v apply_retention_keeps [OF _ due, of v r t] by (cases c) auto
qed

text \<open>Maintenance never loses a guarded row, whatever fails on the way.\<close>

lemma maintain_keeps:
  assumes s: "sound s" and today: "date_ok today" and due: "retains settings today"
  shows "guarded (snd (maintain P settings today s)) = guarded s \<and> sound (snd (maintain P settings today s))"
proof -
  obtain l u where l: "ps_try_lock P s = (l, u)" by (cases "ps_try_lock P s")
  obtain r t where m: "maintain_locked P settings today u = (r, t)"
    by (cases "maintain_locked P settings today u")
  have u: "guarded u = guarded s \<and> sound u" by (rule lock_keeps [OF s l])
  have t: "guarded t = guarded u \<and> sound t" using maintain_locked_keeps [OF _ today due m] u by simp
  then show ?thesis
    using l m u unlock_keeps [of t] by (auto simp: maintain_def split: sum.splits)
qed

lemma maintenance_run_keeps:
  assumes "sound s" and "\<forall>(now, stop) \<in> set rounds. retains settings (timestamp_date now)"
  shows "guarded (snd (maintenance_run P settings rounds s)) = guarded s
    \<and> sound (snd (maintenance_run P settings rounds s))"
  using assms
proof (induction rounds arbitrary: s)
  case Nil
  then show ?case by simp
next
  case (Cons r rounds)
  obtain now stop where r: "r = (now, stop)" by (cases r)
  have "date_ok (timestamp_date now)" by (simp add: timestamp_date_def)
  then have "guarded (snd (maintain P settings (timestamp_date now) s)) = guarded s
      \<and> sound (snd (maintain P settings (timestamp_date now) s))"
    using maintain_keeps Cons.prems r by simp
  then show ?case using Cons.IH Cons.prems r by (simp add: Let_def)
qed

end

section \<open>What every store sees of a run\<close>

text \<open>The partitions that \<open>maintain\<close> asks to expire are those without pending and failed rows.\<close>

lemma expire_all_filter:
  "expire_all store mode ps s =
    foldl (\<lambda>s p. snd (ps_expire store p mode s)) s
      (filter (\<lambda>p. pending_rows p = 0 \<and> failed_rows p = 0) ps)"
  by (induction store mode ps s rule: expire_all.induct) auto

text \<open>Without the lock nothing is touched.\<close>

lemma maintain_unlocked:
  "ps_try_lock store s = (Inr False, s') \<Longrightarrow> maintain store settings today s = (Inr (), s')"
  by (simp add: maintain_def)

lemma maintain_unlocks:
  assumes "ps_try_lock store s = (Inr True, s')"
  shows "\<exists>s''. maintain store settings today s =
    (fst (maintain_locked store settings today s'), ps_unlock store s'')"
  using assms by (auto simp: maintain_def split: prod.splits)

section \<open>Properties\<close>

text \<open>
  A maintenance pass that doesn't get the lock does nothing; one that does releases it at its
  end, whatever failed in between, and of the partitions past the retention it expires, in order,
  exactly those that count no pending and no failed row, going on after an error.
\<close>

lemma maintenance_under_lock:
  "(ps_try_lock store s = (Inr False, t) \<longrightarrow> maintain store settings today s = (Inr (), t))
    \<and> (ps_try_lock store s = (Inr True, t) \<longrightarrow> (\<exists>u. maintain store settings today s
          = (fst (maintain_locked store settings today t), ps_unlock store u)))
    \<and> expire_all store mode ps t =
        foldl (\<lambda>s p. snd (ps_expire store p mode s)) t
          (filter (\<lambda>p. pending_rows p = 0 \<and> failed_rows p = 0) ps)"
proof (intro conjI impI)
  show "maintain store settings today s = (Inr (), t)" if "ps_try_lock store s = (Inr False, t)"
    using that by (rule maintain_unlocked)
  show "\<exists>u. maintain store settings today s
      = (fst (maintain_locked store settings today t), ps_unlock store u)"
    if "ps_try_lock store s = (Inr True, t)"
    using that by (rule maintain_unlocks)
qed (rule expire_all_filter)

text \<open>A store whose state is a log, the lock first in it.\<close>

definition log_store :: "string list partition_store" where
  "log_store =
     \<lparr>ps_try_lock = (\<lambda>s. (Inr (s = []), ''lock'' # s)), ps_unlock = (\<lambda>s. ''unlock'' # s),
      ps_ensure_partitions = (\<lambda>_ _ _ s. (Inl (Database ''creating'' ''refused''), s)),
      ps_default_rows = (\<lambda>s. (Inr 0, s)), ps_expirable = (\<lambda>_ s. (Inr [], s)),
      ps_expire = (\<lambda>p _ s. (Inr (), partition_name p # s))\<rparr>"

lemma maintenance_under_lock_example:
  "(\<exists>r u. maintain log_store partition_settings_default (Date 0) [] = (r, ''unlock'' # u))
    \<and> maintain log_store partition_settings_default (Date 0) [''lock''] = (Inr (), [''lock'', ''lock''])"
proof -
  have a: "ps_try_lock log_store [] = (Inr True, [''lock''])"
    and b: "ps_try_lock log_store [''lock''] = (Inr False, [''lock'', ''lock''])"
    and c: "ps_unlock log_store = (\<lambda>s. ''unlock'' # s)"
    by (simp_all add: log_store_def)
  show ?thesis
    using maintenance_under_lock [of log_store "[]" "[''lock'']" partition_settings_default "Date 0" Drop "[]"]
      maintenance_under_lock [of log_store "[''lock'']" "[''lock'', ''lock'']"
        partition_settings_default "Date 0" Drop "[]"] a b
    by (auto simp: c)
qed

end
