(* ===== verification/Bus.thy ===== *)
theory Bus
  imports Inbox_Step Dispatch Maintenance In_Memory
begin

text \<open>
  The bus (\<open>runtime/src/bus.rs\<close>): its builder, \<open>start\<close> and \<open>shutdown\<close>. A worker is the value its
  task was spawned with, and \<open>join\<close> is what awaiting its handle does to the world.
\<close>

record ('s, 'q, 'o) bus_builder =
  bb_source :: string
  bb_transport :: "('s, 'q) transport"
  bb_endpoints :: "(string \<times> (start_error, 's endpoint) result) list"
  bb_maintenance :: "('s partition_store \<times> partition_settings) list"
  bb_outbox :: 'o
  bb_dispatcher :: bool   \<comment> \<open>whether the outbox has a dispatcher\<close>
  bb_dispatch :: dispatch_settings

text \<open>\<open>Bus::builder\<close>; \<open>no_outbox\<close> is \<open>NoOutbox\<close>, which has no dispatcher.\<close>

definition bus_builder_new ::
    "string \<Rightarrow> ('s, 'q) transport \<Rightarrow> 'o \<Rightarrow> ('s, 'q, 'o) bus_builder" where
  "bus_builder_new source T no_outbox =
     \<lparr>bb_source = source, bb_transport = T, bb_endpoints = [], bb_maintenance = [],
      bb_outbox = no_outbox, bb_dispatcher = False, bb_dispatch = dispatch_default\<rparr>"

definition mark_added_before_outbox ::
    "string \<times> (start_error, 's endpoint) result \<Rightarrow> string \<times> (start_error, 's endpoint) result" where
  "mark_added_before_outbox added =
     (case added of
        (n, Inr ep) \<Rightarrow> if ep_transactional ep then (n, Inl (InboxBeforeOutbox n)) else (n, Inr ep)
      | (n, Inl e) \<Rightarrow> (n, Inl e))"

definition with_outbox :: "'p \<Rightarrow> ('s, 'q, 'o) bus_builder \<Rightarrow> ('s, 'q, 'p) bus_builder" where
  "with_outbox store b =
     \<lparr>bb_source = bb_source b, bb_transport = bb_transport b,
      bb_endpoints = map mark_added_before_outbox (bb_endpoints b),
      bb_maintenance = bb_maintenance b, bb_outbox = store, bb_dispatcher = True,
      bb_dispatch = bb_dispatch b\<rparr>"

definition with_dispatch ::
    "dispatch_settings \<Rightarrow> ('s, 'q, 'o) bus_builder \<Rightarrow> ('s, 'q, 'o) bus_builder" where
  "with_dispatch settings b = b\<lparr>bb_dispatch := settings\<rparr>"

definition with_endpoint ::
    "string \<Rightarrow> (('s, unit, 'o) endpoint_builder \<Rightarrow> ('s, 't, 'o) endpoint_builder)
      \<Rightarrow> ('s, 'q, 'o) bus_builder \<Rightarrow> ('s, 'q, 'o) bus_builder" where
  "with_endpoint n configure b =
     (let builder = configure (endpoint_builder_new n)
      in b\<lparr>bb_endpoints := bb_endpoints b @ [(eb_name builder, build (bb_outbox b) builder)]\<rparr>)"

definition with_partitions ::
    "'s partition_store \<Rightarrow> partition_settings \<Rightarrow> ('s, 'q, 'o) bus_builder
      \<Rightarrow> ('s, 'q, 'o) bus_builder" where
  "with_partitions store settings b =
     (if pn_partitions settings = Managed
      then b\<lparr>bb_maintenance := bb_maintenance b @ [(store, settings)]\<rparr> else b)"

section \<open>Starting\<close>

datatype ('s, 'q) bus_worker =
    EndpointWorker "'s endpoint" 'q
  | MaintenanceWorker "'s partition_store" partition_settings
  | DispatchWorker dispatch_settings

record ('s, 'q, 'o) bus =
  bus_source :: source
  bus_endpoints :: "string list"
  bus_outbox :: 'o
  bus_stopped :: bool
  bus_workers :: "('s, 'q) bus_worker list"

definition collect_endpoint ::
    "string list \<times> 's endpoint list \<Rightarrow> string \<times> (start_error, 's endpoint) result
      \<Rightarrow> (start_error, string list \<times> 's endpoint list) result" where
  "collect_endpoint acc added =
     (if fst added \<in> set (fst acc) then Inl (DuplicateEndpoint (fst added))
      else and_then (snd added) (\<lambda>ep. Inr (fst acc @ [fst added], snd acc @ [ep])))"

fun subscribe_all ::
    "('s, 'q) transport \<Rightarrow> 's endpoint list \<Rightarrow> ('s, start_error, ('s endpoint \<times> 'q) list) io" where
  "subscribe_all T [] s = (Inr [], s)"
| "subscribe_all T (ep # eps) s =
     (case tr_subscribe T (endpoint_spec_new (ep_name ep) (ep_message_types ep)) s of
        (Inl error, s') \<Rightarrow> (Inl (Subscribe (ep_name ep) error), s')
      | (Inr deliveries, s') \<Rightarrow>
          (case subscribe_all T eps s' of
             (Inl e, s'') \<Rightarrow> (Inl e, s'')
           | (Inr subscribed, s'') \<Rightarrow> (Inr ((ep, deliveries) # subscribed), s'')))"

definition start ::
    "('s, 'q, 'o) bus_builder \<Rightarrow> ('s, start_error, ('s, 'q, 'o) bus) io" where
  "start b =
     and_then_io (lift_io (map_err EnvelopeStartError (source_new (bb_source b)))) (\<lambda>source.
     case invalid (bb_dispatch b) of
       Some reason \<Rightarrow> throw_io (InvalidDispatchSettings reason)
     | None \<Rightarrow>
         and_then_io (lift_io (try_fold collect_endpoint ([], []) (bb_endpoints b)))
           (\<lambda>(names, endpoints).
         and_then_io (subscribe_all (bb_transport b) endpoints) (\<lambda>subscribed.
         return_io
           \<lparr>bus_source = source,
            bus_endpoints = map (\<lambda>(ep, _). ep_name ep) subscribed,
            bus_outbox = bb_outbox b,
            bus_stopped = False,
            bus_workers =
              map (\<lambda>(ep, deliveries). EndpointWorker ep deliveries) subscribed
              @ map (\<lambda>(store, settings). MaintenanceWorker store settings) (bb_maintenance b)
              @ (if bb_dispatcher b then [DispatchWorker (bb_dispatch b)] else [])\<rparr>)))"

section \<open>Shutting down\<close>

text \<open>The loop pops the last worker once its handle is awaited.\<close>

fun await_workers ::
    "(('s, 'q) bus_worker \<Rightarrow> 's \<Rightarrow> 's) \<Rightarrow> ('s, 'q) bus_worker list \<Rightarrow> 's \<Rightarrow> 's" where
  "await_workers join [] s = s"
| "await_workers join (w # ws) s = join w (await_workers join ws s)"

definition shutdown ::
    "(('s, 'q) bus_worker \<Rightarrow> 's \<Rightarrow> 's) \<Rightarrow> ('s, 'q, 'o) bus \<Rightarrow> 's
      \<Rightarrow> ('s, 'q, 'o) bus \<times> 's" where
  "shutdown join b s =
     (b\<lparr>bus_stopped := True, bus_workers := []\<rparr>, await_workers join (bus_workers b) s)"

section \<open>Lemmas\<close>

lemma collect_endpoints_Inr:
  "try_fold collect_endpoint (names, eps) added = Inr (names', eps') \<longleftrightarrow>
    distinct (map fst added) \<and> set names \<inter> fst ` set added = {}
    \<and> (\<forall>a \<in> set added. is_ok (snd a))
    \<and> names' = names @ map fst added \<and> eps' = eps @ map (projr \<circ> snd) added"
proof (induction added arbitrary: names eps)
  case Nil
  then show ?case by auto
next
  case (Cons a added)
  obtain n r where a: "a = (n, r)" by (cases a)
  show ?case
  proof (cases "n \<in> set names")
    case True
    then show ?thesis using a by (auto simp: collect_endpoint_def)
  next
    case False
    then show ?thesis
      using a Cons [of "names @ [n]"] by (cases r) (auto simp: collect_endpoint_def)
  qed
qed

lemma subscribe_all_Inr:
  "subscribe_all T eps s = (Inr subscribed, s') \<Longrightarrow> map fst subscribed = eps"
  by (induction T eps s arbitrary: subscribed s' rule: subscribe_all.induct)
    (auto split: prod.splits sum.splits)

lemma start_Inr:
  assumes "start b s = (Inr bus, s')"
  shows "source_new (bb_source b) = Inr (bus_source bus)"
    and "invalid (bb_dispatch b) = None"
    and "distinct (map fst (bb_endpoints b))"
    and "\<forall>a \<in> set (bb_endpoints b). is_ok (snd a)"
    and "\<exists>subscribed. map fst subscribed = map (projr \<circ> snd) (bb_endpoints b)
      \<and> subscribe_all (bb_transport b) (map (projr \<circ> snd) (bb_endpoints b)) s = (Inr subscribed, s')
      \<and> bus_workers bus = map (\<lambda>(ep, q). EndpointWorker ep q) subscribed
          @ map (\<lambda>(store, settings). MaintenanceWorker store settings) (bb_maintenance b)
          @ (if bb_dispatcher b then [DispatchWorker (bb_dispatch b)] else [])"
proof -
  from assms obtain source names eps subscribed where
      s: "source_new (bb_source b) = Inr source" and i: "invalid (bb_dispatch b) = None"
      and c: "try_fold collect_endpoint ([], []) (bb_endpoints b) = Inr (names, eps)"
      and sub: "subscribe_all (bb_transport b) eps s = (Inr subscribed, s')"
      and bus: "bus_source bus = source"
        "bus_workers bus = map (\<lambda>(ep, q). EndpointWorker ep q) subscribed
          @ map (\<lambda>(store, settings). MaintenanceWorker store settings) (bb_maintenance b)
          @ (if bb_dispatcher b then [DispatchWorker (bb_dispatch b)] else [])"
    unfolding start_def
    by (auto simp: io_simps result_simps split: option.splits)
  note c' = c [unfolded collect_endpoints_Inr]
  show "source_new (bb_source b) = Inr (bus_source bus)" using s bus by simp
  show "invalid (bb_dispatch b) = None" by (rule i)
  show "distinct (map fst (bb_endpoints b))" "\<forall>a \<in> set (bb_endpoints b). is_ok (snd a)"
    using c' by blast+
  show "\<exists>subscribed. map fst subscribed = map (projr \<circ> snd) (bb_endpoints b)
      \<and> subscribe_all (bb_transport b) (map (projr \<circ> snd) (bb_endpoints b)) s = (Inr subscribed, s')
      \<and> bus_workers bus = map (\<lambda>(ep, q). EndpointWorker ep q) subscribed
          @ map (\<lambda>(store, settings). MaintenanceWorker store settings) (bb_maintenance b)
          @ (if bb_dispatcher b then [DispatchWorker (bb_dispatch b)] else [])"
    using c' sub subscribe_all_Inr [OF sub] bus(2) by auto
qed

text \<open>An endpoint with an inbox that is added before the outbox makes \<open>start\<close> fail.\<close>

lemma inbox_before_outbox:
  assumes "(n, Inr ep) \<in> set (bb_endpoints b)" and "ep_transactional ep"
    and "set (bb_endpoints (with_outbox store b)) \<subseteq> set (bb_endpoints b')"
  shows "\<not> is_ok (fst (start b' s))"
proof
  assume "is_ok (fst (start b' s))"
  then obtain bus s' where "start b' s = (Inr bus, s')"
    by (cases "start b' s") (auto simp: is_ok_iff)
  then have ok: "\<forall>a \<in> set (bb_endpoints b'). is_ok (snd a)" by (rule start_Inr(4))
  have "mark_added_before_outbox (n, Inr ep) \<in> set (bb_endpoints (with_outbox store b))"
    using assms(1) by (force simp: with_outbox_def)
  then have "is_ok (snd (mark_added_before_outbox (n, Inr ep)))" using ok assms(3) by blast
  then show False using assms(2) by (simp add: mark_added_before_outbox_def)
qed

lemma shutdown_workers:
  "bus_workers (fst (shutdown join b s)) = []" "bus_stopped (fst (shutdown join b s))"
  by (simp_all add: shutdown_def)

definition startable :: "('s, 'q, 'o) bus_builder \<Rightarrow> bool" where
  "startable b \<longleftrightarrow> is_ok (source_new (bb_source b)) \<and> invalid (bb_dispatch b) = None
     \<and> distinct (map fst (bb_endpoints b)) \<and> (\<forall>a \<in> set (bb_endpoints b). is_ok (snd a))"

lemma start_refused:
  assumes "\<not> startable b"
  shows "\<not> is_ok (fst (start b s)) \<and> snd (start b s) = s"
proof (cases "source_new (bb_source b)")
  case (Inl e)
  then show ?thesis by (simp add: start_def and_then_io_def lift_io_def)
next
  case source: (Inr src)
  show ?thesis
  proof (cases "invalid (bb_dispatch b)")
    case (Some reason)
    then show ?thesis using source by (simp add: start_def and_then_io_def lift_io_def throw_io_def)
  next
    case None
    then have no: "\<And>r. try_fold collect_endpoint ([], []) (bb_endpoints b) \<noteq> Inr r"
      using assms source by (fastforce simp: startable_def collect_endpoints_Inr)
    obtain e where "try_fold collect_endpoint ([], []) (bb_endpoints b) = Inl e"
      by (cases "try_fold collect_endpoint ([], []) (bb_endpoints b)") (use no in auto)
    then show ?thesis using source None by (simp add: start_def and_then_io_def lift_io_def)
  qed
qed

lemma start_startable:
  assumes "startable b" and "subscribe_all (bb_transport b) (map (projr \<circ> snd) (bb_endpoints b)) s = (r, t)"
  shows "snd (start b s) = t \<and> is_ok (fst (start b s)) = is_ok r"
proof -
  obtain src where src: "source_new (bb_source b) = Inr src"
    using assms(1) by (auto simp: startable_def is_ok_iff)
  have c: "try_fold collect_endpoint ([], []) (bb_endpoints b)
      = Inr (map fst (bb_endpoints b), map (projr \<circ> snd) (bb_endpoints b))"
    using assms(1) by (simp add: startable_def collect_endpoints_Inr)
  have "invalid (bb_dispatch b) = None" using assms(1) by (simp add: startable_def)
  then show ?thesis
    using src c assms(2)
    by (cases r) (simp_all add: start_def and_then_io_def lift_io_def return_io_def)
qed

lemma await_workers_rev: "await_workers join ws s = foldr join ws s"
  by (induction ws) simp_all

section \<open>Properties\<close>

text \<open>
  C38: \<open>start\<close> refuses a builder with an invalid source or dispatch settings, an endpoint that failed
  to build or two endpoints of one name, before it touches the transport; otherwise it fails exactly
  when a subscription does. A started bus runs one worker for each endpoint, in their order, one for
  each maintained store, and the dispatcher exactly when there is an outbox.
\<close>

theorem bus_start_exact:
  assumes "start b s = (r, s')"
  shows "(if startable b
      then (case subscribe_all (bb_transport b) (map (projr \<circ> snd) (bb_endpoints b)) s of
              (q, t) \<Rightarrow> is_ok r = is_ok q \<and> s' = t)
      else \<not> is_ok r \<and> s' = s)
    \<and> (\<forall>bus. r = Inr bus \<longrightarrow> source_new (bb_source b) = Inr (bus_source bus)
        \<and> (\<exists>subscribed. map fst subscribed = map (projr \<circ> snd) (bb_endpoints b)
          \<and> bus_workers bus = map (\<lambda>(ep, q). EndpointWorker ep q) subscribed
              @ map (\<lambda>(store, settings). MaintenanceWorker store settings) (bb_maintenance b)
              @ (if bb_dispatcher b then [DispatchWorker (bb_dispatch b)] else [])))"
proof (intro conjI allI impI)
  show "if startable b
      then (case subscribe_all (bb_transport b) (map (projr \<circ> snd) (bb_endpoints b)) s of
              (q, t) \<Rightarrow> is_ok r = is_ok q \<and> s' = t)
      else \<not> is_ok r \<and> s' = s"
    using start_refused [of b s] start_startable [of b s] assms by (auto split: prod.splits)
  fix bus assume "r = Inr bus"
  then have st: "start b s = (Inr bus, s')" using assms by simp
  show "source_new (bb_source b) = Inr (bus_source bus)" by (rule start_Inr(1) [OF st])
  show "\<exists>subscribed. map fst subscribed = map (projr \<circ> snd) (bb_endpoints b)
      \<and> bus_workers bus = map (\<lambda>(ep, q). EndpointWorker ep q) subscribed
          @ map (\<lambda>(store, settings). MaintenanceWorker store settings) (bb_maintenance b)
          @ (if bb_dispatcher b then [DispatchWorker (bb_dispatch b)] else [])"
    using start_Inr(5) [OF st] by blast
qed

text \<open>A bus with one endpoint.\<close>

definition ignore_orders :: "(im_state, unit, string) handler" where
  "ignore_orders message context s = (Returned (Inr ()), context, s)"

definition shop_bus :: "(im_state, string, unit) bus_builder" where
  "shop_bus = with_endpoint ''billing'' (builder_handle text_message ignore_orders)
     (bus_builder_new ''shop'' im_transport ())"

lemma shop_bus_startable: "startable shop_bus"
proof -
  have "is_ok (build () (builder_handle text_message ignore_orders
      (endpoint_builder_new ''billing'' :: (im_state, unit, unit) endpoint_builder)))"
    by (simp add: build_is_ok builder_handle_def endpoint_builder_new_def)
      (simp add: text_message_def text_message_type)
  then show ?thesis
    using sample_source dispatch_default_valid
    by (simp add: startable_def shop_bus_def with_endpoint_def bus_builder_new_def Let_def)
qed

theorem bus_start_exact_witness:
  "is_ok (fst (start shop_bus im_new))
    \<and> \<not> is_ok (fst (start (with_endpoint ''billing'' (\<lambda>b. b) shop_bus) im_new))"
proof
  obtain r s' where st: "start shop_bus im_new = (r, s')" by fastforce
  have "is_ok (fst (subscribe_all (bb_transport shop_bus) (map (projr \<circ> snd) (bb_endpoints shop_bus)) im_new))"
    by (simp add: shop_bus_def with_endpoint_def bus_builder_new_def Let_def im_transport_def
        im_subscribe_def)
  then show "is_ok (fst (start shop_bus im_new))"
    using bus_start_exact [OF st] shop_bus_startable st by (simp split: prod.splits)
next
  let ?b = "with_endpoint ''billing'' (\<lambda>b. b) shop_bus"
  obtain r s' where st: "start ?b im_new = (r, s')" by fastforce
  have "\<not> startable ?b"
    by (simp add: startable_def shop_bus_def with_endpoint_def bus_builder_new_def Let_def
        builder_handle_def endpoint_builder_new_def)
  then show "\<not> is_ok (fst (start ?b im_new))" using bus_start_exact [OF st] st by simp
qed

text \<open>
  An endpoint whose inbox runs its handlers in a transaction and that was added before the outbox
  makes \<open>start\<close> fail, whatever is configured afterwards: its handlers would lose what they publish.
\<close>

lemma bus_inbox_needs_outbox_first:
  assumes "(n, Inr ep) \<in> set (bb_endpoints b)" and "ep_transactional ep"
    and "set (bb_endpoints (with_outbox store b)) \<subseteq> set (bb_endpoints b')"
  shows "\<not> is_ok (fst (start b' s))"
  using assms by (rule inbox_before_outbox)

text \<open>The same bus with an inbox that keeps no receipts.\<close>

definition open_inbox :: "(im_state, unit) inbox_store" where
  "open_inbox =
     \<lparr>ib_begin = (\<lambda>s. (Inr (), s)), ib_record = (\<lambda>_ _ t. (Inr True, t)),
      ib_commit = (\<lambda>_ s. (Inr (), s))\<rparr>"

definition inbox_bus :: "(im_state, string, unit handler_outbox) bus_builder" where
  "inbox_bus = with_endpoint ''billing'' (builder_inbox (inbox_of open_inbox))
     (bus_builder_new ''shop'' im_transport no_outbox_write)"

lemma bus_inbox_needs_outbox_first_example:
  "\<not> is_ok (fst (start (with_outbox (store_write clock_store) inbox_bus) im_new))"
proof -
  have e: "bb_endpoints inbox_bus = [(''billing'', Inr (projr (snd (hd (bb_endpoints inbox_bus)))))]"
    and t: "ep_transactional (projr (snd (hd (bb_endpoints inbox_bus))))"
    by (simp_all add: inbox_bus_def with_endpoint_def builder_inbox_def endpoint_builder_new_def
        bus_builder_new_def Let_def build_def inbox_of_def)
  show ?thesis
    by (rule bus_inbox_needs_outbox_first [of "''billing''" _ inbox_bus, OF _ t order_refl])
      (subst e, simp)
qed

text \<open>
  \<open>shutdown\<close> gives the stop signal, awaits every worker exactly once, the last one first, and
  keeps none: a second shutdown changes nothing.
\<close>

lemma bus_shutdown_once:
  "bus_stopped (fst (shutdown join b s)) \<and> snd (shutdown join b s) = foldr join (bus_workers b) s
    \<and> shutdown join (fst (shutdown join b s)) t = (fst (shutdown join b s), t)"
  by (simp add: shutdown_def await_workers_rev)

end
