(* ===== verification/Pg_Outbox.thy ===== *)
theory Pg_Outbox
  imports Store "HOL-Library.Product_Lexorder"
begin

text \<open>
  The outbox in PostgreSQL (\<open>postgres/src/outbox.rs\<close>, with the columns of
  \<open>migrations/postgresql\<close>): a row for each envelope, and each SQL statement as a function on the
  rows of \<open>outbox_messages\<close>. A \<open>timestamptz\<close> is its microseconds since 1970. What PostgreSQL and
  sqlx do with times is the record \<open>pg_api\<close>: the RFC 3339 text that \<open>to_json\<close> writes, the cast
  back, and the interval a duration is bound as.
\<close>

record pg_api =
  pg_uuid :: uuid_api
  pg_to_json :: "int \<Rightarrow> string"
  pg_timestamptz :: "string \<Rightarrow> int option"
  pg_interval :: "duration \<Rightarrow> int option"
  str_debug :: "string \<Rightarrow> string"

definition pg_time_range :: "int \<Rightarrow> bool" where
  "pg_time_range t \<longleftrightarrow> FIRST_SECOND * 1000000 \<le> t \<and> t < END_SECOND * 1000000"

text \<open>Documented: \<open>to_json\<close> writes ISO 8601, which reads back as the same instant, there and here.\<close>

definition pg_api_ok :: "pg_api \<Rightarrow> bool" where
  "pg_api_ok P \<longleftrightarrow> uuid_text_ok (pg_uuid P)
     \<and> (\<forall>t. pg_time_range t \<longrightarrow>
          (\<exists>ts. timestamp_from_str (pg_to_json P t) = Inr ts
             \<and> pg_timestamptz P (timestamp_text ts) = Some t)
          \<and> pg_timestamptz P (pg_to_json P t) = Some t)
     \<and> (\<forall>d i. pg_interval P d = Some i \<longrightarrow> int d = i * 1000)"

section \<open>Rows\<close>

datatype row_status = Pending | Dispatched | Failed

datatype json = JsonString string | JsonOther string   \<comment> \<open>any other value, by its text\<close>

record outbox_row =
  or_id :: uuid
  or_created_at :: int
  or_type :: string
  or_source :: string
  or_subject :: "string option"
  or_partition_key :: "string option"
  or_content_type :: string
  or_data_schema :: "string option"
  or_attributes :: "(string, json) omap"
  or_data :: string
  or_status :: row_status
  or_available_at :: int
  or_attempts :: int
  or_last_error :: "string option"
  or_dispatched_at :: "int option"

definition outbox_columns :: "string list" where
  "outbox_columns =
     [''specversion'', ''id'', ''type'', ''source'', ''subject'', ''partitionkey'',
      ''datacontenttype'', ''dataschema'']"

definition outbox_attributes :: "uuid_api \<Rightarrow> envelope \<Rightarrow> attributes" where
  "outbox_attributes U e = foldl (\<lambda>m k. om_remove k m) (to_attributes U e) outbox_columns"

text \<open>\<open>INSERT\<close>: the bound columns, and the defaults of the table at transaction time \<open>now\<close>.\<close>

definition outbox_row_of :: "uuid_api \<Rightarrow> int \<Rightarrow> envelope \<Rightarrow> outbox_row" where
  "outbox_row_of U now e =
     \<lparr>or_id = as_uuid (env_id e), or_created_at = now, or_type = type_str (env_type e),
      or_source = source_str (env_source e), or_subject = env_subject e,
      or_partition_key = env_partition_key e,
      or_content_type = content_type_str (env_content_type e),
      or_data_schema = env_data_schema e,
      or_attributes = map (\<lambda>(k, v). (k, JsonString v)) (outbox_attributes U e),
      or_data = env_data e, or_status = Pending, or_available_at = now, or_attempts = 0,
      or_last_error = None, or_dispatched_at = None\<rparr>"

definition row_key :: "outbox_row \<Rightarrow> int \<times> uuid" where
  "row_key row = (or_created_at row, or_id row)"

text \<open>One statement: it is refused when its primary key is there already.\<close>

definition insert_row ::
    "uuid_api \<Rightarrow> int \<Rightarrow> envelope \<Rightarrow> outbox_row list \<Rightarrow> (string, outbox_row list) result" where
  "insert_row U now e rows =
     (let row = outbox_row_of U now e in
      if row_key row \<in> row_key ` set rows
      then Inl ''duplicate key value violates unique constraint''
      else Inr (rows @ [row]))"

section \<open>Reading a claimed row\<close>

text \<open>The columns \<open>claim\<close> selects, with its two times as text.\<close>

record claimed_row =
  cr_id :: uuid
  cr_created_at :: string
  cr_type :: string
  cr_source :: string
  cr_subject :: "string option"
  cr_partition_key :: "string option"
  cr_content_type :: string
  cr_data_schema :: "string option"
  cr_attributes :: "(string, json) omap"
  cr_data :: string
  cr_attempts :: int
  cr_available_at :: string

definition select_row :: "pg_api \<Rightarrow> outbox_row \<Rightarrow> claimed_row" where
  "select_row P row =
     \<lparr>cr_id = or_id row, cr_created_at = pg_to_json P (or_created_at row), cr_type = or_type row,
      cr_source = or_source row, cr_subject = or_subject row,
      cr_partition_key = or_partition_key row, cr_content_type = or_content_type row,
      cr_data_schema = or_data_schema row, cr_attributes = or_attributes row,
      cr_data = or_data row, cr_attempts = or_attempts row,
      cr_available_at = pg_to_json P (or_available_at row)\<rparr>"

definition timestamp_column ::
    "pg_api \<Rightarrow> string \<Rightarrow> string \<Rightarrow> (string, timestamp) result" where
  "timestamp_column P column shown =
     map_err (\<lambda>e. column @ '': '' @ envelope_error_text (str_debug P) e) (timestamp_from_str shown)"

definition string_attribute ::
    "attributes \<Rightarrow> string \<times> json \<Rightarrow> (string, attributes) result" where
  "string_attribute m kv =
     (case snd kv of
        JsonString v \<Rightarrow> Inr (om_insert (fst kv) v m)
      | JsonOther shown \<Rightarrow>
          Inl (''attribute `'' @ fst kv @ ''` is '' @ shown @ '', not a string''))"

definition i32_to_u32 :: "int \<Rightarrow> nat" where
  "i32_to_u32 i = (if 0 \<le> i then nat i else 0)"

text \<open>The first half of \<open>record\<close>: the envelope from the columns and the other attributes.\<close>

definition read_envelope :: "pg_api \<Rightarrow> claimed_row \<Rightarrow> (string, envelope) result" where
  "read_envelope P row =
     and_then (try_fold string_attribute [] (cr_attributes row)) (\<lambda>attributes.
     let columns =
           [(''specversion'', Some ''1.0''),
            (''id'', Some (message_id_text (pg_uuid P) (MessageId (cr_id row)))),
            (''type'', Some (cr_type row)),
            (''source'', Some (cr_source row)),
            (''datacontenttype'', Some (cr_content_type row)),
            (''subject'', cr_subject row),
            (''partitionkey'', cr_partition_key row),
            (''dataschema'', cr_data_schema row)];
         attributes = foldl insert_some attributes columns
     in map_err (envelope_error_text (str_debug P))
          (from_attributes (pg_uuid P) attributes (cr_data row)))"

definition read_record :: "pg_api \<Rightarrow> claimed_row \<Rightarrow> (string, outbox_record) result" where
  "read_record P row =
     and_then (read_envelope P row) (\<lambda>envelope.
     let attempts = i32_to_u32 (cr_attempts row) in
     and_then (timestamp_column P ''created_at'' (cr_created_at row)) (\<lambda>created_at.
     and_then (timestamp_column P ''available_at'' (cr_available_at row)) (\<lambda>leased_until.
     Inr (outbox_record_new envelope created_at attempts leased_until))))"

section \<open>Claiming\<close>

text \<open>
  The inner \<open>SELECT\<close>: rows that are due, oldest id first, without those another session has
  locked. Ties of the id, which the statement leaves open, go by their place in the table.
\<close>

definition I64_MAX :: nat where
  "I64_MAX = 2 ^ 63 - 1"

definition due :: "int \<Rightarrow> outbox_row \<Rightarrow> bool" where
  "due now row \<longleftrightarrow> or_status row = Pending \<and> or_available_at row \<le> now"

definition claimable ::
    "int \<Rightarrow> (int \<times> uuid) list \<Rightarrow> nat \<Rightarrow> outbox_row list \<Rightarrow> outbox_row list" where
  "claimable now locked limit rows =
     take (min limit I64_MAX)
       (sort_key or_id (filter (\<lambda>row. due now row \<and> row_key row \<notin> set locked) rows))"

definition lease_row :: "int \<Rightarrow> (int \<times> uuid) list \<Rightarrow> outbox_row \<Rightarrow> outbox_row" where
  "lease_row leased_until keys row =
     (if row_key row \<in> set keys then row\<lparr>or_available_at := leased_until\<rparr> else row)"

definition claim_rows ::
    "int \<Rightarrow> int \<Rightarrow> (int \<times> uuid) list \<Rightarrow> nat \<Rightarrow> outbox_row list
      \<Rightarrow> outbox_row list \<times> outbox_row list" where
  "claim_rows now lease locked limit rows =
     (let claimed = claimable now locked limit rows;
          keys = map row_key claimed
      in (map (lease_row (now + lease) keys) claimed, map (lease_row (now + lease) keys) rows))"

section \<open>The marks\<close>

text \<open>
  A mark names a row by its key and the due time its claim set, all cast from text; \<open>fails\<close> is a
  statement that PostgreSQL refuses: a cast it cannot do, or an \<open>integer\<close> out of range.
\<close>

definition castable :: "pg_api \<Rightarrow> outbox_record \<Rightarrow> bool" where
  "castable P r \<longleftrightarrow> pg_timestamptz P (timestamp_text (rec_created_at r)) \<noteq> None
     \<and> pg_timestamptz P (timestamp_text (rec_leased_until r)) \<noteq> None"

definition names_row :: "pg_api \<Rightarrow> outbox_record \<Rightarrow> outbox_row \<Rightarrow> bool" where
  "names_row P r row \<longleftrightarrow>
     pg_timestamptz P (timestamp_text (rec_created_at r)) = Some (or_created_at row)
     \<and> as_uuid (env_id (rec_envelope r)) = or_id row"

definition holds_row :: "pg_api \<Rightarrow> outbox_record \<Rightarrow> outbox_row \<Rightarrow> bool" where
  "holds_row P r row \<longleftrightarrow> names_row P r row
     \<and> or_status row = Pending
     \<and> pg_timestamptz P (timestamp_text (rec_leased_until r)) = Some (or_available_at row)"

definition I32_MAX :: int where
  "I32_MAX = 2 ^ 31 - 1"

definition update_held ::
    "(outbox_row \<Rightarrow> bool) \<Rightarrow> (outbox_row \<Rightarrow> outbox_row) \<Rightarrow> outbox_row list \<Rightarrow> outbox_row list" where
  "update_held held f rows = map (\<lambda>row. if held row then f row else row) rows"

definition mark_dispatched_rows ::
    "pg_api \<Rightarrow> int \<Rightarrow> outbox_record list \<Rightarrow> outbox_row list
      \<Rightarrow> (string, outbox_row list) result" where
  "mark_dispatched_rows P now records rows =
     (if \<not> list_all (castable P) records then Inl ''invalid input syntax for timestamptz''
      else Inr (update_held (\<lambda>row. list_ex (\<lambda>r. holds_row P r row) records)
        (\<lambda>row. row\<lparr>or_status := Dispatched, or_dispatched_at := Some now\<rparr>) rows))"

definition attempt_held ::
    "(outbox_row \<Rightarrow> bool) \<Rightarrow> (outbox_row \<Rightarrow> outbox_row) \<Rightarrow> outbox_row list
      \<Rightarrow> (string, outbox_row list) result" where
  "attempt_held held f rows =
     (if list_ex (\<lambda>row. held row \<and> or_attempts row = I32_MAX) rows
      then Inl ''integer out of range''
      else Inr (update_held held
        (\<lambda>row. f (row\<lparr>or_attempts := or_attempts row + 1\<rparr>)) rows))"

definition mark_retry_rows ::
    "pg_api \<Rightarrow> int \<Rightarrow> outbox_record \<Rightarrow> string \<Rightarrow> int \<Rightarrow> outbox_row list
      \<Rightarrow> (string, outbox_row list) result" where
  "mark_retry_rows P now record error wait rows =
     (if \<not> castable P record then Inl ''invalid input syntax for timestamptz''
      else attempt_held (holds_row P record)
        (\<lambda>row. row\<lparr>or_last_error := Some error, or_available_at := now + wait\<rparr>) rows)"

definition mark_failed_rows ::
    "pg_api \<Rightarrow> int \<Rightarrow> outbox_record \<Rightarrow> string \<Rightarrow> outbox_row list
      \<Rightarrow> (string, outbox_row list) result" where
  "mark_failed_rows P now record error rows =
     (if \<not> castable P record then Inl ''invalid input syntax for timestamptz''
      else attempt_held (holds_row P record)
        (\<lambda>row. row\<lparr>or_status := Failed, or_last_error := Some error, or_available_at := now\<rparr>) rows)"

text \<open>The statement in \<open>claim\<close> for a row that does not read back as an envelope.\<close>

definition unreadable_held :: "pg_api \<Rightarrow> claimed_row \<Rightarrow> outbox_row \<Rightarrow> bool" where
  "unreadable_held P c row \<longleftrightarrow>
     pg_timestamptz P (cr_created_at c) = Some (or_created_at row) \<and> cr_id c = or_id row
     \<and> or_status row = Pending
     \<and> pg_timestamptz P (cr_available_at c) = Some (or_available_at row)"

definition mark_unreadable_rows ::
    "pg_api \<Rightarrow> claimed_row \<Rightarrow> string \<Rightarrow> outbox_row list \<Rightarrow> (string, outbox_row list) result" where
  "mark_unreadable_rows P c error rows =
     (if pg_timestamptz P (cr_created_at c) = None \<or> pg_timestamptz P (cr_available_at c) = None
      then Inl ''invalid input syntax for timestamptz''
      else attempt_held (unreadable_held P c)
        (\<lambda>row. row\<lparr>or_status := Failed,
                   or_last_error := Some (''not a valid envelope: '' @ error)\<rparr>) rows)"

section \<open>A row holds its envelope\<close>

lemma string_attributes:
  "try_fold string_attribute m (map (\<lambda>(k, v). (k, JsonString v)) kvs)
    = Inr (foldl (\<lambda>m (k, v). om_insert k v m) m kvs)"
  by (induction kvs arbitrary: m) (auto simp: string_attribute_def)

text \<open>The columns and the JSON attributes of a row make up the attributes of its envelope.\<close>

lemma columns_restore:
  assumes x: "extensions_ok (env_extensions e)"
  shows "foldl insert_some (outbox_attributes U e)
      [(''specversion'', Some ''1.0''),
       (''id'', Some (message_id_text U (env_id e))),
       (''type'', Some (type_str (env_type e))),
       (''source'', Some (source_str (env_source e))),
       (''datacontenttype'', Some (content_type_str (env_content_type e))),
       (''subject'', env_subject e),
       (''partitionkey'', env_partition_key e),
       (''dataschema'', env_data_schema e)] = to_attributes U e" (is "foldl insert_some _ ?cols = _")
    and "om_wf (outbox_attributes U e)"
proof -
  note to = to_attributes_get [OF x, of U]
  let ?o = "outbox_attributes U e"
  show o_wf: "om_wf ?o" by (simp add: outbox_attributes_def om_wf_removes to(1))
  have o_get: "om_get ?o k = (if k \<in> set outbox_columns then None else om_get (to_attributes U e) k)"
    for k by (simp only: outbox_attributes_def om_get_removes)
  have d: "distinct (map fst ?cols)" by simp
  note ins = foldl_insert_some [OF d o_wf]
  have "om_get (foldl insert_some ?o ?cols) k = om_get (to_attributes U e) k" for k
  proof (cases "k \<in> set outbox_columns")
    case True
    then have r: "k \<in> set RESERVED" by (auto simp: outbox_columns_def RESERVED_def)
    have none: "ext_get (env_extensions e) k = None"
      using extensions_not_reserved [OF x r] by (simp add: ext_get_def)
    have lhs: "om_get (foldl insert_some ?o ?cols) k = Option.bind (map_of ?cols k) (\<lambda>v. v)"
      using ins True by (simp only: o_get if_True) (simp split: option.splits)
    show ?thesis
      using True [unfolded outbox_columns_def] lhs none to(2) [of k]
      unfolding standard_attribute_def standard_attributes_def list.set insert_iff empty_iff
      by (elim disjE FalseE) (simp_all)
  next
    case False
    then have "map_of ?cols k = None" by (simp add: outbox_columns_def)
    then show ?thesis using ins False by (simp add: o_get)
  qed
  then show "foldl insert_some ?o ?cols = to_attributes U e"
    by (intro om.ext) (use ins to(1) in \<open>simp_all\<close>)
qed

lemma read_row_of:
  assumes api: "pg_api_ok P" and e: "envelope_ok e" and now: "pg_time_range now"
  shows "\<exists>ts. timestamp_from_str (pg_to_json P now) = Inr ts
    \<and> pg_timestamptz P (timestamp_text ts) = Some now
    \<and> read_record P (select_row P (outbox_row_of (pg_uuid P) now e))
      = Inr (outbox_record_new e ts 0 ts)"
proof -
  let ?U = "pg_uuid P" and ?row = "select_row P (outbox_row_of (pg_uuid P) now e)"
  obtain ts where ts: "timestamp_from_str (pg_to_json P now) = Inr ts"
      "pg_timestamptz P (timestamp_text ts) = Some now"
    using api now by (auto simp: pg_api_ok_def)
  have x: "extensions_ok (env_extensions e)" using e by (simp add: envelope_ok_def)
  have strings: "try_fold string_attribute [] (cr_attributes ?row) = Inr (outbox_attributes ?U e)"
    using om.rebuild [OF columns_restore(2) [OF x]]
    by (simp add: select_row_def outbox_row_of_def string_attributes)
  have "uuid_text_ok ?U" using api by (simp add: pg_api_ok_def)
  then have "read_record P ?row = Inr (outbox_record_new e ts 0 ts)"
    using strings attributes_round_trip [OF _ e, of ?U] ts columns_restore(1) [OF x, of ?U]
    by (simp add: read_record_def read_envelope_def select_row_def outbox_row_of_def timestamp_column_def
        i32_to_u32_def)
  then show ?thesis using ts by blast
qed


lemma om_wf_string_attributes:
  "try_fold string_attribute m kvs = Inr m' \<Longrightarrow> om_wf m \<Longrightarrow> om_wf m'"
  by (induction kvs arbitrary: m)
    (auto simp: string_attribute_def result_simps om_wf_insert split: json.splits)

lemma read_envelope_id:
  assumes "uuid_text_ok (pg_uuid P)" and "read_envelope P c = Inr e"
  shows "env_id e = MessageId (cr_id c)" and "env_data e = cr_data c" and "envelope_ok e"
proof -
  let ?cols = "[(''specversion'', Some ''1.0''),
            (''id'', Some (message_id_text (pg_uuid P) (MessageId (cr_id c)))),
            (''type'', Some (cr_type c)), (''source'', Some (cr_source c)),
            (''datacontenttype'', Some (cr_content_type c)), (''subject'', cr_subject c),
            (''partitionkey'', cr_partition_key c), (''dataschema'', cr_data_schema c)]"
  from assms(2) obtain m where m: "try_fold string_attribute [] (cr_attributes c) = Inr m"
      and f: "from_attributes (pg_uuid P) (foldl insert_some m ?cols) (cr_data c) = Inr e"
    unfolding read_envelope_def by (auto simp: result_simps)
  have d: "distinct (map fst ?cols)" by simp
  have m_wf: "om_wf m" using om_wf_string_attributes [OF m om.wf_empty] .
  note ins = foldl_insert_some [OF d m_wf]
  have wf: "om_wf (foldl insert_some m ?cols)" using ins by blast
  show "envelope_ok e" by (rule from_attributes_ok [OF wf f])
  have "om_get (foldl insert_some m ?cols) ''id''
      = Some (message_id_text (pg_uuid P) (MessageId (cr_id c)))"
    using ins [THEN conjunct2, of "''id''"] by simp
  then show "env_id e = MessageId (cr_id c)" and "env_data e = cr_data c"
    using from_attributes_fields [OF wf f] message_id_round_trip [OF assms(1)]
    by (metis option.inject sum.inject(2))+
qed

lemma read_record_Inr:
  "read_record P c = Inr r \<longleftrightarrow>
    (\<exists>e t l. read_envelope P c = Inr e \<and> timestamp_from_str (cr_created_at c) = Inr t
      \<and> timestamp_from_str (cr_available_at c) = Inr l
      \<and> r = outbox_record_new e t (i32_to_u32 (cr_attempts c)) l)"
  by (auto simp: read_record_def timestamp_column_def result_simps)

section \<open>What a claim takes\<close>

definition table_ok :: "outbox_row list \<Rightarrow> bool" where
  "table_ok rows \<longleftrightarrow> distinct (map row_key rows)"

lemma table_unique:
  "table_ok rows \<Longrightarrow> r \<in> set rows \<Longrightarrow> q \<in> set rows \<Longrightarrow> row_key r = row_key q \<Longrightarrow> r = q"
  unfolding table_ok_def distinct_map by (meson inj_onD)

lemma claimable_set:
  "r \<in> set (claimable now locked limit rows) \<Longrightarrow>
    r \<in> set rows \<and> due now r \<and> row_key r \<notin> set locked"
  unfolding claimable_def by (auto dest: in_set_takeD)

lemma claimable_length: "length (claimable now locked limit rows) \<le> limit"
  by (simp add: claimable_def)

lemma claimable_sorted: "sorted (map or_id (claimable now locked limit rows))"
  by (simp add: claimable_def sorted_wrt_take flip: take_map)

text \<open>Whatever is due and not claimed is no older than what is.\<close>

lemma claimable_oldest:
  assumes "r \<in> set rows" and "due now r" and "row_key r \<notin> set locked"
    and "r \<notin> set (claimable now locked limit rows)"
    and "q \<in> set (claimable now locked limit rows)"
  shows "or_id q \<le> or_id r" and "length (claimable now locked limit rows) = min limit I64_MAX"
proof -
  let ?s = "sort_key or_id (filter (\<lambda>row. due now row \<and> row_key row \<notin> set locked) rows)"
  let ?n = "min limit I64_MAX"
  have "r \<in> set ?s" using assms(1-3) by simp
  then have "r \<in> set (take ?n ?s @ drop ?n ?s)" by (simp only: append_take_drop_id)
  then have drop: "r \<in> set (drop ?n ?s)"
    using assms(4) unfolding claimable_def set_append by blast
  have "sorted (map or_id (take ?n ?s @ drop ?n ?s))"
    by (simp only: append_take_drop_id sorted_sort_key)
  then show "or_id q \<le> or_id r"
    using assms(5) drop unfolding claimable_def map_append sorted_append by auto
  show "length (claimable now locked limit rows) = ?n"
  proof (rule ccontr)
    assume "length (claimable now locked limit rows) \<noteq> ?n"
    then have "length ?s \<le> ?n" unfolding claimable_def length_take by linarith
    then show False using drop by (simp del: length_sort)
  qed
qed

lemma row_key_lease [simp]: "row_key (lease_row t keys row) = row_key row"
  by (simp add: lease_row_def row_key_def)

lemma claim_rows_keys: "map row_key (snd (claim_rows now lease locked limit rows)) = map row_key rows"
  by (simp add: claim_rows_def Let_def o_def)

lemma claim_rows_fst:
  assumes "row \<in> set (fst (claim_rows now lease locked limit rows))"
  shows "row \<in> set (snd (claim_rows now lease locked limit rows))"
    and "or_available_at row = now + lease" and "or_status row = Pending"
    and "row_key row \<notin> set locked"
  using assms claimable_set
  by (fastforce simp: claim_rows_def Let_def lease_row_def due_def row_key_def)+

text \<open>No row is in two claims before the lease of the first runs out.\<close>

lemma claim_exclusive:
  assumes "table_ok rows" and "row \<in> set (fst (claim_rows now lease locked limit rows))"
    and "now' < now + lease"
  shows "row \<notin> set (claimable now' locked' limit' (snd (claim_rows now lease locked limit rows)))"
  using assms claim_rows_fst(2) [OF assms(2)] claimable_set by (fastforce simp: due_def)

text \<open>A row that is not claimed is left as it was.\<close>

lemma claim_rows_rest:
  assumes "table_ok rows" and "row \<in> set rows" and "row \<notin> set (claimable now locked limit rows)"
  shows "row \<in> set (snd (claim_rows now lease locked limit rows))"
proof -
  have "row_key row \<notin> row_key ` set (claimable now locked limit rows)"
    using assms table_unique claimable_set by blast
  then have "lease_row t (map row_key (claimable now locked limit rows)) row = row" for t
    by (auto simp: lease_row_def)
  note same = this [of "now + lease"]
  have "row \<in> lease_row (now + lease) (map row_key (claimable now locked limit rows)) ` set rows"
    using imageI [OF assms(2), of "lease_row (now + lease) (map row_key (claimable now locked limit rows))"]
    by (simp only: same)
  then show ?thesis by (simp only: claim_rows_def Let_def snd_conv set_map)
qed

section \<open>What a mark changes\<close>

lemma update_held_other: "row \<in> set rows \<Longrightarrow> \<not> held row \<Longrightarrow> row \<in> set (update_held held f rows)"
  by (force simp: update_held_def)

lemma update_held_keys:
  "(\<And>row. row_key (f row) = row_key row) \<Longrightarrow> map row_key (update_held held f rows) = map row_key rows"
  by (simp add: update_held_def)

text \<open>
  A record whose lease ran out before the row was claimed again does not hold it: its marks leave
  the row to the newer claim.
\<close>

lemma stale_not_held:
  assumes "row \<in> set (fst (claim_rows now lease locked limit rows))" and "0 < lease"
    and "pg_timestamptz P (timestamp_text (rec_leased_until r)) = Some t" and "t \<le> now"
  shows "\<not> holds_row P r row"
  using claim_rows_fst(2) [OF assms(1)] assms(2-4) by (auto simp: holds_row_def)

section \<open>Properties\<close>

text \<open>An instance of \<open>pg_api\<close> that keeps its laws: times as \<open>Timestamp\<close> writes them.\<close>

definition plain_api :: pg_api where
  "plain_api =
     \<lparr>pg_uuid = decimal_uuid,
      pg_to_json = (\<lambda>t. timestamp_text (from_unix_nanos (t * 1000))),
      pg_timestamptz = (\<lambda>s. case timestamp_from_str s of
          Inl _ \<Rightarrow> None | Inr t \<Rightarrow> Some (unix_nanos t div 1000)),
      pg_interval = (\<lambda>d. if d mod 1000 = 0 then Some (int (d div 1000)) else None),
      str_debug = (\<lambda>s. s)\<rparr>"

lemma timestamp_from_text: "timestamp_ok t \<Longrightarrow> timestamp_from_str (timestamp_text t) = Inr t"
  by (simp add: timestamp_from_str_def parse_timestamp_text ok_or_def)

lemma plain_api_ok: "pg_api_ok plain_api"
  unfolding pg_api_ok_def
proof (intro conjI allI impI)
  show "uuid_text_ok (pg_uuid plain_api)" by (simp add: plain_api_def decimal_uuid_ok)
  fix t assume "pg_time_range t"
  then have "unix_nanos (from_unix_nanos (t * 1000)) = t * 1000"
    by (intro unix_nanos_from) (simp_all add: pg_time_range_def second_consts)
  then show "\<exists>ts. timestamp_from_str (pg_to_json plain_api t) = Inr ts
      \<and> pg_timestamptz plain_api (timestamp_text ts) = Some t"
    and "pg_timestamptz plain_api (pg_to_json plain_api t) = Some t"
    by (simp_all add: plain_api_def timestamp_from_text)
next
  fix d i assume "pg_interval plain_api d = Some i"
  then have m: "d mod 1000 = 0" and i: "i = int (d div 1000)"
    by (auto simp: plain_api_def split: if_splits)
  have "d = d div 1000 * 1000" using div_mult_mod_eq [of d 1000] m by simp
  then show "int d = i * 1000" unfolding i by (metis of_nat_mult of_nat_numeral)
qed

text \<open>
  An envelope stored in the outbox is the one a claim reads from its row, with no attempts, and
  the record that is read names the row: a mark with it finds the row.
\<close>

lemma outbox_row_round_trip:
  assumes "pg_api_ok P" and "envelope_ok e" and "pg_time_range now"
  shows "\<exists>ts. read_record P (select_row P (outbox_row_of (pg_uuid P) now e))
        = Inr (outbox_record_new e ts 0 ts)
      \<and> holds_row P (outbox_record_new e ts 0 ts) (outbox_row_of (pg_uuid P) now e)"
  using read_row_of [OF assms]
  by (auto simp: holds_row_def names_row_def outbox_record_new_def outbox_row_of_def)

lemma outbox_row_round_trip_example:
  "\<exists>r. read_record plain_api (select_row plain_api
        (outbox_row_of (pg_uuid plain_api) 1709245800250000 order_placed)) = Inr r
     \<and> rec_envelope r = order_placed"
proof -
  have "pg_time_range 1709245800250000" by (simp add: pg_time_range_def second_consts)
  from outbox_row_round_trip [OF plain_api_ok order_placed_ok this] show ?thesis
    by (auto simp: outbox_record_new_def)
qed

text \<open>
  C8: a claim takes at most \<open>limit\<close> rows, all of them due and not locked, in id order and no
  row that is due and left is older than one it takes; it leases exactly those until
  \<open>now + lease\<close>, so that no other claim takes one of them before, and leaves the rest as they were.
\<close>

theorem claim_oldest_exclusive:
  assumes "table_ok rows" and "claim_rows now lease locked limit rows = (claimed, rows')"
  shows "length claimed \<le> limit \<and> sorted (map or_id claimed) \<and> set claimed \<subseteq> set rows'
    \<and> map row_key rows' = map row_key rows
    \<and> (\<forall>row \<in> set rows. due now row \<and> row_key row \<notin> set locked
         \<and> row_key row \<notin> row_key ` set claimed \<longrightarrow> (\<forall>q \<in> set claimed. or_id q \<le> or_id row))
    \<and> (\<forall>row \<in> set claimed. \<exists>old \<in> set rows. due now old \<and> row_key old \<notin> set locked
         \<and> row = old\<lparr>or_available_at := now + lease\<rparr>)
    \<and> (\<forall>row \<in> set rows. row_key row \<notin> row_key ` set claimed \<longrightarrow> row \<in> set rows')
    \<and> (\<forall>row \<in> set claimed. \<forall>now' < now + lease. \<forall>locked' limit'.
         row \<notin> set (claimable now' locked' limit' rows'))"
proof -
  let ?c = "claimable now locked limit rows"
  have claimed: "claimed = map (lease_row (now + lease) (map row_key ?c)) ?c"
    and rows': "rows' = snd (claim_rows now lease locked limit rows)"
    and fst: "claimed = fst (claim_rows now lease locked limit rows)"
    using assms(2) by (simp_all add: claim_rows_def Let_def)
  have id: "or_id (lease_row t ks row) = or_id row" for t ks row by (simp add: lease_row_def)
  have keys: "row_key ` set claimed = row_key ` set ?c" by (simp add: claimed image_image)
  have ids: "map or_id claimed = map or_id ?c" by (simp add: claimed id o_def)
  show ?thesis
  proof (intro conjI ballI impI allI)
    show "length claimed \<le> limit" by (simp add: claimed claimable_length)
    show "sorted (map or_id claimed)" unfolding ids by (rule claimable_sorted)
    show "set claimed \<subseteq> set rows'" using claim_rows_fst(1) unfolding fst rows' by blast
    show "map row_key rows' = map row_key rows" unfolding rows' by (rule claim_rows_keys)
  next
    fix row q assume row: "row \<in> set rows" "due now row \<and> row_key row \<notin> set locked
        \<and> row_key row \<notin> row_key ` set claimed" and "q \<in> set claimed"
    then obtain q' where q': "q' \<in> set ?c" "or_id q = or_id q'" by (auto simp: claimed id)
    have "row \<notin> set ?c" using row(2) keys by auto
    from claimable_oldest(1) [OF row(1) _ _ this q'(1)] show "or_id q \<le> or_id row"
      using row(2) q'(2) by simp
  next
    fix row assume "row \<in> set claimed"
    then obtain old where old: "old \<in> set ?c" "row = lease_row (now + lease) (map row_key ?c) old"
      by (auto simp: claimed)
    then show "\<exists>old \<in> set rows. due now old \<and> row_key old \<notin> set locked
         \<and> row = old\<lparr>or_available_at := now + lease\<rparr>"
      using claimable_set [OF old(1)] by (intro bexI [of _ old]) (auto simp: lease_row_def)
  next
    fix row assume "row \<in> set rows" and "row_key row \<notin> row_key ` set claimed"
    then show "row \<in> set rows'"
      unfolding rows' keys by (intro claim_rows_rest [OF assms(1)]) auto
  next
    fix row now' locked' limit' assume "row \<in> set claimed" and "now' < now + lease"
    then show "row \<notin> set (claimable now' locked' limit' rows')"
      unfolding fst rows' by (intro claim_exclusive [OF assms(1)])
  qed
qed

definition sample_row :: outbox_row where
  "sample_row = outbox_row_of decimal_uuid 1000 order_placed"

theorem claim_oldest_exclusive_witness:
  "map or_available_at (fst (claim_rows 2000 500 [] 10 [sample_row])) = [2500]"
proof -
  have t: "table_ok [sample_row]" by (simp add: table_ok_def)
  have d: "due 2000 sample_row" by (simp add: due_def sample_row_def outbox_row_of_def)
  obtain claimed rows' where c: "claim_rows 2000 500 [] 10 [sample_row] = (claimed, rows')"
    by fastforce
  have "length claimed = 1"
    using c d by (auto simp: claim_rows_def claimable_def Let_def I64_MAX_def)
  then obtain row where row: "claimed = [row]" by (auto simp: length_Suc_conv)
  from claim_oldest_exclusive [OF t c]
  have "\<forall>row \<in> set claimed. \<exists>old \<in> set [sample_row]. due 2000 old \<and> row_key old \<notin> set []
      \<and> row = old\<lparr>or_available_at := 2000 + 500\<rparr>"
    by (elim conjE)
  then show ?thesis by (simp add: row c)
qed

text \<open>
  C25: records whose leases ran out before their row was claimed again change nothing of it: marking
  them dispatched, to be retried or failed leaves the row to the newer claim.
\<close>

theorem stale_marks_leave_the_row:
  assumes claim: "claim_rows now lease locked limit rows = (claimed, rows')"
    and row: "row \<in> set claimed" and "0 < lease"
    and stale: "\<And>r. r \<in> set rs \<Longrightarrow>
      \<exists>t \<le> now. pg_timestamptz P (timestamp_text (rec_leased_until r)) = Some t"
    and "r \<in> set rs"
    and marked: "mark_dispatched_rows P later rs rows' = Inr rows''
      \<or> mark_retry_rows P later r error wait rows' = Inr rows''
      \<or> mark_failed_rows P later r error rows' = Inr rows''"
  shows "row \<in> set rows''"
proof -
  have f: "claimed = fst (claim_rows now lease locked limit rows)"
    "rows' = snd (claim_rows now lease locked limit rows)" using claim by simp_all
  have kept: "row \<in> set rows'" using claim_rows_fst(1) row unfolding f by blast
  have no: "\<not> holds_row P q row" if "q \<in> set rs" for q
    using stale [OF that] stale_not_held [OF row [unfolded f] \<open>0 < lease\<close>] by blast
  show ?thesis
    using marked kept no \<open>r \<in> set rs\<close>
    by (auto simp: mark_dispatched_rows_def mark_retry_rows_def mark_failed_rows_def attempt_held_def
        list_ex_iff intro!: update_held_other split: if_splits)
qed

definition stale_record :: outbox_record where
  "stale_record = outbox_record_new order_placed (from_unix_nanos 1000000) 0 (from_unix_nanos 2500000)"

lemma plain_api_time:
  "0 \<le> n \<Longrightarrow> n < 1000000000000 \<Longrightarrow>
    pg_timestamptz plain_api (timestamp_text (from_unix_nanos n)) = Some (n div 1000)"
  by (simp add: plain_api_def timestamp_from_text unix_nanos_from second_consts)

theorem stale_marks_leave_the_row_witness:
  "\<exists>rows''. mark_dispatched_rows plain_api 3100 [stale_record]
       (snd (claim_rows 3000 500 [] 10 [sample_row])) = Inr rows''
     \<and> set (fst (claim_rows 3000 500 [] 10 [sample_row])) \<subseteq> set rows''"
proof -
  obtain claimed rows' where c: "claim_rows 3000 500 [] 10 [sample_row] = (claimed, rows')"
    by fastforce
  have "castable plain_api stale_record"
    by (simp add: castable_def stale_record_def outbox_record_new_def plain_api_time)
  then obtain rows'' where m: "mark_dispatched_rows plain_api 3100 [stale_record] rows' = Inr rows''"
    by (simp add: mark_dispatched_rows_def)
  have s: "\<exists>t \<le> 3000. pg_timestamptz plain_api (timestamp_text (rec_leased_until r)) = Some t"
    if "r \<in> set [stale_record]" for r
    using that by (simp add: stale_record_def outbox_record_new_def plain_api_time)
  have "row \<in> set rows''" if "row \<in> set claimed" for row
    using stale_marks_leave_the_row [OF c that _ s list.set_intros(1) disjI1 [OF m]] by simp
  then show ?thesis using m c by auto
qed

end
