(* ===== verification/Delivery.thy ===== *)
theory Delivery
  imports Pg_Outbox Dispatch In_Memory
begin

text \<open>
  The outbox at work: the PostgreSQL store of \<open>Pg_Outbox\<close> and a broker, as the dispatchers of
  several instances and the application's transactions use them. Before each statement the other
  sessions act, as the agenda \<open>w_others\<close> says, and a statement may be refused, or lost: done, but
  its answer never arrives. \<open>outbox_step\<close> is the step relation of the whole system. The dispatcher
  of \<open>Dispatch\<close> is run on it, and \<open>outbox_contract\<close> is interpreted: whatever a round does is a
  sequence of steps.
\<close>

section \<open>The world\<close>

datatype fault = Fine | Refused | Lost

datatype other =
    Advance nat
  | Commit "envelope list"
  | ClaimBy nat int
  | PublishBy envelope
  | DispatchedBy "outbox_record list"
  | RetryBy outbox_record string int
  | FailedBy outbox_record string
  | StopSignal

record dworld =
  w_rows :: "outbox_row list"
  w_now :: int                          \<comment> \<open>the database's clock\<close>
  w_instant :: nat                      \<comment> \<open>the dispatcher's monotonic clock\<close>
  w_stop :: bool
  w_broker :: im_state
  w_locked :: "(int \<times> uuid) list"
  w_faults :: "fault list"
  w_others :: "other list list"

definition stored :: "dworld \<Rightarrow> envelope \<Rightarrow> bool" where
  "stored w e \<longleftrightarrow> e \<in> set (im_published (w_broker w))"

definition row_envelope :: "pg_api \<Rightarrow> outbox_row \<Rightarrow> (string, envelope) result" where
  "row_envelope P row = read_envelope P (select_row P row)"

definition genuine :: "pg_api \<Rightarrow> dworld \<Rightarrow> outbox_record \<Rightarrow> bool" where
  "genuine P w r \<longleftrightarrow>
     list_ex (\<lambda>row. names_row P r row \<and> row_envelope P row = Inr (rec_envelope r)) (w_rows w)"

definition publish_to_broker :: "envelope \<Rightarrow> dworld \<Rightarrow> (transport_error, unit) result \<times> dworld" where
  "publish_to_broker e w =
     (case im_publish e (w_broker w) of (r, b) \<Rightarrow> (r, w\<lparr>w_broker := b\<rparr>))"

definition set_rows :: "('e, outbox_row list) result \<Rightarrow> dworld \<Rightarrow> dworld" where
  "set_rows r w = (case r of Inl _ \<Rightarrow> w | Inr rows \<Rightarrow> w\<lparr>w_rows := rows\<rparr>)"

text \<open>\<open>OutboxStore::insert\<close>: a statement for each envelope, on the caller's connection.\<close>

definition insert_rows ::
    "uuid_api \<Rightarrow> int \<Rightarrow> envelope list \<Rightarrow> outbox_row list \<Rightarrow> (string, outbox_row list) result" where
  "insert_rows U now es rows = try_fold (\<lambda>rows e. insert_row U now e rows) rows es"

fun act :: "pg_api \<Rightarrow> other \<Rightarrow> dworld \<Rightarrow> dworld" where
  "act P (Advance d) w =
     (if pg_time_range (w_now w + int d)
      then w\<lparr>w_now := w_now w + int d, w_instant := w_instant w + d * 1000\<rparr> else w)"
| "act P (Commit es) w =
     (if list_all envelope_ok es
      then set_rows (insert_rows (pg_uuid P) (w_now w) es (w_rows w)) w else w)"
| "act P (ClaimBy limit lease) w =
     w\<lparr>w_rows := snd (claim_rows (w_now w) lease (w_locked w) limit (w_rows w))\<rparr>"
| "act P (PublishBy e) w = snd (publish_to_broker e w)"
| "act P (DispatchedBy rs) w =
     (if list_all (\<lambda>r. genuine P w r \<and> stored w (rec_envelope r)) rs
      then set_rows (mark_dispatched_rows P (w_now w) rs (w_rows w)) w else w)"
| "act P (RetryBy r error wait) w =
     set_rows (mark_retry_rows P (w_now w) r error wait (w_rows w)) w"
| "act P (FailedBy r error) w = set_rows (mark_failed_rows P (w_now w) r error (w_rows w)) w"
| "act P StopSignal w = w\<lparr>w_stop := True\<rparr>"

definition interfere :: "pg_api \<Rightarrow> dworld \<Rightarrow> dworld" where
  "interfere P w =
     (case w_others w of
        [] \<Rightarrow> w
      | as # rest \<Rightarrow> foldl (\<lambda>w a. act P a w) (w\<lparr>w_others := rest\<rparr>) as)"

definition next_fault :: "dworld \<Rightarrow> fault \<times> dworld" where
  "next_fault w =
     (case w_faults w of [] \<Rightarrow> (Fine, w) | f # fs \<Rightarrow> (f, w\<lparr>w_faults := fs\<rparr>))"

section \<open>The store\<close>

text \<open>One statement on the pool: \<open>f\<close> is its result and the rows after it, or PostgreSQL's error.\<close>

definition statement ::
    "pg_api \<Rightarrow> string \<Rightarrow> (dworld \<Rightarrow> (string, 'a \<times> outbox_row list) result)
      \<Rightarrow> (dworld, store_error, 'a) io" where
  "statement P context f w =
     (case next_fault (interfere P w) of
        (Refused, w) \<Rightarrow> (Inl (Database context ''the connection failed''), w)
      | (Fine, w) \<Rightarrow>
          (case f w of
             Inl e \<Rightarrow> (Inl (Database context e), w)
           | Inr (a, rows) \<Rightarrow> (Inr a, w\<lparr>w_rows := rows\<rparr>))
      | (Lost, w) \<Rightarrow>
          (Inl (Database context ''the connection was lost''),
           (case f w of Inl _ \<Rightarrow> w | Inr (_, rows) \<Rightarrow> w\<lparr>w_rows := rows\<rparr>)))"

definition update_statement ::
    "pg_api \<Rightarrow> string \<Rightarrow> (dworld \<Rightarrow> (string, outbox_row list) result)
      \<Rightarrow> (dworld, store_error, unit) io" where
  "update_statement P context f =
     statement P context (\<lambda>w. and_then (f w) (\<lambda>rows. Inr ((), rows)))"

fun read_claimed ::
    "pg_api \<Rightarrow> claimed_row list \<Rightarrow> (dworld, store_error, outbox_record list) io" where
  "read_claimed P [] w = (Inr [], w)"
| "read_claimed P (c # cs) w =
     (case read_record P c of
        Inr r \<Rightarrow> and_then_io (read_claimed P cs) (\<lambda>rs. return_io (r # rs)) w
      | Inl error \<Rightarrow>
          and_then_io
            (update_statement P ''marking an unreadable outbox row failed''
              (\<lambda>w. mark_unreadable_rows P c error (w_rows w)))
            (\<lambda>_. read_claimed P cs) w)"

definition bind_interval :: "pg_api \<Rightarrow> string \<Rightarrow> duration \<Rightarrow> (dworld, store_error, int) io" where
  "bind_interval P context d =
     lift_io (ok_or (Database context ''the interval cannot be encoded'') (pg_interval P d))"

definition pg_claim ::
    "pg_api \<Rightarrow> nat \<Rightarrow> duration \<Rightarrow> (dworld, store_error, outbox_record list) io" where
  "pg_claim P limit lease =
     and_then_io (bind_interval P ''claiming outbox rows'' lease) (\<lambda>i.
     and_then_io
       (statement P ''claiming outbox rows'' (\<lambda>w.
          case claim_rows (w_now w) i (w_locked w) limit (w_rows w) of
            (claimed, rows) \<Rightarrow> Inr (map (select_row P) claimed, rows)))
       (read_claimed P))"

definition pg_mark_dispatched ::
    "pg_api \<Rightarrow> outbox_record list \<Rightarrow> (dworld, store_error, unit) io" where
  "pg_mark_dispatched P records =
     update_statement P ''marking outbox rows dispatched''
       (\<lambda>w. mark_dispatched_rows P (w_now w) records (w_rows w))"

definition pg_mark_retry ::
    "pg_api \<Rightarrow> outbox_record \<Rightarrow> string \<Rightarrow> duration \<Rightarrow> (dworld, store_error, unit) io" where
  "pg_mark_retry P record error wait =
     and_then_io (bind_interval P ''putting an outbox row back'' wait) (\<lambda>i.
       update_statement P ''putting an outbox row back''
         (\<lambda>w. mark_retry_rows P (w_now w) record error i (w_rows w)))"

definition pg_mark_failed ::
    "pg_api \<Rightarrow> outbox_record \<Rightarrow> string \<Rightarrow> (dworld, store_error, unit) io" where
  "pg_mark_failed P record error =
     update_statement P ''marking an outbox row failed''
       (\<lambda>w. mark_failed_rows P (w_now w) record error (w_rows w))"

text \<open>
  The caller's connection: the rows its transaction sees, at the time it began. A statement that
  fails leaves the transaction aborted.
\<close>

record pg_connection =
  cn_rows :: "outbox_row list"
  cn_now :: int
  cn_aborted :: bool

fun pg_insert ::
    "pg_api \<Rightarrow> envelope list \<Rightarrow> (pg_connection, store_error, unit) io" where
  "pg_insert P [] c = (Inr (), c)"
| "pg_insert P (e # es) c =
     (case (if cn_aborted c then Inl ''current transaction is aborted''
            else insert_row (pg_uuid P) (cn_now c) e (cn_rows c)) of
        Inl error \<Rightarrow> (Inl (Database ''inserting an outbox row'' error), c\<lparr>cn_aborted := True\<rparr>)
      | Inr rows \<Rightarrow> pg_insert P es (c\<lparr>cn_rows := rows\<rparr>))"

definition pg_outbox :: "pg_api \<Rightarrow> (dworld, pg_connection) outbox_store" where
  "pg_outbox P =
     \<lparr>ob_insert = pg_insert P, ob_claim = pg_claim P,
      ob_mark_dispatched = pg_mark_dispatched P, ob_mark_retry = pg_mark_retry P,
      ob_mark_failed = pg_mark_failed P\<rparr>"

text \<open>The transport in the process as the broker, and a runtime that acts on the world.\<close>

definition broker_publish :: "pg_api \<Rightarrow> envelope \<Rightarrow> (dworld, transport_error, unit) io" where
  "broker_publish P e w =
     (case next_fault (interfere P w) of
        (Refused, w) \<Rightarrow> (Inl unreachable_broker, w)
      | (Fine, w) \<Rightarrow> publish_to_broker e w
      | (Lost, w) \<Rightarrow> (Inl unreachable_broker, snd (publish_to_broker e w)))"

definition broker_transport :: "pg_api \<Rightarrow> (dworld, unit) transport" where
  "broker_transport P =
     \<lparr>tr_publish = broker_publish P, tr_subscribe = (\<lambda>_. return_io ()),
      tr_publish_error = (\<lambda>_. broker_publish P)\<rparr>"

definition world_env :: "pg_api \<Rightarrow> dworld runtime_env" where
  "world_env P =
     \<lparr>rt_stopping = w_stop,
      rt_instant = w_instant,
      rt_timeout_at = (\<lambda>deadline f w.
        case f w of (r, w') \<Rightarrow> (if w_instant w' \<le> deadline then Some r else None, w')),
      rt_sleep = (\<lambda>d w. let w' = interfere P w in (w_stop w', w'))\<rparr>"

section \<open>The step relation\<close>

inductive outbox_step :: "pg_api \<Rightarrow> dworld \<Rightarrow> dworld \<Rightarrow> bool" for P where
  advance: "w_now w \<le> now \<Longrightarrow> pg_time_range now \<Longrightarrow>
    outbox_step P w (w\<lparr>w_now := now, w_instant := i\<rparr>)"
| control: "outbox_step P w (w\<lparr>w_stop := s, w_locked := l, w_faults := f, w_others := x\<rparr>)"
| commit: "list_all envelope_ok es \<Longrightarrow>
    insert_rows (pg_uuid P) (w_now w) es (w_rows w) = Inr rows \<Longrightarrow>
    outbox_step P w (w\<lparr>w_rows := rows\<rparr>)"
| claim: "outbox_step P w
    (w\<lparr>w_rows := snd (claim_rows (w_now w) lease (w_locked w) limit (w_rows w))\<rparr>)"
| unreadable: "mark_unreadable_rows P c error (w_rows w) = Inr rows \<Longrightarrow>
    outbox_step P w (w\<lparr>w_rows := rows\<rparr>)"
| publish: "outbox_step P w (snd (publish_to_broker e w))"
| dispatched: "(\<And>r. r \<in> set rs \<Longrightarrow> genuine P w r \<and> stored w (rec_envelope r)) \<Longrightarrow>
    mark_dispatched_rows P (w_now w) rs (w_rows w) = Inr rows \<Longrightarrow>
    outbox_step P w (w\<lparr>w_rows := rows\<rparr>)"
| retry: "mark_retry_rows P (w_now w) r error wait (w_rows w) = Inr rows \<Longrightarrow>
    outbox_step P w (w\<lparr>w_rows := rows\<rparr>)"
| failed: "mark_failed_rows P (w_now w) r error (w_rows w) = Inr rows \<Longrightarrow>
    outbox_step P w (w\<lparr>w_rows := rows\<rparr>)"

abbreviation outbox_steps :: "pg_api \<Rightarrow> dworld \<Rightarrow> dworld \<Rightarrow> bool" where
  "outbox_steps P \<equiv> (outbox_step P)\<^sup>*\<^sup>*"

text \<open>What is written with a row, which no statement changes.\<close>

definition row_content :: "outbox_row \<Rightarrow> outbox_row" where
  "row_content row =
     row\<lparr>or_status := Pending, or_available_at := 0, or_attempts := 0, or_last_error := None,
         or_dispatched_at := None\<rparr>"

text \<open>A row that was kept: the same content, and a status that was final stays.\<close>

definition row_kept :: "outbox_row \<Rightarrow> outbox_row \<Rightarrow> bool" where
  "row_kept row row' \<longleftrightarrow> row_content row' = row_content row
     \<and> (or_status row \<noteq> Pending \<longrightarrow> row' = row)"

definition world_ok :: "pg_api \<Rightarrow> dworld \<Rightarrow> bool" where
  "world_ok P w \<longleftrightarrow> pg_time_range (w_now w) \<and> table_ok (w_rows w)
     \<and> list_all (\<lambda>row. pg_time_range (or_created_at row)) (w_rows w)
     \<and> list_all (\<lambda>row. or_status row = Dispatched \<longrightarrow>
          (\<exists>e. row_envelope P row = Inr e \<and> stored w e)) (w_rows w)"

definition rows_follow :: "outbox_row list \<Rightarrow> outbox_row list \<Rightarrow> bool" where
  "rows_follow rows rows' \<longleftrightarrow> (\<exists>kept added. rows' = kept @ added \<and> list_all2 row_kept rows kept)"

section \<open>Rows keep their content\<close>

lemma row_kept_refl [simp]: "row_kept row row"
  by (simp add: row_kept_def)

lemma row_kept_trans: "row_kept a b \<Longrightarrow> row_kept b c \<Longrightarrow> row_kept a c"
  by (auto simp: row_kept_def)

lemma row_content_fields:
  assumes "row_content a = row_content b"
  shows "row_key a = row_key b" and "or_created_at a = or_created_at b"
    and "row_envelope P a = row_envelope P b" and "names_row P r a = names_row P r b"
  using assms
  by (cases a; cases b;
      simp add: row_content_def row_key_def row_envelope_def read_envelope_def select_row_def
        names_row_def)+

lemma rows_follow_refl [simp]: "rows_follow rows rows"
  unfolding rows_follow_def
  by (intro exI [of _ rows] exI [of _ "[]"]) (simp add: list_all2_refl)

lemma rows_follow_trans:
  assumes "rows_follow a b" and "rows_follow b c"
  shows "rows_follow a c"
proof -
  from assms obtain k x l y where "b = k @ x" "list_all2 row_kept a k" "c = l @ y"
      "list_all2 row_kept (k @ x) l"
    by (auto simp: rows_follow_def)
  then obtain l1 l2 where l: "l = l1 @ l2" "list_all2 row_kept k l1"
    by (auto simp: list_all2_append1)
  have "list_all2 row_kept a l1"
    by (rule list_all2_trans [of row_kept, OF row_kept_trans \<open>list_all2 row_kept a k\<close> l(2)])
  then show ?thesis
    unfolding rows_follow_def using \<open>c = l @ y\<close> l(1) by (intro exI [of _ l1] exI [of _ "l2 @ y"]) simp
qed

lemma rows_follow_kept: "list_all2 row_kept rows rows' \<Longrightarrow> rows_follow rows rows'"
  unfolding rows_follow_def by (intro exI [of _ rows'] exI [of _ "[]"]) simp

lemma rows_follow_row:
  assumes "rows_follow rows rows'" and "row \<in> set rows"
  shows "\<exists>row' \<in> set rows'. row_kept row row'"
  using assms unfolding rows_follow_def list_all2_conv_all_nth in_set_conv_nth
  by (metis in_set_conv_decomp length_append nth_append nth_mem trans_less_add1)

lemma update_held_kept:
  assumes "\<And>row. held row \<Longrightarrow> or_status row = Pending \<and> row_content (f row) = row_content row"
  shows "list_all2 row_kept rows (update_held held f rows)"
  using assms by (induction rows) (auto simp: update_held_def row_kept_def)

lemma claim_kept:
  assumes "table_ok rows"
  shows "list_all2 row_kept rows (snd (claim_rows now lease locked limit rows))"
proof -
  let ?keys = "map row_key (claimable now locked limit rows)"
  have "row_kept row (lease_row (now + lease) ?keys row)" if "row \<in> set rows" for row
  proof (cases "row_key row \<in> set ?keys")
    case True
    then obtain q where q: "q \<in> set (claimable now locked limit rows)" "row_key row = row_key q"
      by auto
    then have "q = row" using claimable_set table_unique [OF assms] that by metis
    then have "or_status row = Pending" using claimable_set q by (fastforce simp: due_def)
    then show ?thesis by (simp add: row_kept_def lease_row_def row_content_def)
  qed (simp add: lease_row_def)
  then show ?thesis
    by (simp add: claim_rows_def Let_def list_all2_map2 list_all2_same list_all2_conv_all_nth)
qed

lemma attempt_held_Inr:
  "attempt_held held f rows = Inr rows' \<Longrightarrow>
    rows' = update_held held (\<lambda>row. f (row\<lparr>or_attempts := or_attempts row + 1\<rparr>)) rows"
  by (auto simp: attempt_held_def split: if_splits)

lemma marks_kept:
  shows "mark_dispatched_rows P now rs rows = Inr rows' \<Longrightarrow> list_all2 row_kept rows rows'"
    and "mark_retry_rows P now r error wait rows = Inr rows' \<Longrightarrow> list_all2 row_kept rows rows'"
    and "mark_failed_rows P now r error rows = Inr rows' \<Longrightarrow> list_all2 row_kept rows rows'"
    and "mark_unreadable_rows P c error rows = Inr rows' \<Longrightarrow> list_all2 row_kept rows rows'"
proof -
  have h: "holds_row P r row \<Longrightarrow> or_status row = Pending" for r row
    by (simp add: holds_row_def)
  have u: "unreadable_held P c row \<Longrightarrow> or_status row = Pending" for c row
    by (simp add: unreadable_held_def)
  show "mark_dispatched_rows P now rs rows = Inr rows' \<Longrightarrow> list_all2 row_kept rows rows'"
    by (auto simp: mark_dispatched_rows_def row_content_def list_ex_iff h intro!: update_held_kept
        split: if_splits)
  show "mark_retry_rows P now r error wait rows = Inr rows' \<Longrightarrow> list_all2 row_kept rows rows'"
    by (auto simp: mark_retry_rows_def row_content_def h dest!: attempt_held_Inr
        intro!: update_held_kept split: if_splits)
  show "mark_failed_rows P now r error rows = Inr rows' \<Longrightarrow> list_all2 row_kept rows rows'"
    by (auto simp: mark_failed_rows_def row_content_def h dest!: attempt_held_Inr
        intro!: update_held_kept split: if_splits)
  show "mark_unreadable_rows P c error rows = Inr rows' \<Longrightarrow> list_all2 row_kept rows rows'"
    by (auto simp: mark_unreadable_rows_def row_content_def u dest!: attempt_held_Inr
        intro!: update_held_kept split: if_splits)
qed

text \<open>Only \<open>mark_dispatched\<close> makes a row dispatched.\<close>

lemma marks_dispatched:
  shows "mark_retry_rows P now r error wait rows = Inr rows' \<Longrightarrow> row \<in> set rows' \<Longrightarrow>
      or_status row = Dispatched \<Longrightarrow> row \<in> set rows"
    and "mark_failed_rows P now r error rows = Inr rows' \<Longrightarrow> row \<in> set rows' \<Longrightarrow>
      or_status row = Dispatched \<Longrightarrow> row \<in> set rows"
    and "mark_unreadable_rows P c error rows = Inr rows' \<Longrightarrow> row \<in> set rows' \<Longrightarrow>
      or_status row = Dispatched \<Longrightarrow> row \<in> set rows"
  by (auto simp: mark_retry_rows_def mark_failed_rows_def mark_unreadable_rows_def update_held_def
      holds_row_def unreadable_held_def dest!: attempt_held_Inr split: if_splits)

lemma insert_rows_Inr:
  "insert_rows U now es rows = Inr rows' \<Longrightarrow> table_ok rows \<Longrightarrow>
    rows' = rows @ map (outbox_row_of U now) es \<and> table_ok rows'"
proof (induction es arbitrary: rows)
  case Nil
  then show ?case by (simp add: insert_rows_def)
next
  case (Cons e es)
  from Cons.prems(1) obtain rows1 where r1: "insert_row U now e rows = Inr rows1"
      and r2: "insert_rows U now es rows1 = Inr rows'"
    by (auto simp: insert_rows_def result_simps)
  have "rows1 = rows @ [outbox_row_of U now e]" "table_ok rows1"
    using r1 Cons.prems(2) by (auto simp: insert_row_def Let_def table_ok_def split: if_splits)
  then show ?case using Cons.IH [OF r2] by auto
qed

section \<open>Invariants of the step relation\<close>

lemma world_ok_rows:
  assumes ok: "world_ok P w" and kept: "list_all2 row_kept (w_rows w) rows"
    and disp: "\<And>row. row \<in> set rows \<Longrightarrow> or_status row = Dispatched \<Longrightarrow>
      row \<in> set (w_rows w) \<or> (\<exists>e. row_envelope P row = Inr e \<and> stored w e)"
  shows "world_ok P (w\<lparr>w_rows := rows\<rparr>)"
proof -
  have "map row_key rows = map row_key (w_rows w) \<and>
      map or_created_at rows = map or_created_at (w_rows w)"
    using kept
    by (induction rule: list_all2_induct)
      (auto simp: row_kept_def dest: row_content_fields(1,2) [OF sym])
  then have keys: "map row_key rows = map row_key (w_rows w)"
    and times: "or_created_at ` set rows = or_created_at ` set (w_rows w)"
    by (simp, metis list.set_map)
  have "pg_time_range (or_created_at row)" if "row \<in> set rows" for row
    using ok times that unfolding world_ok_def list_all_iff by (metis imageE imageI)
  moreover have "\<exists>e. row_envelope P row = Inr e \<and> stored w e"
    if "row \<in> set rows" "or_status row = Dispatched" for row
    using disp [OF that] ok that(2) unfolding world_ok_def list_all_iff by blast
  ultimately show ?thesis
    using ok keys by (auto simp: world_ok_def table_ok_def list_all_iff stored_def)
qed

lemma row_dispatched_sound:
  assumes ok: "world_ok P w"
    and sound: "\<And>r. r \<in> set rs \<Longrightarrow> genuine P w r \<and> stored w (rec_envelope r)"
    and m: "mark_dispatched_rows P (w_now w) rs (w_rows w) = Inr rows"
    and row: "row \<in> set rows" "or_status row = Dispatched"
  shows "row \<in> set (w_rows w) \<or> (\<exists>e. row_envelope P row = Inr e \<and> stored w e)"
proof -
  have rows: "rows = update_held (\<lambda>row. list_ex (\<lambda>r. holds_row P r row) rs)
        (\<lambda>row. row\<lparr>or_status := Dispatched, or_dispatched_at := Some (w_now w)\<rparr>) (w_rows w)"
    using m by (auto simp: mark_dispatched_rows_def split: if_splits)
  show ?thesis
  proof (cases "row \<in> set (w_rows w)")
    case False
    then obtain q r where q: "q \<in> set (w_rows w)" "r \<in> set rs" "holds_row P r q"
        and r: "row = q\<lparr>or_status := Dispatched, or_dispatched_at := Some (w_now w)\<rparr>"
      using row(1) unfolding rows update_held_def by (auto simp: list_ex_iff split: if_splits)
    from sound [OF q(2)] obtain p where p: "p \<in> set (w_rows w)" "names_row P r p"
        "row_envelope P p = Inr (rec_envelope r)"
      by (auto simp: genuine_def list_ex_iff)
    have "row_key p = row_key q"
      using p(2) q(3) by (auto simp: holds_row_def names_row_def row_key_def)
    then have "p = q" using ok table_unique p(1) q(1) by (auto simp: world_ok_def)
    moreover have "row_content row = row_content q" by (simp add: r row_content_def)
    ultimately have "row_envelope P row = Inr (rec_envelope r)"
      using p(3) row_content_fields(3) by metis
    then show ?thesis using sound [OF q(2)] by blast
  qed simp
qed

lemma published_grows:
  "im_published (w_broker (snd (publish_to_broker e w))) = im_published (w_broker w)
    \<or> im_published (w_broker (snd (publish_to_broker e w))) = im_published (w_broker w) @ [e]"
  by (auto simp: publish_to_broker_def im_publish_def split: prod.splits)

lemma publish_world [simp]:
  "w_rows (snd (publish_to_broker e w)) = w_rows w" "w_now (snd (publish_to_broker e w)) = w_now w"
  by (simp_all add: publish_to_broker_def split: prod.splits)

lemma step_stored: "outbox_step P w w' \<Longrightarrow> stored w e \<Longrightarrow> stored w' e"
  by (induction rule: outbox_step.induct)
    (auto simp: stored_def, metis UnI1 published_grows set_append)

text \<open>A claim leaves the rows that are dispatched as they are.\<close>

lemma claim_dispatched:
  assumes "table_ok rows" and "row \<in> set (snd (claim_rows now lease locked limit rows))"
    and "or_status row = Dispatched"
  shows "row \<in> set rows"
proof -
  have kept: "list_all2 row_kept rows (snd (claim_rows now lease locked limit rows))"
    using claim_kept assms(1) by simp
  obtain q where "q \<in> set rows" "row_kept q row"
      "row = lease_row (now + lease) (map row_key (claimable now locked limit rows)) q"
    using assms(2) kept unfolding claim_rows_def Let_def snd_conv set_map list_all2_map2 list_all2_same
    by blast
  then show ?thesis using assms(3) by (auto simp: row_kept_def lease_row_def split: if_splits)
qed

lemma step_keeps:
  assumes "outbox_step P w w'" and ok: "world_ok P w"
  shows "world_ok P w' \<and> rows_follow (w_rows w) (w_rows w')"
  using assms
proof (cases rule: outbox_step.cases)
  case (advance now i)
  then show ?thesis using ok by (auto simp: world_ok_def stored_def)
next
  case control
  then show ?thesis using ok by (auto simp: world_ok_def stored_def)
next
  case (commit es rows)
  note r = insert_rows_Inr [OF commit(3)]
  have t: "table_ok (w_rows w)" using ok by (simp add: world_ok_def)
  have "rows_follow (w_rows w) rows"
    unfolding rows_follow_def using r [OF t] by (auto intro!: list_all2_refl)
  moreover have "world_ok P (w\<lparr>w_rows := rows\<rparr>)"
    using ok r [OF t] by (auto simp: world_ok_def stored_def outbox_row_of_def list_all_iff)
  ultimately show ?thesis using commit(1) by simp
next
  case (claim lease limit)
  let ?rows = "snd (claim_rows (w_now w) lease (w_locked w) limit (w_rows w))"
  have kept: "list_all2 row_kept (w_rows w) ?rows" using claim_kept ok by (simp add: world_ok_def)
  have "row \<in> set (w_rows w)" if "row \<in> set ?rows" "or_status row = Dispatched" for row
    using claim_dispatched [OF _ that] ok by (simp add: world_ok_def)
  then show ?thesis using world_ok_rows [OF ok kept] rows_follow_kept [OF kept] claim(1) by simp
next
  case (unreadable c error rows)
  note kept = marks_kept(4) [OF unreadable(2)]
  show ?thesis
    using world_ok_rows [OF ok kept] marks_dispatched(3) [OF unreadable(2)] rows_follow_kept [OF kept]
      unreadable(1) by auto
next
  case (publish e)
  have "world_ok P w'"
    using ok step_stored [OF assms(1)] publish(1) by (auto simp: world_ok_def list_all_iff)
  then show ?thesis using publish(1) by simp
next
  case (dispatched rs rows)
  note kept = marks_kept(1) [OF dispatched(3)]
  show ?thesis
    using world_ok_rows [OF ok kept] row_dispatched_sound [OF ok dispatched(2,3)]
      rows_follow_kept [OF kept] dispatched(1) by auto
next
  case (retry r error wait rows)
  note kept = marks_kept(2) [OF retry(2)]
  show ?thesis
    using world_ok_rows [OF ok kept] marks_dispatched(1) [OF retry(2)] rows_follow_kept [OF kept]
      retry(1) by auto
next
  case (failed r error rows)
  note kept = marks_kept(3) [OF failed(2)]
  show ?thesis
    using world_ok_rows [OF ok kept] marks_dispatched(2) [OF failed(2)] rows_follow_kept [OF kept]
      failed(1) by auto
qed

lemma steps_keep:
  assumes "outbox_steps P w w'" and "world_ok P w"
  shows "world_ok P w'" and "rows_follow (w_rows w) (w_rows w')"
proof -
  have "world_ok P w' \<and> rows_follow (w_rows w) (w_rows w')"
    using assms
  proof (induction rule: rtranclp_induct)
    case base
    then show ?case by simp
  next
    case (step u v)
    then show ?case using step_keeps rows_follow_trans by blast
  qed
  then show "world_ok P w'" and "rows_follow (w_rows w) (w_rows w')" by simp_all
qed

lemma steps_stored: "outbox_steps P w w' \<Longrightarrow> stored w e \<Longrightarrow> stored w' e"
  by (induction rule: rtranclp_induct) (auto intro: step_stored)

section \<open>Every operation is a sequence of steps\<close>

lemma control_steps:
  "outbox_steps P w (w\<lparr>w_stop := s\<rparr>)" "outbox_steps P w (w\<lparr>w_faults := f\<rparr>)"
  "outbox_steps P w (w\<lparr>w_others := x\<rparr>)"
proof -
  have c: "outbox_steps P w (w\<lparr>w_stop := s, w_locked := l, w_faults := f, w_others := x\<rparr>)"
    for s l f x by (rule r_into_rtranclp) (rule outbox_step.control)
  show "outbox_steps P w (w\<lparr>w_stop := s\<rparr>)"
    using c [where s = s and l = "w_locked w" and f = "w_faults w" and x = "w_others w"] by simp
  show "outbox_steps P w (w\<lparr>w_faults := f\<rparr>)"
    using c [where s = "w_stop w" and l = "w_locked w" and f = f and x = "w_others w"] by simp
  show "outbox_steps P w (w\<lparr>w_others := x\<rparr>)"
    using c [where s = "w_stop w" and l = "w_locked w" and f = "w_faults w" and x = x] by simp
qed

lemma set_rows_steps:
  assumes "\<And>rows. r = Inr rows \<Longrightarrow> outbox_step P w (w\<lparr>w_rows := rows\<rparr>)"
  shows "outbox_steps P w (set_rows r w)"
  using assms by (cases r) (auto simp: set_rows_def)

lemma act_steps: "outbox_steps P w (act P a w)"
proof (cases a)
  case (Advance d)
  have "outbox_steps P w (w\<lparr>w_now := w_now w + int d, w_instant := w_instant w + d * 1000\<rparr>)"
    if "pg_time_range (w_now w + int d)"
    by (rule r_into_rtranclp, rule outbox_step.advance) (use that in simp_all)
  then show ?thesis using Advance by simp
next
  case (Commit es)
  then show ?thesis by (auto intro!: set_rows_steps outbox_step.commit)
next
  case (ClaimBy limit lease)
  then show ?thesis by (auto intro!: outbox_step.claim)
next
  case (PublishBy e)
  then show ?thesis by (auto intro!: outbox_step.publish)
next
  case (DispatchedBy rs)
  then show ?thesis
    by (auto simp: list_all_iff intro!: set_rows_steps outbox_step.dispatched)
next
  case (RetryBy r error wait)
  then show ?thesis by (auto intro!: set_rows_steps outbox_step.retry)
next
  case (FailedBy r error)
  then show ?thesis by (auto intro!: set_rows_steps outbox_step.failed)
next
  case StopSignal
  then show ?thesis using control_steps(1) by simp
qed

lemma acts_steps: "outbox_steps P w (foldl (\<lambda>w a. act P a w) w as)"
proof (induction as arbitrary: w)
  case Nil
  then show ?case by simp
next
  case (Cons a as)
  then show ?case using act_steps rtranclp_trans by (metis foldl_Cons)
qed

lemma interfere_steps: "outbox_steps P w (interfere P w)"
  unfolding interfere_def using control_steps(3) acts_steps rtranclp_trans
  by (metis (no_types, lifting) list.case_eq_if rtranclp.rtrancl_refl)

lemma next_fault_steps: "outbox_steps P w (snd (next_fault w))"
  by (auto simp: next_fault_def control_steps split: list.splits)

lemma statement_cases:
  assumes "statement P context f w = (r, w')"
  obtains u where "outbox_steps P w u"
    and "w' = u \<or> (\<exists>a rows. f u = Inr (a, rows) \<and> w' = u\<lparr>w_rows := rows\<rparr>)"
    and "\<And>a. r = Inr a \<Longrightarrow> \<exists>rows. f u = Inr (a, rows) \<and> w' = u\<lparr>w_rows := rows\<rparr>"
proof -
  obtain fault u where u: "next_fault (interfere P w) = (fault, u)"
    by (cases "next_fault (interfere P w)")
  have s: "outbox_steps P w u"
    using interfere_steps next_fault_steps [of P "interfere P w"] u rtranclp_trans by fastforce
  show thesis
    by (rule that [OF s])
      (use assms u in \<open>auto simp: statement_def split: fault.splits sum.splits prod.splits\<close>)
qed

lemma statement_steps:
  assumes "statement P context f w = (r, w')"
    and "\<And>u a rows. outbox_steps P w u \<Longrightarrow> f u = Inr (a, rows) \<Longrightarrow>
      outbox_step P u (u\<lparr>w_rows := rows\<rparr>)"
  shows "outbox_steps P w w'"
  using assms(1)
proof (rule statement_cases)
  fix u
  assume u: "outbox_steps P w u"
    and c: "w' = u \<or> (\<exists>a rows. f u = Inr (a, rows) \<and> w' = u\<lparr>w_rows := rows\<rparr>)"
  from c show "outbox_steps P w w'"
  proof (elim disjE exE conjE)
    assume "w' = u"
    then show ?thesis using u by simp
  next
    fix a rows
    assume "f u = Inr (a, rows)" "w' = u\<lparr>w_rows := rows\<rparr>"
    then show ?thesis using assms(2) [OF u] rtranclp.rtrancl_into_rtrancl [OF u] by simp
  qed
qed

lemma update_statement_steps:
  assumes "update_statement P context f w = (r, w')"
    and "\<And>u rows. outbox_steps P w u \<Longrightarrow> f u = Inr rows \<Longrightarrow> outbox_step P u (u\<lparr>w_rows := rows\<rparr>)"
  shows "outbox_steps P w w'"
  using assms(1) unfolding update_statement_def
  by (rule statement_steps) (use assms(2) in \<open>auto simp: result_simps\<close>)

lemma bind_interval_state: "bind_interval P context d w = (r, w') \<Longrightarrow> w' = w"
  by (simp add: bind_interval_def io_simps)

lemma and_then_io_steps:
  assumes "and_then_io m f w = (r, w')"
    and "\<And>q u. m w = (q, u) \<Longrightarrow> outbox_steps P w u"
    and "\<And>a u. m w = (Inr a, u) \<Longrightarrow> f a u = (r, w') \<Longrightarrow> outbox_steps P u w'"
  shows "outbox_steps P w w'"
proof -
  obtain q u where u: "m w = (q, u)" by (cases "m w")
  note s = assms(2) [OF u]
  show ?thesis
  proof (cases q)
    case (Inl e)
    then show ?thesis using assms(1) u s by (simp add: and_then_io_def)
  next
    case (Inr a)
    then have "f a u = (r, w')" using assms(1) u by (simp add: and_then_io_def)
    then show ?thesis using assms(3) u Inr rtranclp_trans [OF s] by blast
  qed
qed

lemma read_claimed_steps: "read_claimed P cs w = (r, w') \<Longrightarrow> outbox_steps P w w'"
proof (induction cs arbitrary: w r w')
  case Nil
  then show ?case by simp
next
  case (Cons c cs)
  show ?case
  proof (cases "read_record P c")
    case (Inr q)
    then have "and_then_io (read_claimed P cs) (\<lambda>rs. return_io (q # rs)) w = (r, w')"
      using Cons.prems by simp
    then show ?thesis
      by (rule and_then_io_steps) (auto simp: io_simps intro: Cons.IH)
  next
    case (Inl error)
    then have "and_then_io (update_statement P ''marking an unreadable outbox row failed''
              (\<lambda>w. mark_unreadable_rows P c error (w_rows w))) (\<lambda>_. read_claimed P cs) w = (r, w')"
      using Cons.prems by simp
    then show ?thesis
      by (rule and_then_io_steps)
        (auto intro: Cons.IH elim!: update_statement_steps intro: outbox_step.unreadable)
  qed
qed

lemma pg_claim_steps: "pg_claim P limit lease w = (r, w') \<Longrightarrow> outbox_steps P w w'"
  unfolding pg_claim_def
proof (erule and_then_io_steps)
  show "outbox_steps P w u" if "bind_interval P ''claiming outbox rows'' lease w = (q, u)" for q u
    using bind_interval_state [OF that] by simp
next
  fix i u
  assume "and_then_io (statement P ''claiming outbox rows''
         (\<lambda>w. case claim_rows (w_now w) i (w_locked w) limit (w_rows w) of
            (claimed, rows) \<Rightarrow> Inr (map (select_row P) claimed, rows))) (read_claimed P) u = (r, w')"
  then show "outbox_steps P u w'"
  proof (rule and_then_io_steps)
    fix q v
    assume "statement P ''claiming outbox rows''
         (\<lambda>w. case claim_rows (w_now w) i (w_locked w) limit (w_rows w) of
            (claimed, rows) \<Rightarrow> Inr (map (select_row P) claimed, rows)) u = (q, v)"
    then show "outbox_steps P u v"
    proof (rule statement_steps)
      fix x :: dworld and a rows
      assume "(case claim_rows (w_now x) i (w_locked x) limit (w_rows x) of
            (claimed, rows) \<Rightarrow> Inr (map (select_row P) claimed, rows)) = Inr (a, rows)"
      then have "rows = snd (claim_rows (w_now x) i (w_locked x) limit (w_rows x))"
        by (auto split: prod.splits)
      then show "outbox_step P x (x\<lparr>w_rows := rows\<rparr>)" using outbox_step.claim by simp
    qed
  qed (rule read_claimed_steps)
qed

lemma genuine_steps:
  assumes "world_ok P w" and "outbox_steps P w w'" and "genuine P w r"
  shows "genuine P w' r"
proof -
  from assms(3) obtain row where row: "row \<in> set (w_rows w)" "names_row P r row"
      "row_envelope P row = Inr (rec_envelope r)"
    by (auto simp: genuine_def list_ex_iff)
  obtain row' where "row' \<in> set (w_rows w')" "row_kept row row'"
    using rows_follow_row [OF steps_keep(2) [OF assms(2,1)] row(1)] by blast
  then show ?thesis
    using row row_content_fields(3,4) [of row' row P]
    by (auto simp: genuine_def list_ex_iff row_kept_def)
qed

lemma read_record_genuine:
  assumes api: "pg_api_ok P" and row: "row \<in> set (w_rows w)" and time: "pg_time_range (or_created_at row)"
    and r: "read_record P (select_row P row) = Inr r"
  shows "genuine P w r"
proof -
  from r obtain e t l where e: "read_envelope P (select_row P row) = Inr e"
      and t: "timestamp_from_str (pg_to_json P (or_created_at row)) = Inr t"
      and r': "r = outbox_record_new e t (i32_to_u32 (or_attempts row)) l"
    by (auto simp: read_record_Inr select_row_def)
  have "pg_timestamptz P (timestamp_text t) = Some (or_created_at row)"
    using api time t by (auto simp: pg_api_ok_def)
  moreover have "as_uuid (env_id e) = or_id row"
    using read_envelope_id(1) [OF _ e] api by (simp add: pg_api_ok_def select_row_def)
  ultimately show ?thesis
    using row e r'
    by (auto simp: genuine_def list_ex_iff names_row_def outbox_record_new_def row_envelope_def)
qed

lemma read_claimed_genuine:
  assumes "pg_api_ok P"
  shows "world_ok P w \<Longrightarrow> read_claimed P cs w = (Inr rs, w') \<Longrightarrow>
    (\<forall>c \<in> set cs. \<forall>r. read_record P c = Inr r \<longrightarrow> genuine P w r) \<Longrightarrow> r \<in> set rs \<Longrightarrow>
    genuine P w' r"
proof (induction cs arbitrary: w rs)
  case Nil
  then show ?case by simp
next
  case (Cons c cs)
  show ?case
  proof (cases "read_record P c")
    case (Inr q)
    then obtain qs where qs: "read_claimed P cs w = (Inr qs, w')" "rs = q # qs"
      using Cons.prems(2) by (auto simp: io_simps)
    have "genuine P w' q"
      using genuine_steps [OF Cons.prems(1) read_claimed_steps [OF qs(1)]] Cons.prems(3) Inr by simp
    then show ?thesis using Cons.IH [OF Cons.prems(1) qs(1)] Cons.prems(3,4) qs(2) by auto
  next
    case (Inl error)
    then obtain u where u: "update_statement P ''marking an unreadable outbox row failed''
              (\<lambda>w. mark_unreadable_rows P c error (w_rows w)) w = (Inr (), u)"
        "read_claimed P cs u = (Inr rs, w')"
      using Cons.prems(2) by (auto simp: io_simps)
    have s: "outbox_steps P w u"
      using u(1) by (rule update_statement_steps) (auto intro: outbox_step.unreadable)
    have "world_ok P u" using steps_keep(1) [OF s Cons.prems(1)] .
    then show ?thesis
      using Cons.IH u(2) Cons.prems(3,4) genuine_steps [OF Cons.prems(1) s] by auto
  qed
qed

lemma pg_claim_genuine:
  assumes api: "pg_api_ok P" and ok: "world_ok P w"
    and "pg_claim P limit lease w = (Inr rs, w')" and "r \<in> set rs"
  shows "genuine P w' r"
proof -
  let ?f = "\<lambda>i w. case claim_rows (w_now w) i (w_locked w) limit (w_rows w) of
            (claimed, rows) \<Rightarrow> Inr (map (select_row P) claimed, rows)"
  from assms(3) obtain i cs u where u: "statement P ''claiming outbox rows'' (?f i) w = (Inr cs, u)"
      and r: "read_claimed P cs u = (Inr rs, w')"
    unfolding pg_claim_def by (auto simp: io_simps bind_interval_def)
  from u show ?thesis
  proof (rule statement_cases)
    fix v
    assume v: "outbox_steps P w v"
      and c: "\<And>a. Inr cs = Inr a \<Longrightarrow> \<exists>rows. ?f i v = Inr (a, rows) \<and> u = v\<lparr>w_rows := rows\<rparr>"
    let ?cl = "claim_rows (w_now v) i (w_locked v) limit (w_rows v)"
    have cs: "cs = map (select_row P) (fst ?cl)" and uv: "u = v\<lparr>w_rows := snd ?cl\<rparr>"
      using c [of cs] by (auto split: prod.splits)
    have "outbox_step P v u" unfolding uv by (rule outbox_step.claim)
    then have "outbox_steps P w u" using v by simp
    then have ok_u: "world_ok P u" by (rule steps_keep(1) [OF _ ok])
    have "genuine P u q" if c: "c \<in> set cs" "read_record P c = Inr q" for c q
    proof -
      obtain row where row: "row \<in> set (fst ?cl)" "c = select_row P row" using c(1) cs by auto
      have "row \<in> set (w_rows u)" using claim_rows_fst(1) [OF row(1)] uv by simp
      moreover have "pg_time_range (or_created_at row)"
        using ok_u calculation by (auto simp: world_ok_def list_all_iff)
      ultimately show ?thesis using read_record_genuine [OF api] c(2) row(2) by blast
    qed
    then show ?thesis using read_claimed_genuine [OF api ok_u r _ assms(4)] by blast
  qed
qed

lemma broker_publish_steps: "broker_publish P e w = (r, w') \<Longrightarrow> outbox_steps P w w'"
proof -
  assume r: "broker_publish P e w = (r, w')"
  obtain fault u where u: "next_fault (interfere P w) = (fault, u)"
    by (cases "next_fault (interfere P w)")
  have s: "outbox_steps P w u"
    using interfere_steps next_fault_steps [of P "interfere P w"] u rtranclp_trans by fastforce
  have "w' = u \<or> w' = snd (publish_to_broker e u)"
    using r u by (cases fault) (auto simp: broker_publish_def)
  then show ?thesis
    using s rtranclp.rtrancl_into_rtrancl [OF s outbox_step.publish] by auto
qed

lemma broker_publish_stored: "broker_publish P e w = (Inr u, w') \<Longrightarrow> stored w' e"
  by (auto simp: broker_publish_def publish_to_broker_def im_publish_def stored_def
      split: prod.splits fault.splits if_splits)

section \<open>The dispatcher on this world\<close>

text \<open>
  The contract holds for every \<open>pg_api\<close>; the worlds it is asked for are those of an API that keeps
  its documentation, which is part of \<open>ok\<close>.
\<close>

interpretation dispatcher: outbox_contract "pg_outbox P" "broker_transport P" "world_env P"
  "\<lambda>w. pg_api_ok P \<and> world_ok P w" "outbox_steps P" stored "genuine P" for P
proof unfold_locales
  fix s t :: dworld
  show "outbox_steps P s s" by simp
  show "outbox_steps P s u" if "outbox_steps P s t" "outbox_steps P t u" for u
    using that by (rule rtranclp_trans)
  show "stored t e" if "outbox_steps P s t" "stored s e" for e
    using that by (rule steps_stored)
  show "pg_api_ok P \<and> world_ok P t" if "outbox_steps P s t" "pg_api_ok P \<and> world_ok P s"
    using that steps_keep(1) by blast
  show "genuine P t r" if "pg_api_ok P \<and> world_ok P s" "outbox_steps P s t" "genuine P s r" for r
    using genuine_steps that by blast
  show "outbox_steps P s t" if "ob_claim (pg_outbox P) n l s = (c, t)" for n l c
    using that pg_claim_steps by (simp add: pg_outbox_def)
  show "genuine P t r" if "pg_api_ok P \<and> world_ok P s"
      "ob_claim (pg_outbox P) n l s = (Inr rs, t)" "r \<in> set rs" for n l rs r
    using that pg_claim_genuine by (auto simp: pg_outbox_def)
  show "outbox_steps P s t" if "rt_timeout_at (world_env P) d (tr_publish (broker_transport P) e) s
      = (sent, t)" for d e sent
    using that broker_publish_steps by (auto simp: world_env_def broker_transport_def split: prod.splits)
  show "stored t e" if "rt_timeout_at (world_env P) d (tr_publish (broker_transport P) e) s
      = (Some (Inr ()), t)" for d e
    using that broker_publish_stored
    by (auto simp: world_env_def broker_transport_def split: prod.splits if_splits)
  show "outbox_steps P s t" if ok: "pg_api_ok P \<and> world_ok P s"
      and sound: "\<And>r. r \<in> set rs \<Longrightarrow> genuine P s r \<and> stored s (rec_envelope r)"
      and m: "ob_mark_dispatched (pg_outbox P) rs s = (res, t)" for rs res
  proof -
    from m show ?thesis
      unfolding pg_outbox_def pg_mark_dispatched_def outbox_store.simps
    proof (rule update_statement_steps)
      fix u rows
      assume u: "outbox_steps P s u" and r: "mark_dispatched_rows P (w_now u) rs (w_rows u) = Inr rows"
      show "outbox_step P u (u\<lparr>w_rows := rows\<rparr>)"
        by (rule outbox_step.dispatched [OF _ r])
          (use ok sound genuine_steps [OF _ u] steps_stored [OF u] in blast)
    qed
  qed
  show "outbox_steps P s t" if "ob_mark_retry (pg_outbox P) r x v s = (res, t)" for r x v res
    using that unfolding pg_outbox_def pg_mark_retry_def outbox_store.simps
    by (elim and_then_io_steps)
      (auto dest: bind_interval_state elim!: update_statement_steps intro: outbox_step.retry)
  show "outbox_steps P s t" if "ob_mark_failed (pg_outbox P) r x s = (res, t)" for r x res
    using that unfolding pg_outbox_def pg_mark_failed_def outbox_store.simps
    by (auto elim!: update_statement_steps intro: outbox_step.failed)
  show "outbox_steps P s t" if "rt_sleep (world_env P) v s = (b, t)" for v b
    using that interfere_steps by (auto simp: world_env_def Let_def)
qed

end
