(* ===== verification/Pg_Inbox.thy ===== *)
theory Pg_Inbox
  imports Inbox_Step Delivery
begin

text \<open>
  The inbox in PostgreSQL (\<open>postgres/src/inbox.rs\<close>): the rows of \<open>inbox_receipts\<close>, and a
  transaction as its own view of the database, which a commit makes the database's. The
  transaction is also the connection that \<open>Pg_Outbox\<close> writes on, and the application's tables are
  \<open>db_app\<close>. A failed statement aborts the transaction. One transaction runs at a time here;
  \<open>Consumers\<close> interleaves them.
\<close>

record inbox_row =
  ir_id :: uuid
  ir_message_time :: int
  ir_endpoint :: string
  ir_message_id :: uuid
  ir_type :: string
  ir_source :: string
  ir_correlation_id :: "uuid option"
  ir_attributes :: "(string, json) omap"
  ir_data :: "string option"
  ir_received_at :: int

definition inbox_columns :: "string list" where
  "inbox_columns = [''specversion'', ''id'', ''type'', ''source'', ''correlationid'']"

definition inbox_attributes :: "uuid_api \<Rightarrow> envelope \<Rightarrow> attributes" where
  "inbox_attributes U e = foldl (\<lambda>m k. om_remove k m) (to_attributes U e) inbox_columns"

record 'a pg_database =
  db_outbox :: "outbox_row list"
  db_inbox :: "inbox_row list"
  db_app :: 'a

text \<open>A transaction; \<open>tx_receipt_id\<close> is what \<open>MessageId::new\<close> returns in it.\<close>

record 'a pg_transaction =
  tx_db :: "'a pg_database"
  tx_now :: int
  tx_aborted :: bool
  tx_faults :: "fault list"
  tx_receipt_id :: uuid

record 'a iworld =
  iw_db :: "'a pg_database"
  iw_now :: int
  iw_faults :: "fault list"
  iw_tx_faults :: "fault list list"
  iw_ids :: "uuid list"

definition pop :: "'x \<Rightarrow> 'x list \<Rightarrow> 'x \<times> 'x list" where
  "pop d xs = (case xs of [] \<Rightarrow> (d, []) | x # rest \<Rightarrow> (x, rest))"

definition pg_begin :: "('a iworld, store_error, 'a pg_transaction) io" where
  "pg_begin w =
     (let (fault, faults) = pop Fine (iw_faults w);
          (script, scripts) = pop [] (iw_tx_faults w);
          (i, ids) = pop 0 (iw_ids w);
          w' = w\<lparr>iw_faults := faults, iw_tx_faults := scripts, iw_ids := ids\<rparr>
      in if fault = Fine
         then (Inr \<lparr>tx_db = iw_db w, tx_now = iw_now w, tx_aborted = False, tx_faults = script,
                    tx_receipt_id = i\<rparr>, w')
         else (Inl (Database ''beginning an inbox transaction'' ''the connection failed''), w'))"

text \<open>A statement in the transaction: an error, whoever raises it, aborts the transaction.\<close>

definition tx_statement ::
    "string \<Rightarrow> ('a pg_transaction \<Rightarrow> (string, 'x \<times> 'a pg_database) result)
      \<Rightarrow> ('a pg_transaction, store_error, 'x) io" where
  "tx_statement context f t =
     (let (fault, faults) = pop Fine (tx_faults t);
          t = t\<lparr>tx_faults := faults\<rparr>
      in if tx_aborted t then (Inl (Database context ''current transaction is aborted''), t)
         else if fault \<noteq> Fine
         then (Inl (Database context ''the connection failed''), t\<lparr>tx_aborted := True\<rparr>)
         else (case f t of
                 Inl e \<Rightarrow> (Inl (Database context e), t\<lparr>tx_aborted := True\<rparr>)
               | Inr (x, d) \<Rightarrow> (Inr x, t\<lparr>tx_db := d\<rparr>)))"

definition receipt_row ::
    "uuid_api \<Rightarrow> bool \<Rightarrow> string \<Rightarrow> envelope \<Rightarrow> uuid \<Rightarrow> int \<Rightarrow> int \<Rightarrow> inbox_row" where
  "receipt_row U keep_data endpoint e new_id message_time now =
     \<lparr>ir_id = new_id, ir_message_time = message_time, ir_endpoint = endpoint,
      ir_message_id = as_uuid (env_id e), ir_type = type_str (env_type e),
      ir_source = source_str (env_source e),
      ir_correlation_id = map_option as_uuid (correlation_id (env_correlation e)),
      ir_attributes = map (\<lambda>(k, v). (k, JsonString v)) (inbox_attributes U e),
      ir_data = (if keep_data then Some (env_data e) else None), ir_received_at = now\<rparr>"

text \<open>The two unique constraints of the table, for \<open>ON CONFLICT DO NOTHING\<close>.\<close>

definition same_receipt :: "inbox_row \<Rightarrow> inbox_row \<Rightarrow> bool" where
  "same_receipt a b \<longleftrightarrow>
     (ir_endpoint a = ir_endpoint b \<and> ir_message_id a = ir_message_id b
        \<and> ir_message_time a = ir_message_time b)
     \<or> (ir_message_time a = ir_message_time b \<and> ir_id a = ir_id b)"

definition insert_receipt :: "inbox_row \<Rightarrow> 'a pg_database \<Rightarrow> bool \<times> 'a pg_database" where
  "insert_receipt row d =
     (if list_ex (same_receipt row) (db_inbox d) then (False, d)
      else (True, d\<lparr>db_inbox := db_inbox d @ [row]\<rparr>))"

definition pg_record ::
    "pg_api \<Rightarrow> bool \<Rightarrow> string \<Rightarrow> envelope \<Rightarrow> ('a pg_transaction, store_error, bool) io" where
  "pg_record P keep_data endpoint e =
     tx_statement ''inserting an inbox receipt'' (\<lambda>t.
       case pg_timestamptz P (timestamp_text (env_time e)) of
         None \<Rightarrow> Inl ''invalid input syntax for timestamptz''
       | Some message_time \<Rightarrow>
           Inr (insert_receipt
             (receipt_row (pg_uuid P) keep_data endpoint e (tx_receipt_id t) message_time (tx_now t))
             (tx_db t)))"

text \<open>\<open>SELECT 1\<close> first, which fails in an aborted transaction; then the commit itself.\<close>

definition pg_commit :: "'a pg_transaction \<Rightarrow> ('a iworld, store_error, unit) io" where
  "pg_commit t w =
     (case tx_statement ''checking the inbox transaction before its commit''
             (\<lambda>t. Inr ((), tx_db t)) t of
        (Inl e, _) \<Rightarrow> (Inl e, w)
      | (Inr _, t) \<Rightarrow>
          (let (fault, faults) = pop Fine (iw_faults w);
               w' = w\<lparr>iw_faults := faults\<rparr>;
               error = Database ''committing an inbox transaction'' ''the connection failed''
           in case fault of
                Fine \<Rightarrow> (Inr (), w'\<lparr>iw_db := tx_db t\<rparr>)
              | Refused \<Rightarrow> (Inl error, w')
              | Lost \<Rightarrow> (Inl error, w'\<lparr>iw_db := tx_db t\<rparr>)))"

definition pg_inbox :: "pg_api \<Rightarrow> bool \<Rightarrow> ('a iworld, 'a pg_transaction) inbox_store" where
  "pg_inbox P keep_data =
     \<lparr>ib_begin = pg_begin, ib_record = pg_record P keep_data, ib_commit = pg_commit\<rparr>"

text \<open>The outbox on the same transaction: \<open>&mut **transaction\<close> is its connection.\<close>

fun tx_insert ::
    "pg_api \<Rightarrow> envelope list \<Rightarrow> ('a pg_transaction, store_error, unit) io" where
  "tx_insert P [] t = (Inr (), t)"
| "tx_insert P (e # es) t =
     and_then_io (tx_statement ''inserting an outbox row'' (\<lambda>t.
       and_then (insert_row (pg_uuid P) (tx_now t) e (db_outbox (tx_db t))) (\<lambda>rows.
         Inr ((), (tx_db t)\<lparr>db_outbox := rows\<rparr>)))) (\<lambda>_. tx_insert P es) t"

definition tx_outbox :: "pg_api \<Rightarrow> ('a iworld, 'a pg_transaction) outbox_store" where
  "tx_outbox P =
     \<lparr>ob_insert = tx_insert P, ob_claim = (\<lambda>_ _. return_io []),
      ob_mark_dispatched = (\<lambda>_. return_io ()), ob_mark_retry = (\<lambda>_ _ _. return_io ()),
      ob_mark_failed = (\<lambda>_ _. return_io ())\<rparr>"

section \<open>The contract holds\<close>

definition has_receipt :: "pg_api \<Rightarrow> 'a pg_database \<Rightarrow> receipt_key \<Rightarrow> bool" where
  "has_receipt P d k =
     (case k of (endpoint, i, t) \<Rightarrow>
        list_ex (\<lambda>row. ir_endpoint row = endpoint \<and> ir_message_id row = as_uuid i
          \<and> pg_timestamptz P (timestamp_text t) = Some (ir_message_time row)) (db_inbox d))"

text \<open>The next id that \<open>MessageId::new\<close> makes is a new one.\<close>

definition ids_fresh :: "'a iworld \<Rightarrow> bool" where
  "ids_fresh w \<longleftrightarrow> fst (pop 0 (iw_ids w)) \<notin> ir_id ` set (db_inbox (iw_db w))"

definition id_fresh :: "'a pg_transaction \<Rightarrow> bool" where
  "id_fresh t \<longleftrightarrow> tx_receipt_id t \<notin> ir_id ` set (db_inbox (tx_db t))"

lemma tx_statement_Inr:
  "tx_statement context f t = (Inr x, t') \<Longrightarrow>
    \<not> tx_aborted t \<and> (\<exists>faults d. f (t\<lparr>tx_faults := faults\<rparr>) = Inr (x, d)
      \<and> t' = t\<lparr>tx_faults := faults, tx_db := d\<rparr>)"
  by (auto simp: tx_statement_def Let_def split: prod.splits if_splits sum.splits)

lemma pg_record_Inr:
  assumes "pg_record P keep n e t = (Inr b, t')"
  shows "\<exists>mt row. pg_timestamptz P (timestamp_text (env_time e)) = Some mt
    \<and> row = receipt_row (pg_uuid P) keep n e (tx_receipt_id t) mt (tx_now t)
    \<and> (b, tx_db t') = insert_receipt row (tx_db t)"
  using tx_statement_Inr [OF assms [unfolded pg_record_def]]
  by (auto split: option.splits)

lemma has_receipt_same:
  assumes "pg_timestamptz P (timestamp_text (env_time e)) = Some mt"
    and "has_receipt P d (receipt_key n e)"
  shows "list_ex (same_receipt (receipt_row U keep n e i mt now)) (db_inbox d)"
  using assms
  by (auto simp: has_receipt_def receipt_key_def list_ex_iff same_receipt_def receipt_row_def)

lemma record_fresh:
  assumes "pg_record P keep n e t = (Inr True, t')"
  shows "\<not> has_receipt P (tx_db t) (receipt_key n e) \<and> has_receipt P (tx_db t') (receipt_key n e)"
proof -
  obtain mt where mt: "pg_timestamptz P (timestamp_text (env_time e)) = Some mt"
      "(True, tx_db t') = insert_receipt
        (receipt_row (pg_uuid P) keep n e (tx_receipt_id t) mt (tx_now t)) (tx_db t)"
    using pg_record_Inr [OF assms] by auto
  let ?row = "receipt_row (pg_uuid P) keep n e (tx_receipt_id t) mt (tx_now t)"
  have no: "\<not> list_ex (same_receipt ?row) (db_inbox (tx_db t))"
    and db: "tx_db t' = (tx_db t)\<lparr>db_inbox := db_inbox (tx_db t) @ [?row]\<rparr>"
    using mt(2) by (auto simp: insert_receipt_def split: if_splits)
  have "\<not> has_receipt P (tx_db t) (receipt_key n e)"
    using has_receipt_same [OF mt(1)] no by blast
  moreover have "has_receipt P (tx_db t') (receipt_key n e)"
    using mt(1) by (simp add: db has_receipt_def receipt_key_def receipt_row_def)
  ultimately show ?thesis by blast
qed

lemma record_keeps:
  assumes "pg_record P keep n e t = (Inr True, t')" and "has_receipt P (tx_db t) k"
  shows "has_receipt P (tx_db t') k"
  using assms pg_record_Inr [OF assms(1)]
  by (auto simp: insert_receipt_def has_receipt_def split: if_splits prod.splits)

lemma record_seen:
  assumes "id_fresh t" and "pg_record P keep n e t = (Inr False, t')"
  shows "has_receipt P (tx_db t) (receipt_key n e) \<and> tx_db t' = tx_db t"
proof -
  obtain mt where mt: "pg_timestamptz P (timestamp_text (env_time e)) = Some mt"
      "(False, tx_db t') = insert_receipt
        (receipt_row (pg_uuid P) keep n e (tx_receipt_id t) mt (tx_now t)) (tx_db t)"
    using pg_record_Inr [OF assms(2)] by auto
  then obtain x where x: "x \<in> set (db_inbox (tx_db t))"
      "same_receipt (receipt_row (pg_uuid P) keep n e (tx_receipt_id t) mt (tx_now t)) x"
      and db: "tx_db t' = tx_db t"
    by (auto simp: insert_receipt_def list_ex_iff split: if_splits)
  have "n = ir_endpoint x \<and> as_uuid (env_id e) = ir_message_id x \<and> mt = ir_message_time x"
    using x assms(1) by (auto simp: same_receipt_def receipt_row_def id_fresh_def)
  then have "has_receipt P (tx_db t) (receipt_key n e)"
    unfolding has_receipt_def receipt_key_def list_ex_iff prod.case
    using x(1) mt(1) by (intro bexI [of _ x]) simp_all
  then show ?thesis using db by blast
qed

interpretation inbox: inbox_contract "pg_inbox P keep" iw_db tx_db "has_receipt P" ids_fresh id_fresh
  for P keep
proof unfold_locales
  fix s s' :: "'a iworld" and t t' :: "'a pg_transaction" and n and e :: store_error and env and u
  show "iw_db s' = iw_db s \<and> tx_db t = iw_db s \<and> id_fresh t"
    if "ids_fresh s" "ib_begin (pg_inbox P keep) s = (Inr t, s')"
    using that
    by (auto simp: pg_inbox_def pg_begin_def ids_fresh_def id_fresh_def Let_def
        split: prod.splits if_splits)
  show "iw_db s' = iw_db s" if "ib_begin (pg_inbox P keep) s = (Inl e, s')"
    using that by (auto simp: pg_inbox_def pg_begin_def Let_def split: prod.splits if_splits)
  show "iw_db s' = tx_db t" if "ib_commit (pg_inbox P keep) t s = (Inr u, s')"
    using that
    by (auto simp: pg_inbox_def pg_commit_def Let_def dest!: tx_statement_Inr
        split: prod.splits sum.splits fault.splits)
  show "iw_db s' = iw_db s \<or> iw_db s' = tx_db t" if "ib_commit (pg_inbox P keep) t s = (Inl e, s')"
    using that
    by (auto simp: pg_inbox_def pg_commit_def Let_def dest!: tx_statement_Inr
        split: prod.splits sum.splits fault.splits)
  show "\<not> has_receipt P (tx_db t) (receipt_key n env) \<and> has_receipt P (tx_db t') (receipt_key n env)"
    if "ib_record (pg_inbox P keep) n env t = (Inr True, t')"
    using that record_fresh by (simp add: pg_inbox_def)
  show "has_receipt P (tx_db t') k"
    if "ib_record (pg_inbox P keep) n env t = (Inr True, t')" "has_receipt P (tx_db t) k" for k
    using that record_keeps by (simp add: pg_inbox_def)
  show "has_receipt P (tx_db t) (receipt_key n env) \<and> tx_db t' = tx_db t"
    if "id_fresh t" "ib_record (pg_inbox P keep) n env t = (Inr False, t')"
    using that record_seen by (simp add: pg_inbox_def)
qed

section \<open>The handlers' publishes\<close>

lemma tx_statement_fields:
  "tx_statement context f t = (r, t') \<Longrightarrow> tx_now t' = tx_now t \<and> tx_receipt_id t' = tx_receipt_id t"
  by (auto simp: tx_statement_def Let_def split: prod.splits if_splits sum.splits)

lemma tx_insert_Inr:
  "tx_insert P es t = (Inr u, t') \<Longrightarrow>
    \<exists>rows. insert_rows (pg_uuid P) (tx_now t) es (db_outbox (tx_db t)) = Inr rows
      \<and> tx_db t' = (tx_db t)\<lparr>db_outbox := rows\<rparr>"
proof (induction es arbitrary: t)
  case Nil
  then show ?case by (simp add: insert_rows_def)
next
  case (Cons e es)
  let ?f = "\<lambda>t. and_then (insert_row (pg_uuid P) (tx_now t) e (db_outbox (tx_db t))) (\<lambda>rows.
    Inr ((), (tx_db t)\<lparr>db_outbox := rows\<rparr>))"
  obtain t1 where s: "tx_statement ''inserting an outbox row'' ?f t = (Inr (), t1)"
    and rest: "tx_insert P es t1 = (Inr u, t')"
    using Cons.prems by (auto simp: io_simps)
  obtain rows where row: "insert_row (pg_uuid P) (tx_now t) e (db_outbox (tx_db t)) = Inr rows"
    and t1: "tx_db t1 = (tx_db t)\<lparr>db_outbox := rows\<rparr>" "tx_now t1 = tx_now t"
    using tx_statement_Inr [OF s] tx_statement_fields [OF s] by (auto simp: result_simps)
  show ?case using Cons.IH [OF rest] row t1 by (auto simp: insert_rows_def)
qed

lemma store_write_ok: "write_ok tx_db (has_receipt P) (store_write (tx_outbox P))"
  unfolding write_ok_def
  by (auto simp: store_write_def tx_outbox_def has_receipt_def dest!: tx_insert_Inr
      split: if_splits prod.splits sum.splits)

lemma no_outbox_write_ok: "write_ok tx_db (has_receipt P) no_outbox_write"
  by (simp add: write_ok_def no_outbox_write_def)

text \<open>A commit is the only way a handler's rows get into the outbox: all of them, or none.\<close>

lemma write_and_commit_rows:
  assumes run: "write_and_commit (pg_inbox P keep) (store_write (tx_outbox P)) c w = (Inr held, w')"
    and table: "table_ok (db_outbox (tx_db (ctx_transaction c)))"
  shows "held = [] \<and> db_outbox (iw_db w') = db_outbox (tx_db (ctx_transaction c))
      @ map (outbox_row_of (pg_uuid P) (tx_now (ctx_transaction c))) (ctx_held c)
    \<and> db_app (iw_db w') = db_app (tx_db (ctx_transaction c))
    \<and> db_inbox (iw_db w') = db_inbox (tx_db (ctx_transaction c))"
proof -
  obtain v t where v: "store_write (tx_outbox P) (ctx_transaction c) (ctx_held c) = (v, t)"
    by (cases "store_write (tx_outbox P) (ctx_transaction c) (ctx_held c)")
  then obtain h where h: "v = Inr h" using run
    by (cases v) (auto simp: write_and_commit_def io_simps)
  have commit: "commit_with (pg_inbox P keep) t h w = (Inr held, w')"
    using run v h by (simp add: write_and_commit_def)
  then have "held = h" "iw_db w' = tx_db t"
    using inbox.commit_with_cases [OF commit] by auto
  moreover have "h = [] \<and> db_outbox (tx_db t) = db_outbox (tx_db (ctx_transaction c))
      @ map (outbox_row_of (pg_uuid P) (tx_now (ctx_transaction c))) (ctx_held c)
    \<and> db_app (tx_db t) = db_app (tx_db (ctx_transaction c))
    \<and> db_inbox (tx_db t) = db_inbox (tx_db (ctx_transaction c))"
    using v h table
    by (auto simp: store_write_def tx_outbox_def dest!: tx_insert_Inr insert_rows_Inr
        split: if_splits prod.splits sum.splits)
  ultimately show ?thesis by simp
qed

text \<open>A handler that keeps the outbox's key unique, as the database makes it do.\<close>

definition tables_kept :: "('a iworld, 'a pg_transaction) erased_handler \<Rightarrow> bool" where
  "tables_kept h \<longleftrightarrow> (\<forall>c1 u c2 u'. table_ok (db_outbox (tx_db (ctx_transaction c1))) \<longrightarrow>
     call h c1 u = (Inr c2, u') \<longrightarrow> table_ok (db_outbox (tx_db (ctx_transaction c2))))"

text \<open>The database a message's transaction begins with: the one before and the receipt.\<close>

definition recorded_db ::
    "pg_api \<Rightarrow> bool \<Rightarrow> string \<Rightarrow> envelope \<Rightarrow> 'a iworld \<Rightarrow> 'a pg_database option" where
  "recorded_db P keep n e s =
     map_option (\<lambda>mt. (iw_db s)\<lparr>db_inbox := db_inbox (iw_db s)
         @ [receipt_row (pg_uuid P) keep n e (fst (pop 0 (iw_ids s))) mt (iw_now s)]\<rparr>)
       (pg_timestamptz P (timestamp_text (env_time e)))"

lemma recorded_db_keeps:
  "recorded_db P keep n e s = Some d \<Longrightarrow> db_outbox d = db_outbox (iw_db s) \<and> db_app d = db_app (iw_db s)"
  by (auto simp: recorded_db_def)

lemma begin_record_db:
  assumes b: "pg_begin s = (Inr t0, u)" and r: "pg_record P keep n e t0 = (Inr True, t)"
  shows "recorded_db P keep n e s = Some (tx_db t)"
proof -
  have "tx_db t0 = iw_db s" "tx_now t0 = iw_now s" "tx_receipt_id t0 = fst (pop 0 (iw_ids s))"
    using b by (auto simp: pg_begin_def Let_def split: prod.splits if_splits)
  then show ?thesis
    using pg_record_Inr [OF r] by (auto simp: recorded_db_def insert_receipt_def split: if_splits)
qed

text \<open>
  What is committed when a message's run commits anything: its handler returned, in the transaction
  with the receipt, and the database is what the handler made of it and the outbox rows of what it
  published.
\<close>

definition committed_run ::
    "pg_api \<Rightarrow> bool \<Rightarrow> string \<Rightarrow> ('a iworld, 'a pg_transaction) erased_handler \<Rightarrow> unit handler_context
      \<Rightarrow> 'a iworld \<Rightarrow> 'a pg_database \<Rightarrow> bool" where
  "committed_run P keep n h c s d \<longleftrightarrow> (\<exists>t0 u t c2 u' rows.
     pg_begin s = (Inr t0, u) \<and> pg_record P keep n (ctx_envelope c) t0 = (Inr True, t)
     \<and> recorded_db P keep n (ctx_envelope c) s = Some (tx_db t)
     \<and> call h (fst (with_transaction c t)) u = (Inr c2, u')
     \<and> insert_rows (pg_uuid P) (tx_now (ctx_transaction c2)) (ctx_held c2)
          (db_outbox (tx_db (ctx_transaction c2))) = Inr rows
     \<and> d = (tx_db (ctx_transaction c2))\<lparr>db_outbox := rows\<rparr>)"

lemma store_write_rows:
  assumes "store_write (tx_outbox P) t held = (Inr out, t')"
  shows "out = [] \<and> (\<exists>rows. insert_rows (pg_uuid P) (tx_now t) held (db_outbox (tx_db t)) = Inr rows
    \<and> tx_db t' = (tx_db t)\<lparr>db_outbox := rows\<rparr>)"
  using assms
  by (auto simp: store_write_def tx_outbox_def insert_rows_def [of _ _ "[]"] dest!: tx_insert_Inr
      split: if_splits prod.splits sum.splits)

lemma committed_receipt:
  assumes "committed_run P keep n h c s d" and "handler_ok iw_db tx_db (has_receipt P) h"
  shows "has_receipt P d (receipt_key n (ctx_envelope c))"
proof -
  obtain t0 t u c2 u' rows where q: "pg_record P keep n (ctx_envelope c) t0 = (Inr True, t)"
      and h: "call h (fst (with_transaction c t)) u = (Inr c2, u')"
      and d: "d = (tx_db (ctx_transaction c2))\<lparr>db_outbox := rows\<rparr>"
    using assms(1) unfolding committed_run_def by blast
  have "ctx_transaction (fst (with_transaction c t)) = t" by (simp add: with_transaction_def)
  then have "has_receipt P (tx_db (ctx_transaction c2)) (receipt_key n (ctx_envelope c))"
    using record_fresh [OF q] h assms(2) unfolding handler_ok_def by metis
  then show ?thesis by (simp add: d has_receipt_def)
qed

lemma run_all_or_nothing:
  assumes run: "transactional_run n hs (pg_inbox P keep) (store_write (tx_outbox P)) c s = (r, s')"
    and hs: "\<And>h. om_get hs (env_type (ctx_envelope c)) = Some h \<Longrightarrow> handler_ok iw_db tx_db (has_receipt P) h"
    and ids: "ids_fresh s"
  shows "iw_db s' = iw_db s \<and> (is_ok r \<longrightarrow> r = Inr [] \<and> has_receipt P (iw_db s) (receipt_key n (ctx_envelope c)))
    \<or> (is_ok r \<longrightarrow> r = Inr []) \<and> \<not> has_receipt P (iw_db s) (receipt_key n (ctx_envelope c))
      \<and> (\<exists>h. om_get hs (env_type (ctx_envelope c)) = Some h \<and> committed_run P keep n h c s (iw_db s'))"
    (is "?none \<or> ?all")
proof -
  have handlers: "\<forall>h. om_get hs (env_type (ctx_envelope c)) = Some h \<longrightarrow> handler_ok iw_db tx_db (has_receipt P) h"
    using hs by blast
  consider ?none
    | h t0 t u c2 u' held t2 where
      "om_get hs (env_type (ctx_envelope c)) = Some h" "ib_begin (pg_inbox P keep) s = (Inr t0, u)"
      "ib_record (pg_inbox P keep) n (ctx_envelope c) t0 = (Inr True, t)"
      "call h (fst (with_transaction c t)) u = (Inr c2, u')"
      "store_write (tx_outbox P) (ctx_transaction c2) (ctx_held c2) = (Inr held, t2)"
      "is_ok r \<longrightarrow> r = Inr held" "iw_db s' = tx_db t2"
    using inbox.run_cases [OF run handlers ids] by blast
  then show ?thesis
  proof cases
    case 1
    then show ?thesis by blast
  next
    case 2
    have b: "pg_begin s = (Inr t0, u)" and q: "pg_record P keep n (ctx_envelope c) t0 = (Inr True, t)"
      using 2(2,3) by (simp_all add: pg_inbox_def)
    have "\<not> has_receipt P (iw_db s) (receipt_key n (ctx_envelope c))"
      using record_fresh [OF q] inbox.begin_ok [OF ids 2(2)] by simp
    moreover have "committed_run P keep n h c s (iw_db s')"
      unfolding committed_run_def
      using b q begin_record_db [OF b q] 2(4,7) store_write_rows [OF 2(5)] by metis
    ultimately show ?thesis using 2(1,6) store_write_rows [OF 2(5)] by blast
  qed
qed

text \<open>The first run of a message: the handler works on the database with its receipt.\<close>

lemma transactional_run_first:
  assumes run: "transactional_run n hs (pg_inbox P keep) (store_write (tx_outbox P)) c s = (Inr held, s')"
    and ids: "ids_fresh s" and new: "\<not> has_receipt P (iw_db s) (receipt_key n (ctx_envelope c))"
    and table: "table_ok (db_outbox (iw_db s))"
    and h: "om_get hs (env_type (ctx_envelope c)) = Some h"
    and keeps: "tables_kept h"
  shows "held = [] \<and> (\<exists>t u c2 u'. recorded_db P keep n (ctx_envelope c) s = Some (tx_db t)
      \<and> call h (fst (with_transaction c t)) u = (Inr c2, u')
      \<and> db_outbox (iw_db s') = db_outbox (tx_db (ctx_transaction c2))
          @ map (outbox_row_of (pg_uuid P) (tx_now (ctx_transaction c2))) (ctx_held c2)
      \<and> db_app (iw_db s') = db_app (tx_db (ctx_transaction c2))
      \<and> db_inbox (iw_db s') = db_inbox (tx_db (ctx_transaction c2)))"
proof -
  let ?I = "pg_inbox P keep" and ?w = "store_write (tx_outbox P)"
  have r1: "and_then_io (map_err_io failure_from_store (ib_begin ?I)) (\<lambda>transaction.
     case ib_record ?I n (ctx_envelope c) transaction of
       (Inl e, _) \<Rightarrow> throw_io (failure_from_store e)
     | (Inr recorded, transaction) \<Rightarrow>
         if \<not> recorded then commit_with ?I transaction []
         else and_then_io (call h (fst (with_transaction c transaction)))
                (write_and_commit ?I ?w)) s = (Inr held, s')"
    using run h by (simp add: transactional_run_def find_handler_def ok_or_def and_then_io_def
        lift_io_def)
  then obtain t u where b: "ib_begin ?I s = (Inr t, u)"
    and r2: "(case ib_record ?I n (ctx_envelope c) t of
       (Inl e, _) \<Rightarrow> throw_io (failure_from_store e)
     | (Inr recorded, transaction) \<Rightarrow>
         if \<not> recorded then commit_with ?I transaction []
         else and_then_io (call h (fst (with_transaction c transaction)))
                (write_and_commit ?I ?w)) u = (Inr held, s')"
    by (auto simp: io_simps)
  note bk = inbox.begin_ok [OF ids b]
  obtain rec t1 where q: "ib_record ?I n (ctx_envelope c) t = (rec, t1)"
    by (cases "ib_record ?I n (ctx_envelope c) t")
  show ?thesis
  proof (cases rec)
    case (Inl e)
    then show ?thesis using r2 q by (simp add: io_simps)
  next
    case (Inr recorded)
    have recorded
      using inbox.record_old [of t P keep n "ctx_envelope c" t1] q Inr bk new by (cases recorded) auto
    then have r3: "and_then_io (call h (fst (with_transaction c t1))) (write_and_commit ?I ?w) u
        = (Inr held, s')"
      using r2 q Inr by simp
    then obtain c2 u' where cl: "call h (fst (with_transaction c t1)) u = (Inr c2, u')"
        and wc: "write_and_commit ?I ?w c2 u' = (Inr held, s')"
      by (auto simp: io_simps)
    have row: "recorded_db P keep n (ctx_envelope c) s = Some (tx_db t1)"
      using begin_record_db [of s t u P keep n "ctx_envelope c" t1] b q Inr \<open>recorded\<close>
      by (simp add: pg_inbox_def)
    then have "table_ok (db_outbox (tx_db (ctx_transaction (fst (with_transaction c t1)))))"
      using table recorded_db_keeps [OF row] by (simp add: with_transaction_def)
    then have "table_ok (db_outbox (tx_db (ctx_transaction c2)))"
      using keeps cl by (auto simp: tables_kept_def)
    from write_and_commit_rows [OF wc this] show ?thesis using row cl by blast
  qed
qed

section \<open>Properties\<close>

text \<open>A database for the examples, and a handler that counts in it and publishes an order.\<close>

definition empty_db :: "nat pg_database" where
  "empty_db = \<lparr>db_outbox = [], db_inbox = [], db_app = 0\<rparr>"

definition fresh_world :: "nat iworld" where
  "fresh_world =
     \<lparr>iw_db = empty_db, iw_now = 1000, iw_faults = [], iw_tx_faults = [], iw_ids = [5, 6]\<rparr>"

definition count_handler :: "(nat iworld, nat pg_transaction) erased_handler" where
  "count_handler c s =
     (Returned (Inr (c\<lparr>ctx_held := ctx_held c @ [order_placed],
        ctx_transaction := (ctx_transaction c)\<lparr>tx_db :=
          (tx_db (ctx_transaction c))\<lparr>db_app := Suc (db_app (tx_db (ctx_transaction c)))\<rparr>\<rparr>\<rparr>)), s)"

definition counting :: "(nat iworld, nat pg_transaction) handlers" where
  "counting = [(MessageType ''order.placed.v1'', count_handler)]"

definition billing_context :: "unit handler_context" where
  "billing_context = handler_context_new (Source ''shop'') ''billing'' order_placed 1"

definition first_delivery :: "(failure, envelope list) result \<times> nat iworld" where
  "first_delivery = transactional_run ''billing'' counting (pg_inbox plain_api False)
     (store_write (tx_outbox plain_api)) billing_context fresh_world"

lemma counting_get:
  "om_get counting (env_type (ctx_envelope billing_context)) = Some h \<longleftrightarrow> h = count_handler"
  by (auto simp: counting_def billing_context_def handler_context_new_def om_get_def order_placed_def)

lemma count_handler_call:
  "call count_handler c s = (Inr c', s') \<longleftrightarrow> s' = s \<and> c' = c\<lparr>ctx_held := ctx_held c @ [order_placed],
      ctx_transaction := (ctx_transaction c)\<lparr>tx_db :=
        (tx_db (ctx_transaction c))\<lparr>db_app := Suc (db_app (tx_db (ctx_transaction c)))\<rparr>\<rparr>\<rparr>"
  by (auto simp: call_def count_handler_def)

lemma count_handler_ok: "handler_ok iw_db tx_db (has_receipt P) count_handler"
  by (auto simp: handler_ok_def call_def count_handler_def has_receipt_def)

lemma order_time: "pg_timestamptz plain_api (timestamp_text (env_time order_placed))
    = Some (unix_nanos (env_time order_placed) div 1000)"
  using order_placed_ok by (simp add: plain_api_def timestamp_from_text envelope_ok_def)

lemma fresh_ids: "ids_fresh fresh_world"
  by (simp add: ids_fresh_def fresh_world_def empty_db_def pop_def)

lemma find_counting:
  "find_handler counting n (ctx_envelope billing_context) = Inr count_handler"
  by (simp add: find_handler_def ok_or_def counting_get [THEN iffD2])

lemmas run_simps = and_then_io_def lift_io_def return_io_def throw_io_def map_err_io_def
  transactional_run_def write_and_commit_def commit_with_def store_write_def
  pg_inbox_def pg_begin_def pg_record_def pg_commit_def tx_statement_def pop_def
  tx_outbox_def insert_row_def insert_receipt_def
  with_transaction_def Let_def

lemma first_delivery_handled:
  "\<exists>s1. first_delivery = (Inr [], s1) \<and> ids_fresh s1 \<and> db_app (iw_db s1) = 1"
  unfolding first_delivery_def transactional_run_def find_counting
  by (simp add: run_simps fresh_world_def empty_db_def call_def count_handler_def
      billing_context_def handler_context_new_def order_time ids_fresh_def receipt_row_def)

text \<open>
  C11: a transactional endpoint's work is all or nothing, whatever fails (the connection, a
  statement, the handler, a commit whose answer is lost). Either the database is the one before,
  and the run reports success only for a message it had a receipt of; or it had none, the handler
  ran in the transaction with the new receipt and returned, and the database is what the handler
  made of it there, with the receipt and the outbox rows of everything the handler published. So a
  handler that fails leaves no receipt, and nothing of its own.
\<close>

theorem inbox_all_or_nothing:
  assumes "transactional_run n hs (pg_inbox P keep) (store_write (tx_outbox P)) c s = (r, s')"
    and "\<And>h. om_get hs (env_type (ctx_envelope c)) = Some h \<Longrightarrow>
      handler_ok iw_db tx_db (has_receipt P) h"
    and "ids_fresh s"
  shows "iw_db s' = iw_db s
      \<and> (is_ok r \<longrightarrow> r = Inr [] \<and> has_receipt P (iw_db s) (receipt_key n (ctx_envelope c)))
    \<or> (is_ok r \<longrightarrow> r = Inr []) \<and> \<not> has_receipt P (iw_db s) (receipt_key n (ctx_envelope c))
      \<and> has_receipt P (iw_db s') (receipt_key n (ctx_envelope c))
      \<and> (\<exists>h. om_get hs (env_type (ctx_envelope c)) = Some h \<and> committed_run P keep n h c s (iw_db s'))"
proof -
  have "iw_db s' = iw_db s \<or> has_receipt P (iw_db s') (receipt_key n (ctx_envelope c))"
    using inbox.run_atomic(1) [OF assms(1) _ store_write_ok assms(3)] assms(2) by blast
  moreover have "has_receipt P (iw_db s') (receipt_key n (ctx_envelope c))" if "iw_db s' = d"
      "committed_run P keep n h c s d" "om_get hs (env_type (ctx_envelope c)) = Some h" for d h
    using committed_receipt [OF that(2)] assms(2) [OF that(3)] that(1) by blast
  ultimately show ?thesis using run_all_or_nothing [OF assms(1) _ assms(3)] assms(2) by blast
qed

theorem inbox_all_or_nothing_witness:
  "has_receipt plain_api (iw_db (snd first_delivery)) (receipt_key ''billing'' order_placed)
    \<and> committed_run plain_api False ''billing'' count_handler billing_context fresh_world
        (iw_db (snd first_delivery))"
proof -
  obtain s1 where s1: "first_delivery = (Inr [], s1)" using first_delivery_handled by blast
  have new: "\<not> has_receipt plain_api (iw_db fresh_world) (receipt_key ''billing'' order_placed)"
    by (simp add: has_receipt_def fresh_world_def empty_db_def receipt_key_def)
  have e: "ctx_envelope billing_context = order_placed"
    by (simp add: billing_context_def handler_context_new_def)
  have ok: "handler_ok iw_db tx_db (has_receipt plain_api) h"
    if "om_get counting (env_type (ctx_envelope billing_context)) = Some h" for h
    using that count_handler_ok by (simp add: counting_get)
  show ?thesis
    using inbox_all_or_nothing [OF s1 [unfolded first_delivery_def] ok fresh_ids] new counting_get
    unfolding s1 e by auto
qed

text \<open>
  A message recorded as handled is not handled again: a later delivery of it never runs the
  handler, whichever it is, changes nothing in the database and publishes nothing.
\<close>

lemma inbox_handles_once:
  assumes "has_receipt P (iw_db s) (receipt_key n (ctx_envelope c))"
    and "find_handler hs n (ctx_envelope c) = Inr h" and "find_handler hs' n (ctx_envelope c) = Inr h'"
    and "ids_fresh s"
  shows "transactional_run n hs (pg_inbox P keep) w c s = transactional_run n hs' (pg_inbox P keep) w' c s
    \<and> (\<forall>r s'. transactional_run n hs (pg_inbox P keep) w c s = (r, s') \<longrightarrow>
         iw_db s' = iw_db s \<and> (\<forall>held. r = Inr held \<longrightarrow> held = []))"
  using inbox.run_again(1) [OF assms] inbox.run_again(2) [OF assms] by blast

lemma inbox_handles_once_example:
  "\<exists>s1. first_delivery = (Inr [], s1)
    \<and> iw_db (snd (transactional_run ''billing'' counting (pg_inbox plain_api False)
        (store_write (tx_outbox plain_api)) billing_context s1)) = iw_db s1"
proof -
  obtain s1 where s1: "first_delivery = (Inr [], s1)" "ids_fresh s1"
    using first_delivery_handled by blast
  have "has_receipt plain_api (iw_db s1) (receipt_key ''billing'' (ctx_envelope billing_context))"
    using inbox.run_atomic(2) [OF s1(1) [unfolded first_delivery_def] _ store_write_ok fresh_ids refl]
      count_handler_ok by (simp add: counting_get)
  from inbox_handles_once [OF this find_counting find_counting s1(2)] s1(1) show ?thesis
    by (metis prod.collapse)
qed

text \<open>
  C2: in any history of deliveries to a transactional endpoint (a message delivered any number of
  times, in any order, with any failures, while others work on the database and keep the receipts of
  some messages) the deliveries of each of these messages change the database at most once, and then
  leave its receipt.
\<close>

theorem inbox_effect_at_most_once:
  assumes "delivery_history (transactional_run n hs (pg_inbox P keep) (store_write (tx_outbox P)))
      n iw_db (has_receipt P) ids_fresh K s log s'"
    and "\<forall>t h. om_get hs t = Some h \<longrightarrow> handler_ok iw_db tx_db (has_receipt P) h" and "k \<in> K"
  shows "length (filter (\<lambda>(k', effect). k' = k \<and> effect) log) \<le> (if has_receipt P (iw_db s') k then 1 else 0)"
  using assms(2) by (intro inbox.effect_at_most_once [OF _ store_write_ok assms(3,1)]) blast

theorem inbox_effect_at_most_once_witness:
  "\<exists>s'. delivery_history (transactional_run ''billing'' counting (pg_inbox plain_api False)
        (store_write (tx_outbox plain_api))) ''billing'' iw_db (has_receipt plain_api) ids_fresh UNIV fresh_world
      [(receipt_key ''billing'' order_placed, True), (receipt_key ''billing'' order_placed, False)] s'"
proof -
  let ?run = "transactional_run ''billing'' counting (pg_inbox plain_api False)
    (store_write (tx_outbox plain_api))"
  let ?d = "delivery_history ?run ''billing'' iw_db (has_receipt plain_api) ids_fresh UNIV fresh_world"
  let ?k = "receipt_key ''billing'' order_placed"
  obtain s1 where s1: "first_delivery = (Inr [], s1)" "ids_fresh s1" "db_app (iw_db s1) = 1"
    using first_delivery_handled by blast
  obtain r s2 where s2: "?run billing_context s1 = (r, s2)" by fastforce
  have h: "\<forall>t h. om_get counting t = Some h \<longrightarrow> handler_ok iw_db tx_db (has_receipt plain_api) h"
    using count_handler_ok by (auto simp: counting_def om_get_def split: if_splits)
  have c: "ctx_envelope billing_context = order_placed"
    by (simp add: billing_context_def handler_context_new_def)
  have effect: "(iw_db s1 \<noteq> iw_db fresh_world) = True"
    using s1(3) by (auto simp: fresh_world_def empty_db_def)
  have "?d [] fresh_world" by (rule start)
  from deliver [OF this fresh_ids s1(1) [unfolded first_delivery_def]]
  have "?d [(?k, True)] s1" unfolding c effect by simp
  from deliver [OF this s1(2) s2] have log: "?d [(?k, True), (?k, iw_db s2 \<noteq> iw_db s1)] s2"
    unfolding c by simp
  from inbox_effect_at_most_once [OF log h UNIV_I, where k = ?k] have "iw_db s2 = iw_db s1"
    by (auto split: if_splits)
  then show ?thesis using log by auto
qed

text \<open>
  C18: a first delivery that is handled runs its handler on the database with the message's receipt, and
  commits the handler's own changes, one outbox row for each envelope it published, in order, and the
  receipts as the handler left them, together; nothing is left to publish directly.
\<close>

theorem inbox_commits_publishes:
  assumes "transactional_run n hs (pg_inbox P keep) (store_write (tx_outbox P)) c s = (Inr held, s')"
    and "ids_fresh s" and "\<not> has_receipt P (iw_db s) (receipt_key n (ctx_envelope c))"
    and "table_ok (db_outbox (iw_db s))"
    and "om_get hs (env_type (ctx_envelope c)) = Some h"
    and "tables_kept h"
  shows "held = [] \<and> (\<exists>t u c2 u'. recorded_db P keep n (ctx_envelope c) s = Some (tx_db t)
      \<and> call h (fst (with_transaction c t)) u = (Inr c2, u')
      \<and> db_outbox (iw_db s') = db_outbox (tx_db (ctx_transaction c2))
          @ map (outbox_row_of (pg_uuid P) (tx_now (ctx_transaction c2))) (ctx_held c2)
      \<and> db_app (iw_db s') = db_app (tx_db (ctx_transaction c2))
      \<and> db_inbox (iw_db s') = db_inbox (tx_db (ctx_transaction c2)))"
  by (rule transactional_run_first [OF assms])

theorem inbox_commits_publishes_witness:
  "map (\<lambda>row. (or_id row, or_status row)) (db_outbox (iw_db (snd first_delivery)))
     = [(7, Pending)] \<and> db_app (iw_db (snd first_delivery)) = 1"
proof -
  obtain s1 where s1: "first_delivery = (Inr [], s1)" "db_app (iw_db s1) = 1"
    using first_delivery_handled by blast
  have new: "\<not> has_receipt plain_api (iw_db fresh_world)
      (receipt_key ''billing'' (ctx_envelope billing_context))"
    by (simp add: has_receipt_def fresh_world_def empty_db_def receipt_key_def)
  have table: "table_ok (db_outbox (iw_db fresh_world))"
    by (simp add: fresh_world_def empty_db_def table_ok_def)
  have keeps: "tables_kept count_handler" by (simp add: tables_kept_def count_handler_call)
  from inbox_commits_publishes [OF s1(1) [unfolded first_delivery_def] fresh_ids new table counting_get [THEN iffD2, OF refl] keeps]
  obtain t u c2 u' where "recorded_db plain_api False ''billing'' (ctx_envelope billing_context) fresh_world
      = Some (tx_db t)"
      "call count_handler (fst (with_transaction billing_context t)) u = (Inr c2, u')"
      "db_outbox (iw_db s1) = db_outbox (tx_db (ctx_transaction c2))
          @ map (outbox_row_of (pg_uuid plain_api) (tx_now (ctx_transaction c2))) (ctx_held c2)"
    by blast
  moreover have "db_outbox (tx_db t) = [] \<and> db_app (tx_db t) = 0"
    using recorded_db_keeps [OF calculation(1)] by (simp add: fresh_world_def empty_db_def)
  ultimately show ?thesis
    unfolding s1(1) snd_conv using s1(2)
    by (simp add: count_handler_call fresh_world_def empty_db_def with_transaction_def
        billing_context_def handler_context_new_def outbox_row_of_def) (simp add: order_placed_def)
qed

end
