(* ===== verification/Pg_Partitions.thy ===== *)
theory Pg_Partitions
  imports Maintenance Delivery
begin

text \<open>
  The partitions of the outbox and inbox tables (\<open>postgres/src/partitions.rs\<close>): the algorithm that
  fills the days no partition holds, the names and the SQL it sends, and the maintenance store on
  a catalog of range partitions. A stored row is its time, its key and, in the outbox, its status.
\<close>

section \<open>Names and SQL\<close>

definition quote_char :: char where
  "quote_char = CHR 0x22"

definition quoted :: "string \<Rightarrow> string" where
  "quoted n =
     quote_char # concat (map (\<lambda>c. if c = quote_char then [c, c] else [c]) n) @ [quote_char]"

datatype table = OutboxTable | InboxTable

definition table_name :: "table \<Rightarrow> string" where
  "table_name t =
     (case t of OutboxTable \<Rightarrow> ''outbox_messages'' | InboxTable \<Rightarrow> ''inbox_receipts'')"

definition new_partition_name :: "table \<Rightarrow> date \<Rightarrow> string" where
  "new_partition_name t first =
     table_name t @ ''_p'' @ filter (\<lambda>c. c \<noteq> CHR ''-'') (date_text first)"

definition day_literal :: "date \<Rightarrow> string" where
  "day_literal d = [CHR 0x27] @ date_text d @ '' 00:00+00'' @ [CHR 0x27]"

definition create_sql :: "table \<Rightarrow> date \<Rightarrow> date \<Rightarrow> string" where
  "create_sql t first next =
     ''CREATE TABLE '' @ quoted (new_partition_name t first) @ '' PARTITION OF '' @ table_name t
     @ '' FOR VALUES FROM ('' @ day_literal first @ '') TO ('' @ day_literal next @ '')''"

definition expire_sql :: "table \<Rightarrow> partition_info \<Rightarrow> expiry \<Rightarrow> string" where
  "expire_sql t p mode =
     (case mode of
        Drop \<Rightarrow> ''DROP TABLE '' @ quoted (partition_name p)
      | Detach \<Rightarrow>
          ''ALTER TABLE '' @ table_name t @ '' DETACH PARTITION '' @ quoted (partition_name p))"

text \<open>How SQL reads a quoted identifier: up to a quote that is not doubled.\<close>

fun lex_quoted :: "string \<Rightarrow> (string \<times> string) option" where
  "lex_quoted [] = None"
| "lex_quoted [c] = (if c = quote_char then Some ([], []) else None)"
| "lex_quoted (c # d # rest) =
     (if c = quote_char
      then (if d = quote_char
            then map_option (\<lambda>(n, r). (c # n, r)) (lex_quoted rest)
            else Some ([], d # rest))
      else map_option (\<lambda>(n, r). (c # n, r)) (lex_quoted (d # rest)))"

lemma lex_quoted_body:
  assumes "case rest of [] \<Rightarrow> True | c # _ \<Rightarrow> c \<noteq> quote_char"
  shows "lex_quoted (concat (map (\<lambda>c. if c = quote_char then [c, c] else [c]) n)
    @ quote_char # rest) = Some (n, rest)"
proof (induction n)
  case Nil
  then show ?case using assms by (cases rest) auto
next
  case (Cons c n)
  show ?case
  proof (cases "c = quote_char")
    case True
    then show ?thesis using Cons by simp
  next
    case False
    then show ?thesis using Cons
      by (cases "concat (map (\<lambda>c. if c = quote_char then [c, c] else [c]) n) @ quote_char # rest")
        auto
  qed
qed

section \<open>Filling the gaps\<close>

type_synonym 's creator = "date \<Rightarrow> date \<Rightarrow> ('s, store_error, unit) io"

definition holds_day :: "partition_info \<Rightarrow> date \<Rightarrow> bool" where
  "holds_day p cur \<longleftrightarrow> from_day p \<le> cur \<and> cur < to_day p"

definition gap_end :: "partition_info list \<Rightarrow> date \<Rightarrow> date \<Rightarrow> date" where
  "gap_end existing stop cur =
     (case filter (\<lambda>next. cur < next) (map from_day existing) of
        [] \<Rightarrow> stop
      | next # others \<Rightarrow> min (foldl min next others) stop)"

definition get_or_insert :: "'e option \<Rightarrow> 'e \<Rightarrow> 'e option" where
  "get_or_insert first e = (case first of None \<Rightarrow> Some e | Some _ \<Rightarrow> first)"

lemma foldl_min_gt: "(\<forall>n \<in> set ns. cur < n) \<Longrightarrow> cur < n \<Longrightarrow> cur < foldl min n (ns :: date list)"
  by (induction ns arbitrary: n) auto

lemma gap_end_gt: "cur < stop \<Longrightarrow> cur < gap_end existing stop cur"
proof -
  assume cur: "cur < stop"
  show ?thesis
  proof (cases "filter (\<lambda>next. cur < next) (map from_day existing)")
    case Nil
    then show ?thesis using cur by (simp add: gap_end_def)
  next
    case (Cons n ns)
    have "\<forall>m \<in> set (filter (\<lambda>next. cur < next) (map from_day existing)). cur < m" by simp
    then have "\<forall>m \<in> set (n # ns). cur < m" unfolding Cons .
    then show ?thesis using Cons cur foldl_min_gt [of ns cur n] by (simp add: gap_end_def)
  qed
qed

function fill_gaps ::
    "'s creator \<Rightarrow> date \<Rightarrow> date \<Rightarrow> partition_info list \<Rightarrow> store_error option \<Rightarrow> 's
      \<Rightarrow> partition_info list \<times> store_error option \<times> 's" where
  "fill_gaps create stop cur existing first_error s =
     (if cur < stop then
        (case find (\<lambda>p. holds_day p cur) existing of
           Some holder \<Rightarrow> fill_gaps create stop (to_day holder) existing first_error s
         | None \<Rightarrow>
             (case create cur (gap_end existing stop cur) s of
                (Inr _, s') \<Rightarrow>
                  fill_gaps create stop (gap_end existing stop cur)
                    (existing @ [partition_info_new [] cur (gap_end existing stop cur)])
                    first_error s'
              | (Inl error, s') \<Rightarrow>
                  fill_gaps create stop (gap_end existing stop cur) existing
                    (get_or_insert first_error error) s'))
      else (existing, first_error, s))"
  by pat_completeness auto
termination
proof (relation "measure (\<lambda>(_, stop, cur, _). nat (date_days stop - date_days cur))", goal_cases)
  case 1
  then show ?case by simp
next
  case (2 create stop cur existing first_error s)
  then show ?case using gap_end_gt [OF 2(1), of existing] by (simp add: date_order)
next
  case (3 create stop cur existing first_error s)
  then show ?case using gap_end_gt [OF 3(1), of existing] by (simp add: date_order)
next
  case (4 create stop cur existing first_error s holder)
  then have "cur < to_day holder" by (auto simp: find_Some_iff holds_day_def)
  then show ?case using 4(1) by (simp add: date_order)
qed

declare fill_gaps.simps [simp del]

fun ensure_loop ::
    "'s creator \<Rightarrow> partition_interval \<Rightarrow> nat \<Rightarrow> date \<Rightarrow> partition_info list
      \<Rightarrow> store_error option \<Rightarrow> 's \<Rightarrow> store_error option \<times> 's" where
  "ensure_loop create i 0 start existing first_error s = (first_error, s)"
| "ensure_loop create i (Suc n) start existing first_error s =
     (case fill_gaps create (interval_end i start) start existing first_error s of
        (existing, first_error, s) \<Rightarrow>
          ensure_loop create i n (interval_end i start) existing first_error s)"

section \<open>What filling does\<close>

lemma find_holder:
  "find (\<lambda>p. holds_day p cur) existing = Some h \<Longrightarrow> h \<in> set existing \<and> holds_day h cur"
  by (auto simp: find_Some_iff)

lemma foldl_min_le: "foldl min n (ns :: date list) \<le> n \<and> (\<forall>m \<in> set ns. foldl min n ns \<le> m)"
proof (induction ns arbitrary: n)
  case Nil
  then show ?case by simp
next
  case (Cons a ns)
  have "foldl min (min n a) ns \<le> min n a" "\<forall>m \<in> set ns. foldl min (min n a) ns \<le> m"
    using Cons [of "min n a"] by blast+
  then show ?case by auto
qed

text \<open>The gap ends before every partition that starts after the day.\<close>

lemma gap_end_le:
  "gap_end existing stop cur \<le> stop"
  "p \<in> set existing \<Longrightarrow> cur < from_day p \<Longrightarrow> gap_end existing stop cur \<le> from_day p"
proof -
  show "gap_end existing stop cur \<le> stop"
    by (simp add: gap_end_def split: list.splits)
  assume p: "p \<in> set existing" "cur < from_day p"
  then have "from_day p \<in> set (filter (\<lambda>next. cur < next) (map from_day existing))" by auto
  then show "gap_end existing stop cur \<le> from_day p"
  proof (cases "filter (\<lambda>next. cur < next) (map from_day existing)")
    case Nil
    then show ?thesis using \<open>from_day p \<in> _\<close> by simp
  next
    case (Cons n ns)
    then have "from_day p = n \<or> from_day p \<in> set ns" using \<open>from_day p \<in> _\<close> by simp
    then have "foldl min n ns \<le> from_day p" using foldl_min_le [of n ns] by auto
    then show ?thesis using Cons by (simp add: gap_end_def min.coboundedI1)
  qed
qed

text \<open>A gap does not meet a partition that is there.\<close>

lemma gap_disjoint:
  assumes "find (\<lambda>p. holds_day p cur) existing = None" and "p \<in> set existing"
    and "cur \<le> d" and "d < gap_end existing stop cur"
  shows "\<not> holds_day p d"
proof
  assume h: "holds_day p d"
  have "\<not> holds_day p cur" using assms(1,2) by (auto simp: find_None_iff)
  then have "cur < from_day p" using h assms(3) by (auto simp: holds_day_def)
  then have "gap_end existing stop cur \<le> from_day p" using gap_end_le(2) assms(2) by blast
  then show False using h assms(4) by (auto simp: holds_day_def)
qed

definition covered :: "partition_info list \<Rightarrow> date \<Rightarrow> bool" where
  "covered existing cur \<longleftrightarrow> (\<exists>p \<in> set existing. holds_day p cur)"

lemma fill_gaps_mono:
  "fill_gaps create stop cur existing err s = (existing', err', s') \<Longrightarrow>
    set existing \<subseteq> set existing' \<and> (err \<noteq> None \<longrightarrow> err' \<noteq> None)"
proof (induction create stop cur existing err s rule: fill_gaps.induct)
  case (1 create stop cur existing err s)
  show ?case
  proof (cases "cur < stop")
    case False
    then show ?thesis using 1(4) by (simp add: fill_gaps.simps)
  next
    case True
    show ?thesis
    proof (cases "find (\<lambda>p. holds_day p cur) existing")
      case (Some h)
      then show ?thesis using 1(3) [OF True Some] 1(4) True by (simp add: fill_gaps.simps [of _ _ cur])
    next
      case None
      obtain r t where c: "create cur (gap_end existing stop cur) s = (r, t)"
        by (cases "create cur (gap_end existing stop cur) s")
      show ?thesis
      proof (cases r)
        case (Inl e)
        then show ?thesis using 1(1) [OF True None c [symmetric] Inl] 1(4) True None c
          by (auto simp: fill_gaps.simps [of _ _ cur] get_or_insert_def split: option.splits)
      next
        case (Inr u)
        then show ?thesis using 1(2) [OF True None c [symmetric] Inr] 1(4) True None c
          by (auto simp: fill_gaps.simps [of _ _ cur])
      qed
    qed
  qed
qed

lemma fill_gaps_covers:
  "fill_gaps create stop cur existing err s = (existing', None, s') \<Longrightarrow>
    cur \<le> d \<Longrightarrow> d < stop \<Longrightarrow> covered existing' d"
proof (induction create stop cur existing err s rule: fill_gaps.induct)
  case (1 create stop cur existing err s)
  have True: "cur < stop" using 1(5,6) by simp
  show ?case
  proof (cases "find (\<lambda>p. holds_day p cur) existing")
    case (Some h)
    have run: "fill_gaps create stop (to_day h) existing err s = (existing', None, s')"
      using 1(4) True Some by (simp add: fill_gaps.simps [of _ _ cur])
    show ?thesis
    proof (cases "d < to_day h")
      case True
      have "holds_day h d" "h \<in> set existing"
        using find_holder [OF Some] True 1(5) by (auto simp: holds_day_def)
      then show ?thesis using fill_gaps_mono [OF run] by (auto simp: covered_def)
    next
      case False
      then show ?thesis using 1(3) [OF \<open>cur < stop\<close> Some run _ 1(6)] by simp
    qed
  next
    case None
    let ?g = "gap_end existing stop cur"
    obtain r t where c: "create cur ?g s = (r, t)" by (cases "create cur ?g s")
    show ?thesis
    proof (cases r)
      case (Inl e)
      then have run: "fill_gaps create stop ?g existing (get_or_insert err e) t = (existing', None, s')"
        using 1(4) True None c by (simp add: fill_gaps.simps [of _ _ cur])
      have "get_or_insert err e \<noteq> None" by (cases err) (simp_all add: get_or_insert_def)
      then have False using fill_gaps_mono [OF run] by blast
      then show ?thesis ..
    next
      case (Inr u)
      let ?new = "partition_info_new [] cur ?g"
      have run: "fill_gaps create stop ?g (existing @ [?new]) err t = (existing', None, s')"
        using 1(4) True None c Inr by (simp add: fill_gaps.simps [of _ _ cur])
      show ?thesis
      proof (cases "d < ?g")
        case d: True
        have "holds_day ?new d" using d 1(5) by (simp add: holds_day_def partition_info_new_def)
        then show ?thesis using fill_gaps_mono [OF run] by (auto simp: covered_def)
      next
        case False
        then show ?thesis using 1(2) [OF True None c [symmetric] Inr run _ 1(6)] by simp
      qed
    qed
  qed
qed

lemma gap_end_among: "gap_end existing stop cur \<in> insert stop (from_day ` set existing)"
proof (cases "filter (\<lambda>next. cur < next) (map from_day existing)")
  case Nil
  then show ?thesis by (simp add: gap_end_def)
next
  case (Cons n ns)
  have "foldl min n ns \<in> set (n # ns)" for n and ns :: "date list"
    by (induction ns arbitrary: n) (auto simp: min_def split: if_splits)
  moreover have "set (n # ns) \<subseteq> from_day ` set existing" using Cons [symmetric] by auto
  ultimately have "foldl min n ns \<in> from_day ` set existing" by blast
  then show ?thesis using Cons by (simp add: gap_end_def min_def)
qed

text \<open>An invariant of the partitions known and the state, where all dates met satisfy \<open>D\<close>.\<close>

lemma fill_gaps_invariant_on:
  assumes inv: "\<And>cur gap existing s r s'. Q existing s \<Longrightarrow> D cur \<Longrightarrow> D gap \<Longrightarrow> cur < gap \<Longrightarrow>
      (\<And>p d. p \<in> set existing \<Longrightarrow> cur \<le> d \<Longrightarrow> d < gap \<Longrightarrow> \<not> holds_day p d) \<Longrightarrow>
      create cur gap s = (r, s') \<Longrightarrow>
      Q (if is_ok r then existing @ [partition_info_new [] cur gap] else existing) s'"
    and dates: "\<And>existing s p. Q existing s \<Longrightarrow> p \<in> set existing \<Longrightarrow> D (from_day p) \<and> D (to_day p)"
    and stop: "D stop"
  shows "fill_gaps create stop cur existing err s = (existing', err', s') \<Longrightarrow> Q existing s \<Longrightarrow> D cur \<Longrightarrow>
    Q existing' s'"
proof -
  have "\<forall>cur gap existing s r s'. Q existing s \<and> D cur \<and> D gap \<and> cur < gap
      \<and> (\<forall>p \<in> set existing. \<forall>d. cur \<le> d \<and> d < gap \<longrightarrow> \<not> holds_day p d) \<and> create cur gap s = (r, s')
      \<longrightarrow> Q (if is_ok r then existing @ [partition_info_new [] cur gap] else existing) s'"
    using inv by blast
  then show "fill_gaps create stop cur existing err s = (existing', err', s') \<Longrightarrow> Q existing s \<Longrightarrow> D cur \<Longrightarrow>
    Q existing' s'"
    using stop
  proof (induction create stop cur existing err s rule: fill_gaps.induct)
    case (1 create stop cur existing err s)
    note run0 = 1(4) and q = 1(5) and cur = 1(6) and inv = 1(7) and stop = 1(8)
    show ?case
    proof (cases "cur < stop")
      case False
      then show ?thesis using run0 q by (simp add: fill_gaps.simps)
    next
      case True
      show ?thesis
      proof (cases "find (\<lambda>p. holds_day p cur) existing")
        case (Some h)
        have run: "fill_gaps create stop (to_day h) existing err s = (existing', err', s')"
          using run0 True Some by (simp add: fill_gaps.simps [of _ _ cur])
        have "D (to_day h)" using dates [OF q] find_holder [OF Some] by blast
        then show ?thesis by (rule 1(3) [OF True Some run q _ inv stop])
      next
        case None
        let ?g = "gap_end existing stop cur"
        have g: "D ?g" using gap_end_among [of existing stop cur] dates [OF q] stop by auto
        obtain r t where c: "create cur ?g s = (r, t)" by (cases "create cur ?g s")
        have q': "Q (if is_ok r then existing @ [partition_info_new [] cur ?g] else existing) t"
          using inv q cur g gap_end_gt [OF True] c gap_disjoint [OF None] by blast
        show ?thesis
        proof (cases r)
          case (Inl e)
          have run: "fill_gaps create stop ?g existing (get_or_insert err e) t = (existing', err', s')"
            using run0 True None c Inl by (simp add: fill_gaps.simps [of _ _ cur])
          show ?thesis using 1(1) [OF True None c [symmetric] Inl run _ g inv stop] q' Inl by simp
        next
          case (Inr u)
          have run: "fill_gaps create stop ?g (existing @ [partition_info_new [] cur ?g]) err t
              = (existing', err', s')"
            using run0 True None c Inr by (simp add: fill_gaps.simps [of _ _ cur])
          show ?thesis using 1(2) [OF True None c [symmetric] Inr run _ g inv stop] q' Inr by simp
        qed
      qed
    qed
  qed
qed

lemmas fill_gaps_invariant = fill_gaps_invariant_on [where D = "\<lambda>_. True", simplified]

text \<open>The first day after \<open>n\<close> intervals from the one that starts at \<open>start\<close>.\<close>

fun intervals_end :: "partition_interval \<Rightarrow> nat \<Rightarrow> date \<Rightarrow> date" where
  "intervals_end i 0 start = start"
| "intervals_end i (Suc n) start = intervals_end i n (interval_end i start)"

lemma ensure_loop_error:
  "ensure_loop create i n start existing err s = (None, s') \<Longrightarrow> err = None"
proof (induction n arbitrary: start existing err s)
  case 0
  then show ?case by simp
next
  case (Suc n)
  obtain ex' err' t where f: "fill_gaps create (interval_end i start) start existing err s
      = (ex', err', t)"
    by (cases "fill_gaps create (interval_end i start) start existing err s")
  then have "err' = None" using Suc by simp
  then show ?case using fill_gaps_mono [OF f] by blast
qed

section \<open>The catalog\<close>

record stored_row =
  sr_time :: int
  sr_status :: "row_status option"   \<comment> \<open>no status in the inbox\<close>
  sr_id :: uuid

record pg_partition =
  pp_name :: string
  pp_from :: date
  pp_to :: date

record pworld =
  pw_table :: table
  pw_parts :: "pg_partition list"
  pw_relations :: "string list"      \<comment> \<open>names of the schema's other tables\<close>
  pw_rows :: "stored_row list"
  pw_detached :: "stored_row list"
  pw_default :: "string option"      \<comment> \<open>the default partition, when there is one\<close>
  pw_lock_taken :: bool              \<comment> \<open>another instance holds the lock\<close>
  pw_faults :: "fault list"

definition day_start :: "date \<Rightarrow> int" where
  "day_start d = date_days d * SECONDS_PER_DAY * 1000000"

definition part_holds :: "pg_partition \<Rightarrow> int \<Rightarrow> bool" where
  "part_holds p t \<longleftrightarrow> day_start (pp_from p) \<le> t \<and> t < day_start (pp_to p)"

definition in_default :: "pworld \<Rightarrow> stored_row \<Rightarrow> bool" where
  "in_default w row \<longleftrightarrow> \<not> list_ex (\<lambda>p. part_holds p (sr_time row)) (pw_parts w)"

definition pw_statement ::
    "string \<Rightarrow> (pworld \<Rightarrow> (string, 'x \<times> pworld) result) \<Rightarrow> (pworld, store_error, 'x) io" where
  "pw_statement context f w =
     (let (fault, w) = (case pw_faults w of
            [] \<Rightarrow> (Fine, w) | x # xs \<Rightarrow> (x, w\<lparr>pw_faults := xs\<rparr>))
      in case fault of
           Refused \<Rightarrow> (Inl (Database context ''the connection failed''), w)
         | Fine \<Rightarrow>
             (case f w of
                Inl e \<Rightarrow> (Inl (Database context e), w)
              | Inr (x, w') \<Rightarrow> (Inr x, w'))
         | Lost \<Rightarrow>
             (Inl (Database context ''the connection was lost''),
              (case f w of Inl e \<Rightarrow> w | Inr (_, w') \<Rightarrow> w')))"

text \<open>\<open>PARTITIONS\<close>: name and bounds as text, oldest first; \<open>partitions\<close> reads the dates.\<close>

definition read_date :: "string \<Rightarrow> (store_error, date) result" where
  "read_date shown =
     map_err (\<lambda>e. Database ''reading a partition's bounds'' (envelope_error_text id e))
       (date_from_str shown)"

fun collect_results :: "('a \<Rightarrow> ('e, 'b) result) \<Rightarrow> 'a list \<Rightarrow> ('e, 'b list) result" where
  "collect_results f [] = Inr []"
| "collect_results f (x # xs) =
     and_then (f x) (\<lambda>y. and_then (collect_results f xs) (\<lambda>ys. Inr (y # ys)))"

definition list_partitions :: "(pworld, store_error, partition_info list) io" where
  "list_partitions =
     and_then_io
       (pw_statement ''listing the partitions'' (\<lambda>w.
          Inr (map (\<lambda>p. (pp_name p, date_text (pp_from p), date_text (pp_to p)))
                 (sort_key pp_from (pw_parts w)), w)))
       (\<lambda>rows. lift_io (collect_results (\<lambda>(n, first, next).
          and_then (read_date first) (\<lambda>f. and_then (read_date next) (\<lambda>t.
            Inr (partition_info_new n f t)))) rows))"

text \<open>
  What PostgreSQL does with \<open>create_sql\<close>: it refuses a name that is taken, bounds that are empty
  or meet another partition's, and days of which the default partition holds rows.
\<close>

definition create_effect :: "date \<Rightarrow> date \<Rightarrow> pworld \<Rightarrow> (string, unit \<times> pworld) result" where
  "create_effect first next w =
     (let p = \<lparr>pp_name = new_partition_name (pw_table w) first, pp_from = first, pp_to = next\<rparr> in
      if pp_name p \<in> set (map pp_name (pw_parts w) @ pw_relations w) then Inl ''relation exists''
      else if \<not> first < next then Inl ''empty range bound''
      else if list_ex (\<lambda>q. pp_from q < next \<and> first < pp_to q) (pw_parts w)
      then Inl ''would overlap partition''
      else if list_ex (\<lambda>row. in_default w row \<and> part_holds p (sr_time row)) (pw_rows w)
      then Inl ''updated partition constraint for default partition would be violated''
      else Inr ((), w\<lparr>pw_parts := pw_parts w @ [p]\<rparr>))"

definition create_partition :: "pworld creator" where
  "create_partition first next =
     pw_statement ''creating a partition'' (create_effect first next)"

definition ensure_partitions ::
    "partition_interval \<Rightarrow> date \<Rightarrow> nat \<Rightarrow> (pworld, store_error, unit) io" where
  "ensure_partitions i first n =
     and_then_io list_partitions (\<lambda>existing w.
       case ensure_loop create_partition i n (interval_start i first) existing None w of
         (None, w') \<Rightarrow> (Inr (), w')
       | (Some error, w') \<Rightarrow> (Inl error, w'))"

text \<open>The rows a table of that name holds.\<close>

definition rows_of :: "string \<Rightarrow> pworld \<Rightarrow> stored_row list" where
  "rows_of n w =
     filter (\<lambda>row. list_ex (\<lambda>p. pp_name p = n \<and> part_holds p (sr_time row)) (pw_parts w)) (pw_rows w)"

definition count_unsent :: "partition_info \<Rightarrow> (pworld, store_error, partition_info) io" where
  "count_unsent p =
     pw_statement ''counting a partition's unsent rows'' (\<lambda>w.
       let rows = rows_of (partition_name p) w;
           pending = length (filter (\<lambda>row. sr_status row = Some Pending) rows);
           failed = length (filter (\<lambda>row. sr_status row = Some Failed) rows)
       in Inr (p\<lparr>pending_rows := pending, failed_rows := failed\<rparr>, w))"

fun count_all :: "partition_info list \<Rightarrow> (pworld, store_error, partition_info list) io" where
  "count_all [] = return_io []"
| "count_all (p # ps) =
     and_then_io (count_unsent p) (\<lambda>p. and_then_io (count_all ps) (\<lambda>ps. return_io (p # ps)))"

definition expirable :: "date \<Rightarrow> (pworld, store_error, partition_info list) io" where
  "expirable older_than =
     and_then_io list_partitions (\<lambda>ps w.
       let found = filter (\<lambda>p. to_day p \<le> older_than) ps in
       if pw_table w = OutboxTable then count_all found w else (Inr found, w))"

definition default_rows :: "(pworld, store_error, nat) io" where
  "default_rows =
     and_then_io (pw_statement ''finding the default partition'' (\<lambda>w. Inr (pw_default w, w)))
       (\<lambda>default. case default of
          None \<Rightarrow> return_io 0
        | Some n \<Rightarrow>
            pw_statement ''counting the default partition's rows'' (\<lambda>w.
              Inr (length (filter (in_default w) (pw_rows w)), w)))"

text \<open>
  \<open>DROP TABLE\<close> takes the rows with it; \<open>DETACH PARTITION\<close> leaves a table of its own. The lock
  timeout, the statement and the commit are one transaction, so one statement here.
\<close>

definition expire_effect ::
    "partition_info \<Rightarrow> expiry \<Rightarrow> pworld \<Rightarrow> (string, unit \<times> pworld) result" where
  "expire_effect p mode w =
     (let n = partition_name p; gone = rows_of n w;
          w' = w\<lparr>pw_parts := filter (\<lambda>q. pp_name q \<noteq> n) (pw_parts w),
                 pw_rows := filter (\<lambda>row. row \<notin> set gone) (pw_rows w)\<rparr>
      in if n \<notin> pp_name ` set (pw_parts w) then Inl ''relation does not exist''
         else (case mode of
                 Drop \<Rightarrow> Inr ((), w')
               | Detach \<Rightarrow> Inr ((), w'\<lparr>pw_relations := n # pw_relations w,
                                      pw_detached := pw_detached w @ gone\<rparr>)))"

definition expire :: "partition_info \<Rightarrow> expiry \<Rightarrow> (pworld, store_error, unit) io" where
  "expire p mode = pw_statement ''expiring a partition'' (expire_effect p mode)"

definition try_lock :: "(pworld, store_error, bool) io" where
  "try_lock = pw_statement ''taking the partition lock'' (\<lambda>w. Inr (\<not> pw_lock_taken w, w))"

definition pg_partitions :: "pworld partition_store" where
  "pg_partitions =
     \<lparr>ps_try_lock = try_lock, ps_unlock = (\<lambda>w. w), ps_ensure_partitions = ensure_partitions,
      ps_default_rows = default_rows, ps_expirable = expirable, ps_expire = expire\<rparr>"

section \<open>No unsent row is lost\<close>

definition is_unsent :: "stored_row \<Rightarrow> bool" where
  "is_unsent row \<longleftrightarrow> sr_status row = Some Pending \<or> sr_status row = Some Failed"

definition unsent_rows :: "pworld \<Rightarrow> stored_row set" where
  "unsent_rows w = (if pw_table w = OutboxTable then {row \<in> set (pw_rows w). is_unsent row} else {})"

definition clean_partition :: "pworld \<Rightarrow> partition_info \<Rightarrow> bool" where
  "clean_partition w p \<longleftrightarrow>
     pw_table w = OutboxTable \<longrightarrow> \<not> list_ex is_unsent (rows_of (partition_name p) w)"

text \<open>Two worlds that differ in nothing but what their statements will do.\<close>

definition same_tables :: "pworld \<Rightarrow> pworld \<Rightarrow> bool" where
  "same_tables w w' \<longleftrightarrow> w'\<lparr>pw_faults := pw_faults w\<rparr> = w"

lemma same_tables_fields:
  assumes "same_tables w w'"
  shows "pw_table w' = pw_table w" and "pw_parts w' = pw_parts w" and "pw_rows w' = pw_rows w"
    and "rows_of n w' = rows_of n w" and "unsent_rows w' = unsent_rows w"
    and "clean_partition w' p = clean_partition w p" and "pw_relations w' = pw_relations w"
  using assms
  by (cases w; cases w';
      auto simp: same_tables_def rows_of_def unsent_rows_def clean_partition_def)+

lemma same_tables_trans: "same_tables a b \<Longrightarrow> same_tables b c \<Longrightarrow> same_tables a c"
  by (cases a; cases b; cases c) (auto simp: same_tables_def)

lemma same_tables_refl [simp]: "same_tables w w"
  by (simp add: same_tables_def)

lemma pw_statement_cases:
  assumes "pw_statement context f w = (r, w')"
  obtains u where "same_tables w u"
    and "w' = u \<or> (\<exists>x. f u = Inr (x, w'))"
    and "\<And>x. r = Inr x \<Longrightarrow> f u = Inr (x, w')"
proof -
  obtain fault u where u: "(case pw_faults w of
      [] \<Rightarrow> (Fine, w) | x # xs \<Rightarrow> (x, w\<lparr>pw_faults := xs\<rparr>)) = (fault, u)"
    by (cases "case pw_faults w of [] \<Rightarrow> (Fine, w) | x # xs \<Rightarrow> (x, w\<lparr>pw_faults := xs\<rparr>)")
  have s: "same_tables w u"
    using u by (auto simp: same_tables_def split: list.splits)
  show thesis
    by (rule that [OF s])
      (use assms u in \<open>auto simp: pw_statement_def Let_def split: fault.splits sum.splits prod.splits\<close>)
qed

lemma pw_query_same:
  assumes "pw_statement context (\<lambda>w. Inr (f w, w)) w = (r, w')"
  shows "same_tables w w'" and "r = Inr x \<Longrightarrow> x = f w'"
  using assms by (auto elim!: pw_statement_cases)

lemma list_partitions_same: "list_partitions w = (r, w') \<Longrightarrow> same_tables w w'"
  unfolding list_partitions_def and_then_io_def
  by (auto simp: io_simps dest: pw_query_same(1) split: prod.splits sum.splits)

lemma create_effect_Inr:
  assumes "create_effect first next u = Inr (x, w')"
  shows "first < next" and "\<exists>p. pp_from p = first \<and> pp_to p = next
      \<and> w' = u\<lparr>pw_parts := pw_parts u @ [p]\<rparr>"
    and "q \<in> set (pw_parts u) \<Longrightarrow> \<not> (pp_from q < next \<and> first < pp_to q)"
  using assms unfolding create_effect_def Let_def
  by (auto simp: list_ex_iff split: if_splits intro: exI [of _ "\<lparr>pp_name = _, pp_from = _, pp_to = _\<rparr>"])

lemma create_partition_cases:
  assumes "create_partition first next w = (r, w')"
  obtains u where "same_tables w u" and "w' = u \<or> create_effect first next u = Inr ((), w')"
    and "\<And>x. r = Inr x \<Longrightarrow> create_effect first next u = Inr ((), w')"
  using assms unfolding create_partition_def by (elim pw_statement_cases) simp

lemma create_partition_unsent:
  assumes "create_partition first next w = (r, w')"
  shows "unsent_rows w' = unsent_rows w"
  using assms
proof (rule create_partition_cases)
  fix u
  assume u: "same_tables w u" and c: "w' = u \<or> create_effect first next u = Inr ((), w')"
  have "unsent_rows w' = unsent_rows u"
    using c
  proof
    assume "create_effect first next u = Inr ((), w')"
    from create_effect_Inr(2) [OF this] show ?thesis by (auto simp: unsent_rows_def)
  qed simp
  then show ?thesis using same_tables_fields(5) [OF u] by simp
qed

lemma fill_gaps_state:
  assumes "\<And>a b s r s'. create a b s = (r, s') \<Longrightarrow> P s \<Longrightarrow> P s'"
    and "fill_gaps create stop cur existing err s = (existing', err', s')" and "P s"
  shows "P s'"
  using fill_gaps_invariant [of "\<lambda>_. P" create stop cur existing err s existing' err' s'] assms
  by blast

lemma ensure_loop_state:
  assumes "\<And>a b s r s'. create a b s = (r, s') \<Longrightarrow> P s \<Longrightarrow> P s'"
  shows "ensure_loop create i n start existing err s = (err', s') \<Longrightarrow> P s \<Longrightarrow> P s'"
proof (induction n arbitrary: start existing err s)
  case 0
  then show ?case by simp
next
  case (Suc n)
  obtain ex e t where f: "fill_gaps create (interval_end i start) start existing err s = (ex, e, t)"
    by (cases "fill_gaps create (interval_end i start) start existing err s")
  have "P t" using fill_gaps_state [where P = P, OF _ f Suc.prems(2)] assms by blast
  then show ?case using Suc.IH Suc.prems(1) f by simp
qed

lemma ensure_partitions_state:
  assumes "\<And>a b s r s'. create_partition a b s = (r, s') \<Longrightarrow> P s \<Longrightarrow> P s'"
    and "\<And>s s'. same_tables s s' \<Longrightarrow> P s \<Longrightarrow> P s'"
    and "ensure_partitions i first n w = (r, w')" and "P w"
  shows "P w'"
proof -
  obtain l u where l: "list_partitions w = (l, u)" by (cases "list_partitions w")
  have u: "P u" by (rule assms(2) [OF list_partitions_same [OF l] assms(4)])
  show ?thesis
  proof (cases l)
    case (Inl e)
    then show ?thesis using assms(3) l u by (simp add: ensure_partitions_def and_then_io_def)
  next
    case (Inr existing)
    obtain e t where e: "ensure_loop create_partition i n (interval_start i first) existing None u
        = (e, t)"
      by (cases "ensure_loop create_partition i n (interval_start i first) existing None u")
    have "P t" using ensure_loop_state [where P = P, OF _ e u] assms(1) by blast
    then show ?thesis using assms(3) l Inr e
      by (simp add: ensure_partitions_def and_then_io_def split: option.splits)
  qed
qed

lemma count_unsent_Inr:
  assumes "count_unsent p w = (r, w')"
  shows "same_tables w w'"
    and "r = Inr q \<Longrightarrow> pending_rows q = 0 \<Longrightarrow> failed_rows q = 0 \<Longrightarrow> clean_partition w' q"
proof -
  let ?f = "\<lambda>w. let rows = rows_of (partition_name p) w;
           pending = length (filter (\<lambda>row. sr_status row = Some Pending) rows);
           failed = length (filter (\<lambda>row. sr_status row = Some Failed) rows)
       in p\<lparr>pending_rows := pending, failed_rows := failed\<rparr>"
  have run: "pw_statement ''counting a partition's unsent rows'' (\<lambda>w. Inr (?f w, w)) w = (r, w')"
    using assms by (simp add: count_unsent_def Let_def)
  show "same_tables w w'" by (rule pw_query_same(1) [OF run])
  assume "r = Inr q" "pending_rows q = 0" "failed_rows q = 0"
  then show "clean_partition w' q"
    using pw_query_same(2) [OF run, of q]
    by (auto simp: Let_def clean_partition_def list_ex_iff is_unsent_def filter_empty_conv)
qed

lemma count_all_Inr:
  "count_all ps w = (r, w') \<Longrightarrow> same_tables w w' \<and>
    (\<forall>qs. r = Inr qs \<longrightarrow> (\<forall>q \<in> set qs. pending_rows q = 0 \<longrightarrow> failed_rows q = 0 \<longrightarrow>
      clean_partition w' q))"
proof (induction ps arbitrary: w r w')
  case Nil
  then show ?case by (auto simp: io_simps)
next
  case (Cons p ps)
  obtain c u where c: "count_unsent p w = (c, u)" by (cases "count_unsent p w")
  note cu = count_unsent_Inr [OF c]
  show ?case
  proof (cases c)
    case (Inl e)
    then show ?thesis using Cons.prems c cu(1) by (auto simp: and_then_io_def)
  next
    case (Inr q)
    obtain d v where d: "count_all ps u = (d, v)" by (cases "count_all ps u")
    note dv = Cons.IH [OF d]
    have "w' = v" and r: "r = (case d of Inl e \<Rightarrow> Inl e | Inr qs \<Rightarrow> Inr (q # qs))"
      using Cons.prems c Inr d by (auto simp: and_then_io_def io_simps split: sum.splits)
    moreover have "clean_partition v q" if "pending_rows q = 0" "failed_rows q = 0"
      using cu(2) [OF Inr] that same_tables_fields(6) dv by blast
    ultimately show ?thesis using dv same_tables_trans [OF cu(1)] by (auto split: sum.splits)
  qed
qed

lemma expirable_cases:
  assumes "expirable older w = (r, w')"
  shows "same_tables w w'"
    and "r = Inr ps \<Longrightarrow> p \<in> set ps \<Longrightarrow> pending_rows p = 0 \<Longrightarrow> failed_rows p = 0 \<Longrightarrow>
      clean_partition w' p"
proof -
  obtain l u where l: "list_partitions w = (l, u)" by (cases "list_partitions w")
  note lu = list_partitions_same [OF l]
  have "same_tables w w' \<and> (\<forall>ps. r = Inr ps \<longrightarrow> (\<forall>p \<in> set ps. pending_rows p = 0 \<longrightarrow>
      failed_rows p = 0 \<longrightarrow> clean_partition w' p))"
  proof (cases l)
    case (Inl e)
    then show ?thesis using assms l lu by (auto simp: expirable_def and_then_io_def)
  next
    case (Inr ps)
    show ?thesis
    proof (cases "pw_table u = OutboxTable")
      case True
      then have "count_all (filter (\<lambda>p. to_day p \<le> older) ps) u = (r, w')"
        using assms l Inr by (simp add: expirable_def and_then_io_def Let_def)
      then show ?thesis using count_all_Inr same_tables_trans [OF lu] by blast
    next
      case False
      then have "w' = u" using assms l Inr by (auto simp: expirable_def and_then_io_def Let_def)
      then show ?thesis using False lu by (simp add: clean_partition_def)
    qed
  qed
  then show "same_tables w w'" and "r = Inr ps \<Longrightarrow> p \<in> set ps \<Longrightarrow> pending_rows p = 0 \<Longrightarrow>
      failed_rows p = 0 \<Longrightarrow> clean_partition w' p" by blast+
qed

lemma expire_effect_Inr:
  assumes "expire_effect p mode u = Inr (x, w')"
  shows "pw_table w' = pw_table u"
    and "pw_parts w' = filter (\<lambda>q. pp_name q \<noteq> partition_name p) (pw_parts u)"
    and "pw_rows w' = filter (\<lambda>row. row \<notin> set (rows_of (partition_name p) u)) (pw_rows u)"
  using assms by (auto simp: expire_effect_def Let_def split: if_splits expiry.splits)

lemma expire_keeps:
  assumes "expire p mode w = (r, w')" and "clean_partition w p"
  shows "unsent_rows w' = unsent_rows w"
    and "clean_partition w q \<Longrightarrow> clean_partition w' q"
proof -
  from assms(1) [unfolded expire_def]
  have "unsent_rows w' = unsent_rows w \<and> (clean_partition w q \<longrightarrow> clean_partition w' q)"
  proof (rule pw_statement_cases)
    fix u
    assume u: "same_tables w u" and c: "w' = u \<or> (\<exists>x. expire_effect p mode u = Inr (x, w'))"
    have cu: "clean_partition u p" using assms(2) same_tables_fields(6) [OF u] by simp
    have "unsent_rows w' = unsent_rows u \<and> (clean_partition u q \<longrightarrow> clean_partition w' q)"
      using c
    proof (elim disjE exE)
      fix x
      assume "expire_effect p mode u = Inr (x, w')"
      note e = expire_effect_Inr [OF this]
      have "unsent_rows w' = unsent_rows u"
        using cu by (auto simp: unsent_rows_def e clean_partition_def list_ex_iff)
      moreover have sub: "set (rows_of n w') \<subseteq> set (rows_of n u)" for n
        by (auto simp: rows_of_def e list_ex_iff)
      have "clean_partition w' q" if "clean_partition u q"
        using that e(1) sub [of "partition_name q"] by (auto simp: clean_partition_def list_ex_iff)
      ultimately show ?thesis by blast
    qed simp
    then show ?thesis using same_tables_fields(5,6) [OF u] by simp
  qed
  then show "unsent_rows w' = unsent_rows w"
    and "clean_partition w q \<Longrightarrow> clean_partition w' q" by blast+
qed

lemma default_rows_same: "default_rows s = (r, t) \<Longrightarrow> same_tables s t"
  unfolding default_rows_def and_then_io_def
  by (auto simp: io_simps dest!: pw_query_same(1) intro: same_tables_trans
      split: prod.splits sum.splits option.splits)

lemma try_lock_same: "try_lock s = (r, t) \<Longrightarrow> same_tables s t"
  unfolding try_lock_def by (rule pw_query_same(1))

interpretation partitions: partition_contract pg_partitions unsent_rows clean_partition "\<lambda>_. True" "\<lambda>_. True"
proof unfold_locales
  fix s t :: pworld
  show "unsent_rows t = unsent_rows s \<and> True" if "ps_try_lock pg_partitions s = (r, t)" for r
    using same_tables_fields(5) [OF try_lock_same] that by (simp add: pg_partitions_def)
  show "unsent_rows (ps_unlock pg_partitions s) = unsent_rows s \<and> True"
    by (simp add: pg_partitions_def)
  show "unsent_rows t = unsent_rows s \<and> True" if "ps_ensure_partitions pg_partitions i d n s = (r, t)"
    for i d n r
    using ensure_partitions_state [of "\<lambda>w. unsent_rows w = unsent_rows s" i d n s r t]
      that create_partition_unsent same_tables_fields(5) by (auto simp: pg_partitions_def)
  show "unsent_rows t = unsent_rows s \<and> True" if "ps_default_rows pg_partitions s = (r, t)" for r
    using same_tables_fields(5) [OF default_rows_same] that by (simp add: pg_partitions_def)
  show "unsent_rows t = unsent_rows s \<and> True" if "ps_expirable pg_partitions d s = (r, t)" for d r
    using that expirable_cases(1) same_tables_fields(5) by (auto simp: pg_partitions_def)
  show "clean_partition t p" if "ps_expirable pg_partitions d s = (Inr ps, t)" "p \<in> set ps"
      "pending_rows p = 0" "failed_rows p = 0" for d ps p
    using that expirable_cases(2) by (auto simp: pg_partitions_def)
  show "unsent_rows t = unsent_rows s \<and> True"
    if "clean_partition s p" "ps_expire pg_partitions p m s = (r, t)" for p m r
    using that expire_keeps(1) by (auto simp: pg_partitions_def)
  show "clean_partition t q"
    if "clean_partition s p" "clean_partition s q" "ps_expire pg_partitions p m s = (r, t)"
    for p q m r
    using that expire_keeps(2) by (auto simp: pg_partitions_def)
qed

section \<open>Every day ahead has a partition\<close>

definition parts_ok :: "pworld \<Rightarrow> bool" where
  "parts_ok w \<longleftrightarrow> list_all (\<lambda>p. date_ok (pp_from p) \<and> date_ok (pp_to p)) (pw_parts w)"

text \<open>No two partitions hold a day between them.\<close>

definition parts_disjoint :: "pworld \<Rightarrow> bool" where
  "parts_disjoint w \<longleftrightarrow>
     sorted_wrt (\<lambda>p q. pp_to p \<le> pp_from q \<or> pp_to q \<le> pp_from p) (pw_parts w)"

definition bounds :: "pg_partition list \<Rightarrow> (date \<times> date) set" where
  "bounds ps = (\<lambda>p. (pp_from p, pp_to p)) ` set ps"

definition tracked :: "partition_info list \<Rightarrow> pworld \<Rightarrow> bool" where
  "tracked existing w \<longleftrightarrow> (\<lambda>p. (from_day p, to_day p)) ` set existing \<subseteq> bounds (pw_parts w)"

lemma collect_results_Inr:
  "(\<And>x. x \<in> set xs \<Longrightarrow> f x = Inr (g x)) \<Longrightarrow> collect_results f xs = Inr (map g xs)"
  by (induction xs) auto

lemma read_date_text: "date_ok d \<Longrightarrow> read_date (date_text d) = Inr d"
  by (simp add: read_date_def date_from_str_text)

lemma list_partitions_Inr:
  assumes "parts_ok w" and "list_partitions w = (Inr existing, w')"
  shows "same_tables w w'"
    and "existing = map (\<lambda>p. partition_info_new (pp_name p) (pp_from p) (pp_to p))
      (sort_key pp_from (pw_parts w))"
proof -
  show s: "same_tables w w'" using assms(2) by (rule list_partitions_same)
  let ?rows = "map (\<lambda>p. (pp_name p, date_text (pp_from p), date_text (pp_to p)))
      (sort_key pp_from (pw_parts w))"
  have "collect_results (\<lambda>(n, first, next). and_then (read_date first) (\<lambda>f.
      and_then (read_date next) (\<lambda>t. Inr (partition_info_new n f t)))) ?rows
    = Inr (map (\<lambda>p. partition_info_new (pp_name p) (pp_from p) (pp_to p))
      (sort_key pp_from (pw_parts w)))"
    using assms(1)
    by (subst collect_results_Inr [where g = "\<lambda>(n, first, next).
        partition_info_new n (projr (read_date first)) (projr (read_date next))"])
      (auto simp: parts_ok_def list_all_iff read_date_text)
  moreover have "collect_results (\<lambda>(n, first, next). and_then (read_date first) (\<lambda>f.
      and_then (read_date next) (\<lambda>t. Inr (partition_info_new n f t)))) ?rows = Inr existing"
  proof -
    let ?q = "\<lambda>w. map (\<lambda>p. (pp_name p, date_text (pp_from p), date_text (pp_to p)))
        (sort_key pp_from (pw_parts w))"
    obtain rows where rows: "pw_statement ''listing the partitions'' (\<lambda>w. Inr (?q w, w)) w
        = (Inr rows, w')"
        "collect_results (\<lambda>(n, first, next). and_then (read_date first) (\<lambda>f.
          and_then (read_date next) (\<lambda>t. Inr (partition_info_new n f t)))) rows = Inr existing"
      using assms(2) unfolding list_partitions_def by (auto simp: io_simps)
    have "rows = ?q w'" by (rule pw_query_same(2) [OF rows(1) refl])
    then have "rows = ?rows" by (simp only: same_tables_fields(2) [OF s])
    then show ?thesis using rows(2) by simp
  qed
  ultimately show "existing = map (\<lambda>p. partition_info_new (pp_name p) (pp_from p) (pp_to p))
      (sort_key pp_from (pw_parts w))" by simp
qed

lemma create_partition_tracked:
  assumes "create_partition a b s = (r, s')" and "tracked existing s" and "parts_disjoint s"
  shows "tracked (if is_ok r then existing @ [partition_info_new [] a b] else existing) s'
    \<and> parts_disjoint s' \<and> bounds (pw_parts s) \<subseteq> bounds (pw_parts s')"
  using assms(1)
proof (rule create_partition_cases)
  fix u
  assume u: "same_tables s u" and c: "s' = u \<or> create_effect a b u = Inr ((), s')"
    and ok: "\<And>x. r = Inr x \<Longrightarrow> create_effect a b u = Inr ((), s')"
  note parts = same_tables_fields(2) [OF u]
  show ?thesis
  proof (cases "create_effect a b u = Inr ((), s')")
    case True
    obtain p where p: "pp_from p = a" "pp_to p = b" "s' = u\<lparr>pw_parts := pw_parts u @ [p]\<rparr>"
      using create_effect_Inr(2) [OF True] by blast
    have "\<not> (pp_from q < b \<and> a < pp_to q)" if "q \<in> set (pw_parts u)" for q
      using create_effect_Inr(3) [OF True that] .
    then have "parts_disjoint s'"
      using assms(3) p parts by (auto simp: parts_disjoint_def sorted_wrt_append not_less)
    then show ?thesis
      using assms(2) p parts by (auto simp: tracked_def bounds_def partition_info_new_def)
  next
    case False
    then have "s' = u" "\<not> is_ok r" using c ok by (auto simp: is_ok_iff)
    then show ?thesis using assms(2,3) parts by (simp add: tracked_def parts_disjoint_def)
  qed
qed

lemma covered_tracked:
  "tracked existing w \<Longrightarrow> covered existing d \<Longrightarrow>
    \<exists>p \<in> set (pw_parts w). pp_from p \<le> d \<and> d < pp_to p"
  by (force simp: tracked_def covered_def bounds_def holds_day_def)

lemma ensure_loop_covers:
  "ensure_loop create_partition i n start existing err s = (None, s') \<Longrightarrow>
    tracked existing s \<Longrightarrow> parts_disjoint s \<Longrightarrow>
    parts_disjoint s' \<and> bounds (pw_parts s) \<subseteq> bounds (pw_parts s') \<and>
    (\<forall>d. start \<le> d \<longrightarrow> d < intervals_end i n start \<longrightarrow>
      (\<exists>p \<in> set (pw_parts s'). pp_from p \<le> d \<and> d < pp_to p))"
proof (induction n arbitrary: start existing err s)
  case 0
  then show ?case by auto
next
  case (Suc n)
  let ?stop = "interval_end i start"
  obtain ex e t where f: "fill_gaps create_partition ?stop start existing err s = (ex, e, t)"
    by (cases "fill_gaps create_partition ?stop start existing err s")
  then have loop: "ensure_loop create_partition i n ?stop ex e t = (None, s')"
    using Suc.prems(1) by simp
  then have e: "e = None" by (rule ensure_loop_error)
  let ?Q = "\<lambda>existing u. tracked existing u \<and> parts_disjoint u
      \<and> bounds (pw_parts s) \<subseteq> bounds (pw_parts u)"
  have q: "?Q ex t"
    by (rule fill_gaps_invariant [where Q = ?Q, OF _ f])
      (use Suc.prems(2,3) create_partition_tracked in \<open>blast+\<close>)
  note ih = Suc.IH [OF loop]
  have rest: "parts_disjoint s'" "bounds (pw_parts t) \<subseteq> bounds (pw_parts s')"
    "\<And>d. ?stop \<le> d \<Longrightarrow> d < intervals_end i n ?stop \<Longrightarrow>
      \<exists>p \<in> set (pw_parts s'). pp_from p \<le> d \<and> d < pp_to p"
    using ih q by blast+
  have "\<exists>p \<in> set (pw_parts s'). pp_from p \<le> d \<and> d < pp_to p"
    if "start \<le> d" "d < intervals_end i (Suc n) start" for d
  proof (cases "d < ?stop")
    case True
    have "covered ex d" by (rule fill_gaps_covers [OF f [unfolded e] that(1) True])
    then obtain p where "p \<in> set (pw_parts t)" "pp_from p \<le> d" "d < pp_to p"
      using covered_tracked q by blast
    then have "(pp_from p, pp_to p) \<in> bounds (pw_parts s')" using rest(2) by (auto simp: bounds_def)
    then show ?thesis using \<open>pp_from p \<le> d\<close> \<open>d < pp_to p\<close> by (force simp: bounds_def)
  next
    case False
    then show ?thesis using rest(3) that(2) by simp
  qed
  then show ?case using rest(1,2) q by blast
qed

lemma ensure_partitions_covers:
  assumes "parts_ok w" and "parts_disjoint w" and "ensure_partitions i first n w = (Inr (), w')"
  shows "parts_disjoint w'" and "bounds (pw_parts w) \<subseteq> bounds (pw_parts w')"
    and "interval_start i first \<le> d \<Longrightarrow> d < intervals_end i n (interval_start i first) \<Longrightarrow>
      \<exists>p \<in> set (pw_parts w'). pp_from p \<le> d \<and> d < pp_to p"
proof -
  let ?run = "ensure_loop create_partition i n (interval_start i first)"
  obtain existing u where l: "list_partitions w = (Inr existing, u)"
      and c: "(case ?run existing None u of (None, w') \<Rightarrow> (Inr (), w')
        | (Some error, w') \<Rightarrow> (Inl error, w')) = (Inr (), w')"
    using assms(3) unfolding ensure_partitions_def and_then_io_Inr by blast
  have e: "?run existing None u = (None, w')"
    using c by (cases "?run existing None u") (auto split: option.splits)
  note lp = list_partitions_Inr [OF assms(1) l]
  have parts: "pw_parts u = pw_parts w" by (rule same_tables_fields(2) [OF lp(1)])
  have "tracked existing u"
    by (auto simp: tracked_def bounds_def lp(2) partition_info_new_def parts)
  moreover have "parts_disjoint u" using assms(2) parts by (simp add: parts_disjoint_def)
  ultimately have "parts_disjoint w' \<and> bounds (pw_parts u) \<subseteq> bounds (pw_parts w') \<and>
    (\<forall>d. interval_start i first \<le> d \<longrightarrow> d < intervals_end i n (interval_start i first) \<longrightarrow>
      (\<exists>p \<in> set (pw_parts w'). pp_from p \<le> d \<and> d < pp_to p))"
    by (rule ensure_loop_covers [OF e])
  then show "parts_disjoint w'" and "bounds (pw_parts w) \<subseteq> bounds (pw_parts w')"
    and "interval_start i first \<le> d \<Longrightarrow> d < intervals_end i n (interval_start i first) \<Longrightarrow>
      \<exists>p \<in> set (pw_parts w'). pp_from p \<le> d \<and> d < pp_to p"
    unfolding parts by blast+
qed

section \<open>Properties\<close>

text \<open>
  C17: whatever the retention, the expiry mode and the faults of the connection, no number of
  maintenance rounds removes an outbox row that is still to be sent or has failed.
\<close>

theorem maintenance_keeps_unsent:
  "unsent_rows (snd (maintenance_run pg_partitions settings rounds w)) = unsent_rows w"
  using partitions.maintenance_run_keeps [where s = w and rounds = rounds and settings = settings]
  by (simp add: partitions.retains_def split_beta)

text \<open>
  C21: when \<open>ensure_partitions\<close> succeeds, every day of the requested intervals is held by a partition,
  the partitions there were are kept, and no two partitions overlap.
\<close>

theorem ensure_partitions_cover_days:
  assumes "parts_ok w" and "parts_disjoint w" and "ensure_partitions i first n w = (Inr (), w')"
  shows "parts_disjoint w' \<and> bounds (pw_parts w) \<subseteq> bounds (pw_parts w')
    \<and> (\<forall>d. interval_start i first \<le> d \<and> d < intervals_end i n (interval_start i first) \<longrightarrow>
        (\<exists>p \<in> set (pw_parts w'). pp_from p \<le> d \<and> d < pp_to p))"
  using ensure_partitions_covers [OF assms] by blast

definition empty_outbox :: pworld where
  "empty_outbox =
     \<lparr>pw_table = OutboxTable, pw_parts = [], pw_relations = [''outbox_messages''], pw_rows = [],
      pw_detached = [], pw_default = None, pw_lock_taken = False, pw_faults = []\<rparr>"

lemma ensure_month: "is_ok (fst (ensure_partitions Month (Date 19782) 1 empty_outbox))"
  by code_simp

theorem ensure_partitions_cover_days_witness:
  "\<exists>p \<in> set (pw_parts (snd (ensure_partitions Month (Date 19782) 1 empty_outbox))).
     pp_from p \<le> Date 19782 \<and> Date 19782 < pp_to p"
proof -
  have ok: "parts_ok empty_outbox" "parts_disjoint empty_outbox"
    by (simp_all add: parts_ok_def parts_disjoint_def empty_outbox_def)
  obtain w' where e: "ensure_partitions Month (Date 19782) 1 empty_outbox = (Inr (), w')"
    using ensure_month
    by (cases "ensure_partitions Month (Date 19782) 1 empty_outbox") (auto simp: is_ok_iff)
  have "interval_start Month (Date 19782) \<le> Date 19782
      \<and> Date 19782 < intervals_end Month 1 (interval_start Month (Date 19782))"
    by code_simp
  then show ?thesis
    using ensure_partitions_cover_days [OF ok e] unfolding e snd_conv by blast
qed

text \<open>
  The name of a partition reaches PostgreSQL as one identifier, whatever characters it has: in the
  statement that expires a partition, the text after the only opening quote reads as exactly that
  name, to the end of the statement.
\<close>

lemma expire_names_the_partition:
  "\<exists>before body. expire_sql t p mode = before @ quote_char # body \<and> quote_char \<notin> set before
    \<and> lex_quoted body = Some (partition_name p, [])"
proof -
  let ?before = "case mode of Drop \<Rightarrow> ''DROP TABLE ''
    | Detach \<Rightarrow> ''ALTER TABLE '' @ table_name t @ '' DETACH PARTITION ''"
  let ?body = "concat (map (\<lambda>c. if c = quote_char then [c, c] else [c]) (partition_name p))
    @ [quote_char]"
  have "expire_sql t p mode = ?before @ quote_char # ?body"
    by (cases mode) (simp_all add: expire_sql_def quoted_def)
  moreover have "quote_char \<notin> set ?before"
    by (cases mode; cases t) (simp_all add: quote_char_def table_name_def)
  moreover have "lex_quoted ?body = Some (partition_name p, [])"
    using lex_quoted_body [of "[]"] by simp
  ultimately show ?thesis by blast
qed

end
