(* ===== verification/Nats.thy ===== *)
theory Nats
  imports Endpoint
begin

text \<open>
  The NATS JetStream transport (\<open>nats/src/settings.rs\<close>, \<open>transport.rs\<close> and \<open>subscribe.rs\<close>). The
  client crate is not under \<open>src/\<close>: its header map is the record \<open>header_api\<close> and its JetStream
  calls are the record \<open>jetstream\<close>, and \<open>header_api_ok\<close> states what the crate documents of a
  header map. Header names are compared as bytes.
\<close>

record nats_settings =
  ns_url :: string
  ns_prefix :: string
  ns_stream :: string
  ns_duplicate_window :: duration
  ns_ack_wait :: duration

definition nats_settings_default :: nats_settings where
  "nats_settings_default =
     \<lparr>ns_url = ''nats://localhost:4222'', ns_prefix = ''sisa'', ns_stream = ''SISA'',
      ns_duplicate_window = from_secs 120, ns_ack_wait = from_secs 30\<rparr>"

definition MSG_ID :: string where "MSG_ID = ''Nats-Msg-Id''"

definition CE :: string where "CE = ''ce-''"

definition subject :: "nats_settings \<Rightarrow> message_type \<Rightarrow> string" where
  "subject settings t = ns_prefix settings @ ''.'' @ type_str t"

definition error_subject :: "nats_settings \<Rightarrow> string \<Rightarrow> string" where
  "error_subject settings endpoint = ns_prefix settings @ ''._error.'' @ endpoint"

section \<open>Headers\<close>

text \<open>
  \<open>hv_parse\<close> is \<open>HeaderValue::from_str\<close>, which refuses a line break, and \<open>hv_from\<close> is
  \<open>HeaderValue::from\<close>.
\<close>

record 'h header_api =
  hm_new :: 'h
  hm_insert :: "string \<Rightarrow> string \<Rightarrow> 'h \<Rightarrow> 'h"
  hm_append :: "string \<Rightarrow> string \<Rightarrow> 'h \<Rightarrow> 'h"
  hm_entries :: "'h \<Rightarrow> (string \<times> string list) list"
  hv_parse :: "string \<Rightarrow> (string, string) result"
  hv_from :: "string \<Rightarrow> string"

definition header_api_ok :: "'h header_api \<Rightarrow> bool" where
  "header_api_ok H \<longleftrightarrow>
     (\<forall>h. distinct (map fst (hm_entries H h)))
     \<and> hm_entries H (hm_new H) = []
     \<and> (\<forall>h n v m. map_of (hm_entries H (hm_insert H n v h)) m
          = (if m = n then Some [v] else map_of (hm_entries H h) m))
     \<and> (\<forall>h n v m. map_of (hm_entries H (hm_append H n v h)) m
          = (if m = n then Some ((case map_of (hm_entries H h) n of None \<Rightarrow> [] | Some vs \<Rightarrow> vs) @ [v])
             else map_of (hm_entries H h) m))
     \<and> (\<forall>v w. hv_parse H v = Inr w \<longrightarrow> w = v)
     \<and> (\<forall>v. CHR 0x0A \<notin> set v \<and> CHR 0x0D \<notin> set v \<longrightarrow> hv_parse H v = Inr v \<and> hv_from H v = v)"

definition broker :: "string \<Rightarrow> string \<Rightarrow> transport_error" where
  "broker context source = Broker context source"

definition add_header ::
    "'h header_api \<Rightarrow> 'h \<Rightarrow> string \<times> string \<Rightarrow> (transport_error, 'h) result" where
  "add_header H h attribute =
     and_then (map_err (broker ''writing the CloudEvents headers'') (hv_parse H (snd attribute)))
       (\<lambda>value. Inr (hm_insert H (CE @ fst attribute) value h))"

definition headers :: "'h header_api \<Rightarrow> uuid_api \<Rightarrow> envelope \<Rightarrow> (transport_error, 'h) result" where
  "headers H U e =
     and_then (try_fold (add_header H) (hm_new H) (to_attributes U e)) (\<lambda>h.
       Inr (hm_insert H MSG_ID (message_id_text U (env_id e)) h))"

definition one_line :: "string \<Rightarrow> string" where
  "one_line value = map (\<lambda>c. if c = CHR 0x0D \<or> c = CHR 0x0A then CHR 0x20 else c) value"

definition error_headers :: "'h header_api \<Rightarrow> uuid_api \<Rightarrow> envelope \<Rightarrow> 'h" where
  "error_headers H U e =
     foldl (\<lambda>h (n, v). hm_insert H (CE @ n) (hv_from H (one_line v)) h) (hm_new H) (to_attributes U e)"

section \<open>Messages\<close>

record 'h nats_message =
  nm_headers :: "'h option"
  nm_payload :: string
  nm_delivered :: "(string, int) result"   \<comment> \<open>\<open>info()\<close>: the delivery count, an \<open>i64\<close>\<close>

definition attempt_of :: "int \<Rightarrow> nat" where
  "attempt_of delivered =
     (if 0 \<le> delivered \<and> delivered \<le> int U32_MAX then nat delivered else U32_MAX)"

definition header_attribute :: "string \<times> string list \<Rightarrow> (string \<times> string) option" where
  "header_attribute entry =
     Option.bind (strip_prefix CE (map to_lower (fst entry))) (\<lambda>attribute.
       (case snd entry of [] \<Rightarrow> None | v # _ \<Rightarrow> Some (attribute, v)))"

definition message_entries :: "'h header_api \<Rightarrow> 'h nats_message \<Rightarrow> (string \<times> string list) list" where
  "message_entries H m = (case nm_headers m of None \<Rightarrow> [] | Some h \<Rightarrow> hm_entries H h)"

definition read_message ::
    "'h header_api \<Rightarrow> uuid_api \<Rightarrow> (string \<Rightarrow> string) \<Rightarrow> 'h nats_message
      \<Rightarrow> (string, envelope \<times> nat) result" where
  "read_message H U debug m =
     and_then (nm_delivered m) (\<lambda>delivered.
     let attempt = attempt_of delivered;
         attributes = om_collect (List.map_filter header_attribute (message_entries H m))
     in and_then (map_err (envelope_error_text debug) (from_attributes U attributes (nm_payload m)))
          (\<lambda>e. Inr (e, attempt)))"

section \<open>JetStream\<close>

datatype ack_kind = Ack | Nak "duration option" | Term

datatype consumer_info_error = NotFound | OtherInfoError string

record consumer_info =
  ci_filter_subjects :: "string list"
  ci_filter_subject :: string

record consumer_config =
  cc_durable_name :: string
  cc_filter_subjects :: "string list"
  cc_ack_wait :: duration

record ('s, 'h, 'a, 'q) jetstream =
  js_publish :: "string \<Rightarrow> 'h \<Rightarrow> string \<Rightarrow> ('s, string, 'a) io"
  js_await_ack :: "'a \<Rightarrow> ('s, string, unit) io"
  js_get_stream :: "string \<Rightarrow> ('s, string, unit) io"
  js_consumer_info :: "string \<Rightarrow> ('s, consumer_info_error, consumer_info) io"
  js_create_consumer :: "consumer_config \<Rightarrow> ('s, string, 'q) io"
  js_messages :: "'q \<Rightarrow> ('s, string, 'q) io"
  js_double_ack :: "'h nats_message \<Rightarrow> ack_kind \<Rightarrow> ('s, string, unit) io"

definition nats_publish_to ::
    "('s, 'h, 'a, 'q) jetstream \<Rightarrow> string \<Rightarrow> 'h \<Rightarrow> string \<Rightarrow> ('s, transport_error, unit) io" where
  "nats_publish_to J dest h data =
     and_then_io (map_err_io (broker ''publishing to JetStream'') (js_publish J dest h data))
       (\<lambda>ack. map_err_io (broker ''waiting for the JetStream acknowledgement'') (js_await_ack J ack))"

definition nats_publish ::
    "'h header_api \<Rightarrow> uuid_api \<Rightarrow> ('s, 'h, 'a, 'q) jetstream \<Rightarrow> nats_settings \<Rightarrow> envelope
      \<Rightarrow> ('s, transport_error, unit) io" where
  "nats_publish H U J settings e =
     and_then_io (lift_io (headers H U e))
       (\<lambda>h. nats_publish_to J (subject settings (env_type e)) h (env_data e))"

definition nats_publish_error ::
    "'h header_api \<Rightarrow> uuid_api \<Rightarrow> ('s, 'h, 'a, 'q) jetstream \<Rightarrow> nats_settings \<Rightarrow> string \<Rightarrow> envelope
      \<Rightarrow> ('s, transport_error, unit) io" where
  "nats_publish_error H U J settings endpoint e =
     nats_publish_to J (error_subject settings endpoint) (error_headers H U e) (env_data e)"

section \<open>Subscribing\<close>

definition existing_filters :: "consumer_info \<Rightarrow> string list" where
  "existing_filters info =
     ci_filter_subjects info @ (if ci_filter_subject info = [] then [] else [ci_filter_subject info])"

definition widen :: "string list \<Rightarrow> string list \<Rightarrow> string list" where
  "widen wanted existing =
     foldl (\<lambda>subjects s. if s \<in> set subjects then subjects else subjects @ [s]) wanted existing"

definition consumer_filters ::
    "('s, 'h, 'a, 'q) jetstream \<Rightarrow> string \<Rightarrow> string list \<Rightarrow> ('s, transport_error, string list) io" where
  "consumer_filters J endpoint wanted s =
     (case js_consumer_info J endpoint s of
        (Inr info, s') \<Rightarrow> (Inr (widen wanted (existing_filters info)), s')
      | (Inl NotFound, s') \<Rightarrow> (Inr wanted, s')
      | (Inl (OtherInfoError e), s') \<Rightarrow> (Inl (broker ''reading the JetStream consumer'' e), s'))"

definition nats_subscribe ::
    "('s, 'h, 'a, 'q) jetstream \<Rightarrow> nats_settings \<Rightarrow> endpoint_spec \<Rightarrow> ('s, transport_error, 'q) io" where
  "nats_subscribe J settings spec =
     (if spec_message_types spec = []
      then throw_io (broker ''creating the JetStream consumer''
             ''an endpoint needs at least one message type'')
      else
        and_then_io (map_err_io (broker ''creating the JetStream consumer'')
          (js_get_stream J (ns_stream settings))) (\<lambda>_.
        and_then_io (consumer_filters J (spec_name spec)
          (map (subject settings) (spec_message_types spec))) (\<lambda>filters.
        and_then_io (map_err_io (broker ''creating the JetStream consumer'')
          (js_create_consumer J
             \<lparr>cc_durable_name = spec_name spec, cc_filter_subjects = filters,
              cc_ack_wait = ns_ack_wait settings\<rparr>)) (\<lambda>consumer.
        map_err_io (broker ''pulling from JetStream'') (js_messages J consumer)))))"

text \<open>
  \<open>NatsTransport::connect\<close>, whose connection and stream creation are the client's, and the transport
  that a connection gives.
\<close>

record stream_config =
  sc_name :: string
  sc_subjects :: "string list"
  sc_duplicate_window :: duration

definition nats_connect ::
    "(string \<Rightarrow> ('s, string, 'j) io) \<Rightarrow> ('j \<Rightarrow> stream_config \<Rightarrow> ('s, string, unit) io) \<Rightarrow> nats_settings
      \<Rightarrow> ('s, transport_error, 'j \<times> nats_settings) io" where
  "nats_connect connect create_or_update_stream settings =
     and_then_io (map_err_io (broker ''connecting to NATS'') (connect (ns_url settings)))
       (\<lambda>jetstream.
     and_then_io (map_err_io (broker ''creating the JetStream stream'')
       (create_or_update_stream jetstream
          \<lparr>sc_name = ns_stream settings, sc_subjects = [ns_prefix settings @ ''.>''],
           sc_duplicate_window = ns_duplicate_window settings\<rparr>)) (\<lambda>_.
     return_io (jetstream, settings)))"

definition nats_transport ::
    "'h header_api \<Rightarrow> uuid_api \<Rightarrow> ('s, 'h, 'a, 'q) jetstream \<Rightarrow> nats_settings \<Rightarrow> ('s, 'q) transport" where
  "nats_transport H U J settings =
     \<lparr>tr_publish = nats_publish H U J settings, tr_subscribe = nats_subscribe J settings,
      tr_publish_error = nats_publish_error H U J settings\<rparr>"

section \<open>Deliveries\<close>

definition kept_headers :: "'h header_api \<Rightarrow> 'h nats_message \<Rightarrow> 'h" where
  "kept_headers H m =
     foldl (\<lambda>h (n, vs). if n \<noteq> MSG_ID then foldl (\<lambda>h v. hm_append H n v h) h vs else h)
       (hm_new H) (message_entries H m)"

definition set_aside ::
    "'h header_api \<Rightarrow> ('s, 'h, 'a, 'q) jetstream \<Rightarrow> nats_settings \<Rightarrow> string \<Rightarrow> 'h nats_message
      \<Rightarrow> string \<Rightarrow> ('s, transport_error, unit) io" where
  "set_aside H J settings endpoint m error =
     (let h = kept_headers H m;
          h = hm_insert H (CE @ ''errorendpoint'') (hv_from H endpoint) h;
          h = hm_insert H (CE @ ''errortype'') (hv_from H ''invalid_envelope'') h;
          h = hm_insert H (CE @ ''errormessage'') (hv_from H (one_line error)) h
      in and_then_io (nats_publish_to J (error_subject settings endpoint) h (nm_payload m)) (\<lambda>_.
           map_err_io (broker ''settling a JetStream message'') (js_double_ack J m Term)))"

definition settle ::
    "('s, 'h, 'a, 'q) jetstream \<Rightarrow> 'h nats_message \<Rightarrow> ack_kind \<Rightarrow> ('s, transport_error, unit) io" where
  "settle J m kind =
     map_err_io (broker ''settling a JetStream message'') (js_double_ack J m kind)"

definition nats_delivery ::
    "('s, 'h, 'a, 'q) jetstream \<Rightarrow> 'h nats_message \<Rightarrow> envelope \<Rightarrow> nat \<Rightarrow> 's delivery" where
  "nats_delivery J m e attempt =
     \<lparr>dl_envelope = e, dl_attempt = attempt, dl_ack = settle J m Ack,
      dl_retry = (\<lambda>d. settle J m (Nak (Some d))), dl_reject = settle J m Term\<rparr>"

text \<open>One item of the pulled stream: \<open>None\<close> is an item that \<open>filter_map\<close> drops.\<close>

definition nats_item ::
    "'h header_api \<Rightarrow> uuid_api \<Rightarrow> (string \<Rightarrow> string) \<Rightarrow> ('s, 'h, 'a, 'q) jetstream \<Rightarrow> nats_settings
      \<Rightarrow> string \<Rightarrow> (string, 'h nats_message) result \<Rightarrow> 's
      \<Rightarrow> (transport_error, 's delivery) result option \<times> 's" where
  "nats_item H U debug J settings endpoint item s =
     (case item of
        Inl error \<Rightarrow> (Some (Inl (broker ''pulling from JetStream'' error)), s)
      | Inr m \<Rightarrow>
          (case read_message H U debug m of
             Inr (e, attempt) \<Rightarrow> (Some (Inr (nats_delivery J m e attempt)), s)
           | Inl error \<Rightarrow>
               (case set_aside H J settings endpoint m error s of
                  (Inr _, s') \<Rightarrow> (None, s')
                | (Inl e, s') \<Rightarrow> (Some (Inl e), s'))))"

section \<open>What goes on the wire comes back\<close>

lemma header_api_laws:
  assumes "header_api_ok H"
  shows "distinct (map fst (hm_entries H h))" and "hm_entries H (hm_new H) = []"
    and "map_of (hm_entries H (hm_insert H n v h)) m
      = (if m = n then Some [v] else map_of (hm_entries H h) m)"
    and "hv_parse H v = Inr w \<Longrightarrow> w = v"
  using assms by (auto simp: header_api_ok_def)

lemma add_header_Inr:
  "add_header H h (k, v) = Inr h' \<longleftrightarrow>
     (\<exists>w. hv_parse H v = Inr w \<and> h' = hm_insert H (CE @ k) w h)"
  by (auto simp: add_header_def result_simps split: sum.splits)

lemma headers_fold:
  assumes "header_api_ok H"
  shows "try_fold (add_header H) h kvs = Inr h' \<Longrightarrow> distinct (map fst kvs) \<Longrightarrow>
    map_of (hm_entries H h') n =
      (case strip_prefix CE n of
         Some k \<Rightarrow> (case map_of kvs k of Some v \<Rightarrow> Some [v] | None \<Rightarrow> map_of (hm_entries H h) n)
       | None \<Rightarrow> map_of (hm_entries H h) n)"
proof (induction kvs arbitrary: h)
  case Nil
  then show ?case by (simp split: option.splits)
next
  case (Cons kv kvs)
  obtain k v where kv: "kv = (k, v)" by (cases kv)
  from Cons.prems(1) kv obtain h1 where h1: "add_header H h (k, v) = Inr h1"
      and rest1: "try_fold (add_header H) h1 kvs = Inr h'"
    by (auto simp: result_simps split: sum.splits)
  from h1 obtain w where w: "hv_parse H v = Inr w" and "h1 = hm_insert H (CE @ k) w h"
    by (auto simp: add_header_Inr)
  then have rest: "try_fold (add_header H) (hm_insert H (CE @ k) w h) kvs = Inr h'"
    using rest1 by simp
  have v: "w = v" using header_api_laws(4) [OF assms w] .
  have none: "map_of kvs k = None" using Cons.prems(2) kv by (simp add: map_of_eq_None_iff)
  show ?case
    using Cons.IH [OF rest] Cons.prems(2) kv none v
    by (auto simp: header_api_laws(3) [OF assms] strip_prefix_iff split: option.splits)
qed

definition lower_name :: "string \<Rightarrow> bool" where
  "lower_name n \<longleftrightarrow> list_all (\<lambda>c. is_lower c \<or> is_digit c) n"

lemma to_lower_name: "lower_name n \<Longrightarrow> map to_lower n = n"
  by (induction n) (auto simp: lower_name_def to_lower_def ascii_simps)

lemma attribute_names_lower:
  assumes "extensions_ok (env_extensions e)" and "(k, v) \<in> set (to_attributes U e)"
  shows "lower_name k"
proof -
  have "om_get (to_attributes U e) k = Some v"
    using om.entries_iff [OF to_attributes_get(1) [OF assms(1)]] assms(2) by simp
  then have "ext_get (env_extensions e) k \<noteq> None \<or> standard_attribute U e k \<noteq> None"
    using to_attributes_get(2) [OF assms(1), of U k] by (auto split: option.splits)
  then show ?thesis
  proof
    assume "ext_get (env_extensions e) k \<noteq> None"
    then have "k \<in> fst ` set (ext_map (env_extensions e))"
      by (force simp: ext_get_def om_get_def dest: map_of_SomeD)
    then show ?thesis using assms(1) by (auto simp: extensions_ok_def ext_name_ok_def lower_name_def)
  next
    assume "standard_attribute U e k \<noteq> None"
    then have "map_of (standard_attributes U e) k \<noteq> None"
      by (cases "map_of (standard_attributes U e) k") (simp_all add: standard_attribute_def)
    then have "k \<in> set (map fst (standard_attributes U e))"
      by (simp add: map_of_eq_None_iff)
    then show ?thesis
      unfolding standard_names lower_name_def by (auto simp: ascii_simps)
  qed
qed

lemma distinct_map_filter:
  assumes "distinct (map fst xs)"
    and "\<And>x y a b. x \<in> set xs \<Longrightarrow> y \<in> set xs \<Longrightarrow> f x = Some a \<Longrightarrow> f y = Some b \<Longrightarrow> fst a = fst b \<Longrightarrow> fst x = fst y"
  shows "distinct (map fst (List.map_filter f xs))"
  using assms
proof (induction xs)
  case Nil
  then show ?case by (simp add: List.map_filter_def)
next
  case (Cons x xs)
  have ih: "distinct (map fst (List.map_filter f xs))"
    using Cons.prems by (intro Cons.IH) simp_all
  show ?case
  proof (cases "f x")
    case None
    then show ?thesis using ih by (simp add: List.map_filter_simps)
  next
    case (Some a)
    have "fst a \<noteq> fst b" if b: "b \<in> set (List.map_filter f xs)" for b
    proof
      assume same: "fst a = fst b"
      obtain y where y: "y \<in> set xs" "f y = Some b" using b by (auto simp: List.map_filter_def)
      then have "fst x = fst y" using Cons.prems(2) [of x y a b] Some same by simp
      then show False using Cons.prems(1) y(1) by auto
    qed
    then have "fst a \<notin> fst ` set (List.map_filter f xs)" by blast
    then show ?thesis using ih Some by (simp add: List.map_filter_simps)
  qed
qed

lemma map_filter_headers:
  assumes "distinct (map fst es)"
    and "\<And>n vs. (n, vs) \<in> set es \<Longrightarrow> strip_prefix CE n = None \<longrightarrow> strip_prefix CE (map to_lower n) = None"
    and "\<And>k vs. (CE @ k, vs) \<in> set es \<Longrightarrow> lower_name k \<and> (\<exists>v. vs = [v])"
  shows "distinct (map fst (List.map_filter header_attribute es))
    \<and> (\<forall>k v. (k, v) \<in> set (List.map_filter header_attribute es) \<longleftrightarrow> (CE @ k, [v]) \<in> set es)"
proof -
  have ce: "map to_lower CE = CE" by (simp add: CE_def to_lower_def ascii_simps)
  have attr: "header_attribute (n, vs) = Some (k, v) \<longleftrightarrow> n = CE @ k \<and> vs = [v]"
    if in_es: "(n, vs) \<in> set es" for n vs k v
  proof (cases "strip_prefix CE n")
    case None
    then show ?thesis using assms(2) [OF in_es] by (auto simp: header_attribute_def)
  next
    case (Some l)
    then have n: "n = CE @ l" by (simp add: strip_prefix_iff)
    obtain u where u: "vs = [u]" and l: "lower_name l" using assms(3) in_es n by blast
    have "map to_lower n = CE @ l" using ce to_lower_name [OF l] by (simp add: n)
    then show ?thesis using Some u by (auto simp: header_attribute_def n)
  qed
  have member: "(k, v) \<in> set (List.map_filter header_attribute es) \<longleftrightarrow>
      (\<exists>n vs. (n, vs) \<in> set es \<and> header_attribute (n, vs) = Some (k, v))" for k v
    by (force simp: List.map_filter_def)
  have "(k, v) \<in> set (List.map_filter header_attribute es) \<longleftrightarrow> (CE @ k, [v]) \<in> set es" for k v
    unfolding member by (metis attr)
  moreover have "distinct (map fst (List.map_filter header_attribute es))"
  proof (rule distinct_map_filter [OF assms(1)])
    fix x y a b
    assume "x \<in> set es" "y \<in> set es" "header_attribute x = Some a" "header_attribute y = Some b"
      and "fst a = fst b"
    then show "fst x = fst y"
      using attr [of "fst x" "snd x" "fst a" "snd a"] attr [of "fst y" "snd y" "fst b" "snd b"]
      by (cases a) simp
  qed
  ultimately show ?thesis by blast
qed

lemma msg_id_no_attribute:
  "strip_prefix CE MSG_ID = None" "strip_prefix CE (map to_lower MSG_ID) = None" "CE @ k \<noteq> MSG_ID"
proof -
  show none: "strip_prefix CE MSG_ID = None" "strip_prefix CE (map to_lower MSG_ID) = None"
    by (simp_all add: CE_def MSG_ID_def to_lower_def ascii_simps)
  then show "CE @ k \<noteq> MSG_ID" by (metis option.distinct(1) strip_prefix_append)
qed

text \<open>The headers of an envelope: its id, and one entry for each attribute.\<close>

lemma headers_entries:
  assumes H: "header_api_ok H" and x: "extensions_ok (env_extensions e)" and h: "headers H U e = Inr h"
  shows "map_of (hm_entries H h) n = (if n = MSG_ID then Some [message_id_text U (env_id e)]
      else (case strip_prefix CE n of
         Some k \<Rightarrow> (case map_of (to_attributes U e) k of Some v \<Rightarrow> Some [v] | None \<Rightarrow> None) | None \<Rightarrow> None))"
proof -
  have d: "distinct (map fst (to_attributes U e))"
    using om.distinct_entries [OF to_attributes_get(1) [OF x]] .
  obtain h0 where h0: "try_fold (add_header H) (hm_new H) (to_attributes U e) = Inr h0"
      and h1: "h = hm_insert H MSG_ID (message_id_text U (env_id e)) h0"
    using h by (auto simp: headers_def result_simps)
  show ?thesis
    using headers_fold [OF H h0 d, of n] header_api_laws(2) [OF H]
    by (auto simp: h1 header_api_laws(3) [OF H] split: option.splits)
qed

lemma headers_attributes:
  assumes H: "header_api_ok H" and x: "extensions_ok (env_extensions e)" and h: "headers H U e = Inr h"
  shows "om_collect (List.map_filter header_attribute (hm_entries H h)) = to_attributes U e"
proof -
  let ?a = "to_attributes U e" and ?es = "hm_entries H h"
  note entry = headers_entries [OF H x h]
  have des: "distinct (map fst ?es)" by (rule header_api_laws(1) [OF H])
  have in_es: "(n, vs) \<in> set ?es \<longleftrightarrow> map_of ?es n = Some vs" for n vs
    using des by simp
  have mf: "distinct (map fst (List.map_filter header_attribute ?es))
    \<and> (\<forall>k v. (k, v) \<in> set (List.map_filter header_attribute ?es) \<longleftrightarrow> (CE @ k, [v]) \<in> set ?es)"
  proof (rule map_filter_headers [OF des])
    show "strip_prefix CE n = None \<longrightarrow> strip_prefix CE (map to_lower n) = None"
      if "(n, vs) \<in> set ?es" for n vs
      using that msg_id_no_attribute unfolding in_es entry by (auto split: if_splits option.splits)
    show "lower_name k \<and> (\<exists>v. vs = [v])" if in_k: "(CE @ k, vs) \<in> set ?es" for k vs
    proof -
      obtain v where "map_of ?a k = Some v" "vs = [v]"
        using in_k msg_id_no_attribute(3) unfolding in_es entry by (auto split: option.splits)
      then show ?thesis using attribute_names_lower [OF x] map_of_SomeD by metis
    qed
  qed
  have "om_get (om_collect (List.map_filter header_attribute ?es)) k = Some v \<longleftrightarrow> om_get ?a k = Some v"
    for k v
  proof -
    have "om_get (om_collect (List.map_filter header_attribute ?es)) k = Some v
        \<longleftrightarrow> (k, v) \<in> set (List.map_filter header_attribute ?es)"
      using mf by (simp add: om_get_collect)
    also have "\<dots> \<longleftrightarrow> map_of ?es (CE @ k) = Some [v]" using mf in_es by blast
    also have "\<dots> \<longleftrightarrow> om_get ?a k = Some v"
      unfolding entry using msg_id_no_attribute(3) by (simp add: om_get_def split: option.splits)
    finally show ?thesis .
  qed
  then have "om_get (om_collect (List.map_filter header_attribute ?es)) k = om_get ?a k" for k
    by (metis not_None_eq)
  then show ?thesis by (intro om.ext om_collect_wf to_attributes_get(1) [OF x])
qed

lemma headers_read_back:
  assumes H: "header_api_ok H" and U: "uuid_text_ok U" and e: "envelope_ok e"
    and h: "headers H U e = Inr h" and m: "nm_headers m = Some h" "nm_payload m = env_data e"
    and n: "nm_delivered m = Inr n"
  shows "read_message H U debug m = Inr (e, attempt_of n)"
proof -
  have x: "extensions_ok (env_extensions e)" using e by (simp add: envelope_ok_def)
  show ?thesis
    using headers_attributes [OF H x h] attributes_round_trip [OF U e] m n
    by (simp add: read_message_def message_entries_def)
qed

section \<open>Settling and setting aside\<close>

lemma one_line_ok: "CHR 0x0A \<notin> set (one_line v) \<and> CHR 0x0D \<notin> set (one_line v)"
  by (auto simp: one_line_def)

lemma widen_set: "set (widen wanted existing) = set wanted \<union> set existing"
  by (induction existing arbitrary: wanted) (auto simp: widen_def)

lemma widen_distinct: "distinct wanted \<Longrightarrow> distinct (widen wanted existing)"
proof (induction existing arbitrary: wanted)
  case Nil
  then show ?case by (simp add: widen_def)
next
  case (Cons s existing)
  then show ?case
    using Cons.IH [of "if s \<in> set wanted then wanted else wanted @ [s]"] by (auto simp: widen_def)
qed

text \<open>A message that is no envelope is terminated only after its copy was taken.\<close>

lemma and_then_io_cases:
  "and_then_io f g s = (r, s') \<Longrightarrow>
     (\<exists>e. f s = (Inl e, s') \<and> r = Inl e) \<or> (\<exists>x u. f s = (Inr x, u) \<and> g x u = (r, s'))"
  by (auto simp: and_then_io_def split: prod.splits sum.splits)

lemma set_aside_order:
  assumes "set_aside H J settings endpoint m error s = (r, s')"
  shows "\<exists>h q u. nats_publish_to J (error_subject settings endpoint) h (nm_payload m) s = (q, u)
    \<and> (case q of Inl e \<Rightarrow> r = Inl e \<and> s' = u
       | Inr _ \<Rightarrow> (r, s') = settle J m Term u)"
  using and_then_io_cases [OF assms [unfolded set_aside_def Let_def]]
  by (fastforce simp: settle_def)



lemma headers_total:
  assumes "header_api_ok H" and "\<forall>(k, v) \<in> set (to_attributes U e). one_line v = v"
  shows "is_ok (headers H U e)"
proof -
  have parse: "hv_parse H v = Inr v" if "one_line v = v" for v
    using assms(1) one_line_ok [of v] that by (simp add: header_api_ok_def)
  have "is_ok (try_fold (add_header H) h kvs)" if "\<forall>(k, v) \<in> set kvs. one_line v = v" for h kvs
    using that
  proof (induction kvs arbitrary: h)
    case (Cons kv kvs)
    obtain k v where kv: "kv = (k, v)" by (cases kv)
    have "add_header H h kv = Inr (hm_insert H (CE @ k) v h)"
      using parse Cons.prems by (simp add: kv add_header_Inr)
    then show ?case using Cons by simp
  qed simp
  from this [OF assms(2)] obtain h where
    "try_fold (add_header H) (hm_new H) (to_attributes U e) = Inr h" by (auto simp: is_ok_iff)
  then show ?thesis by (simp add: headers_def)
qed

lemma hm_append_all:
  assumes "header_api_ok H"
  shows "map_of (hm_entries H (foldl (\<lambda>h v. hm_append H n v h) h vs)) m =
    (if m = n \<and> vs \<noteq> [] then Some ((case map_of (hm_entries H h) n of None \<Rightarrow> [] | Some us \<Rightarrow> us) @ vs)
     else map_of (hm_entries H h) m)"
proof (induction vs arbitrary: h)
  case (Cons v vs)
  have law: "map_of (hm_entries H (hm_append H n v h)) m'
      = (if m' = n then Some ((case map_of (hm_entries H h) n of None \<Rightarrow> [] | Some vs \<Rightarrow> vs) @ [v])
         else map_of (hm_entries H h) m')" for m'
    using assms by (simp add: header_api_ok_def)
  show ?case by (simp add: Cons.IH law)
qed simp

text \<open>What is kept of the headers of a message that is set aside: all of them but the id.\<close>

lemma kept_headers_get:
  assumes H: "header_api_ok H" and full: "\<forall>(n, vs) \<in> set (message_entries H m). vs \<noteq> []"
  shows "map_of (hm_entries H (kept_headers H m)) n =
    (if n = MSG_ID then None else map_of (message_entries H m) n)"
proof -
  let ?f = "\<lambda>h (n, vs). if n \<noteq> MSG_ID then foldl (\<lambda>h v. hm_append H n v h) h vs else h"
  have fold: "map_of (hm_entries H (foldl ?f h es)) n =
      (case map_of es n of
         Some vs \<Rightarrow> if n = MSG_ID then map_of (hm_entries H h) n else Some vs
       | None \<Rightarrow> map_of (hm_entries H h) n)"
    if "distinct (map fst es)" "\<forall>(n, vs) \<in> set es. vs \<noteq> []"
      "\<forall>n. n \<in> fst ` set es \<longrightarrow> map_of (hm_entries H h) n = None" for es h
    using that
  proof (induction es arbitrary: h)
    case (Cons e es)
    obtain k vs where e: "e = (k, vs)" by (cases e)
    have none: "map_of es k = None" using Cons.prems(1) e by (simp add: map_of_eq_None_iff)
    have kh: "map_of (hm_entries H h) k = None" using Cons.prems(3) e by simp
    have step: "map_of (hm_entries H (?f h e)) m =
        (if m = k \<and> k \<noteq> MSG_ID then Some vs else map_of (hm_entries H h) m)" for m
      using Cons.prems(2) kh by (simp add: e hm_append_all [OF H])
    have "map_of (hm_entries H (foldl ?f (?f h e) es)) n =
      (case map_of es n of
         Some vs \<Rightarrow> if n = MSG_ID then map_of (hm_entries H (?f h e)) n else Some vs
       | None \<Rightarrow> map_of (hm_entries H (?f h e)) n)"
      using Cons.prems e by (intro Cons.IH) (auto simp: hm_append_all [OF H] kh)
    then show ?case using none kh Cons.prems(2)
      by (auto simp: e hm_append_all [OF H] split: option.splits if_splits)
  qed simp
  have d: "distinct (map fst (message_entries H m))"
    using header_api_laws(1) [OF H] by (simp add: message_entries_def split: option.splits)
  show ?thesis
    unfolding kept_headers_def
    by (subst fold [OF d full]) (auto simp: header_api_laws(2) [OF H] split: option.splits)
qed

section \<open>Properties\<close>

text \<open>An instance of \<open>header_api\<close> that keeps its laws: the headers as a list, the last value first.\<close>

definition list_headers :: "(string \<times> string list) list header_api" where
  "list_headers =
     \<lparr>hm_new = [], hm_insert = (\<lambda>n v h. h @ [(n, [v])]),
      hm_append = (\<lambda>n v h. h @ [(n, (case om_get (om_collect h) n of None \<Rightarrow> [] | Some vs \<Rightarrow> vs) @ [v])]),
      hm_entries = om_collect,
      hv_parse = (\<lambda>v. if one_line v = v then Inr v else Inl ''a line break''),
      hv_from = (\<lambda>v. v)\<rparr>"

lemma one_line_id: "CHR 0x0A \<notin> set v \<Longrightarrow> CHR 0x0D \<notin> set v \<Longrightarrow> one_line v = v"
  by (induction v) (auto simp: one_line_def)

lemma om_collect_snoc: "om_collect (h @ [(n, v)]) = om_insert n v (om_collect h)"
  by (simp add: om_collect_def)

lemma list_headers_ok: "header_api_ok list_headers"
proof -
  have "distinct (map fst (om_collect h))" for h :: "(string \<times> string list) list"
    using om.distinct_entries [OF om_collect_wf] .
  moreover have "map_of (om_collect (h @ [(n, v)])) m = (if m = n then Some v else map_of (om_collect h) m)"
    for h :: "(string \<times> string list) list" and n v m
    using om_get_insert [of n v "om_collect h" m] by (simp add: om_collect_snoc om_get_def)
  ultimately show ?thesis
    by (auto simp: header_api_ok_def list_headers_def om_get_def one_line_id om_collect_def
        split: if_splits option.splits)
qed

lemma set_aside_headers:
  assumes H: "header_api_ok H" and full: "\<forall>(n, vs) \<in> set (message_entries H m). vs \<noteq> []"
    and "set_aside H J settings endpoint m error s = (r, s')"
  shows "\<exists>h q u. nats_publish_to J (error_subject settings endpoint) h (nm_payload m) s = (q, u)
    \<and> (\<forall>n. map_of (hm_entries H h) n =
        (if n = CE @ ''errormessage'' then Some [hv_from H (one_line error)]
         else if n = CE @ ''errortype'' then Some [hv_from H ''invalid_envelope'']
         else if n = CE @ ''errorendpoint'' then Some [hv_from H endpoint]
         else if n = MSG_ID then None else map_of (message_entries H m) n))
    \<and> (case q of Inl e \<Rightarrow> r = Inl e \<and> s' = u | Inr _ \<Rightarrow> (r, s') = settle J m Term u)"
proof -
  let ?h = "hm_insert H (CE @ ''errormessage'') (hv_from H (one_line error))
    (hm_insert H (CE @ ''errortype'') (hv_from H ''invalid_envelope'')
      (hm_insert H (CE @ ''errorendpoint'') (hv_from H endpoint) (kept_headers H m)))"
  have g: "map_of (hm_entries H ?h) n =
        (if n = CE @ ''errormessage'' then Some [hv_from H (one_line error)]
         else if n = CE @ ''errortype'' then Some [hv_from H ''invalid_envelope'']
         else if n = CE @ ''errorendpoint'' then Some [hv_from H endpoint]
         else if n = MSG_ID then None else map_of (message_entries H m) n)" for n
    by (simp only: header_api_laws(3) [OF H] kept_headers_get [OF H full])
  have "\<exists>q u. nats_publish_to J (error_subject settings endpoint) ?h (nm_payload m) s = (q, u)
    \<and> (case q of Inl e \<Rightarrow> r = Inl e \<and> s' = u | Inr _ \<Rightarrow> (r, s') = settle J m Term u)"
    using and_then_io_cases [OF assms(3) [unfolded set_aside_def Let_def]]
    by (fastforce simp: settle_def)
  then show ?thesis using g by blast
qed

text \<open>
  C23: the headers of a valid envelope whose attribute values are single lines can be written, and a
  message with those headers and the envelope's data reads as that envelope, with the delivery count
  as its attempt.
\<close>

theorem nats_message_round_trip:
  assumes "header_api_ok H" and "uuid_text_ok U" and "envelope_ok e"
    and "\<forall>(k, v) \<in> set (to_attributes U e). one_line v = v"
  shows "\<exists>h. headers H U e = Inr h
    \<and> (\<forall>m n. nm_headers m = Some h \<and> nm_payload m = env_data e \<and> nm_delivered m = Inr n \<longrightarrow>
        read_message H U debug m = Inr (e, attempt_of n))"
proof -
  obtain h where "headers H U e = Inr h"
    using headers_total [OF assms(1,4)] by (auto simp: is_ok_iff)
  then show ?thesis using headers_read_back [OF assms(1-3)] by blast
qed

lemma one_line_digits: "list_all is_digit v \<Longrightarrow> one_line v = v"
  by (intro one_line_id) (auto simp: list_all_iff ascii_simps)

lemma pad0_chars: "c \<in> set (pad0 w i) \<Longrightarrow> is_digit c \<or> c = CHR ''-''"
  using dec_digits by (auto simp: pad0_def Let_def ascii_simps split: if_splits)

lemma timestamp_text_chars:
  "c \<in> set (timestamp_text t) \<Longrightarrow> is_digit c \<or> c \<in> {CHR ''-'', CHR '':'', CHR ''T'', CHR ''.'', CHR ''Z''}"
proof -
  have z: "c \<in> set (trim_end_zeros s) \<Longrightarrow> c \<in> set s" for s
    by (auto simp: trim_end_zeros_def dest: set_dropWhileD)
  show "c \<in> set (timestamp_text t) \<Longrightarrow> ?thesis"
    using pad0_chars z by (auto simp: timestamp_text_def Let_def split: prod.splits if_splits)
qed

lemma timestamp_one_line: "one_line (timestamp_text t) = timestamp_text t"
  using timestamp_text_chars by (intro one_line_id) (fastforce simp: ascii_simps)+

text \<open>The attributes are single lines when the extensions and the envelope's own attributes are.\<close>

lemma attributes_one_line:
  assumes x: "extensions_ok (env_extensions e)"
    and ext: "\<forall>(k, v) \<in> set (ext_map (env_extensions e)). one_line v = v"
    and own: "\<forall>(k, v) \<in> set (standard_attributes U e). \<forall>x. v = Some x \<longrightarrow> one_line x = x"
  shows "\<forall>(k, v) \<in> set (to_attributes U e). one_line v = v"
proof (intro ballI, clarify)
  fix k v assume "(k, v) \<in> set (to_attributes U e)"
  then have "om_get (to_attributes U e) k = Some v"
    using om.entries_iff [OF to_attributes_get(1) [OF x]] by simp
  then have "ext_get (env_extensions e) k = Some v \<or> standard_attribute U e k = Some v"
    using to_attributes_get(2) [OF x] by (simp split: option.splits)
  then have "(k, v) \<in> set (ext_map (env_extensions e)) \<or> (k, Some v) \<in> set (standard_attributes U e)"
    by (auto simp: standard_attribute_def ext_get_def om_get_def bind_eq_Some_conv dest!: map_of_SomeD)
  then show "one_line v = v" using ext own by blast
qed

lemma decimal_id_one_line: "one_line (message_id_text decimal_uuid i) = message_id_text decimal_uuid i"
  by (rule one_line_digits) (simp add: message_id_text_def decimal_uuid_def list_all_iff fixed_digits)

lemma order_one_line: "\<forall>(k, v) \<in> set (to_attributes decimal_uuid order_placed). one_line v = v"
proof (rule attributes_one_line)
  show "extensions_ok (env_extensions order_placed)"
    using order_placed_ok by (simp add: envelope_ok_def)
  show "\<forall>(k, v) \<in> set (ext_map (env_extensions order_placed)). one_line v = v"
    by (simp add: order_placed_def one_line_def)
  show "\<forall>(k, v) \<in> set (standard_attributes decimal_uuid order_placed).
      \<forall>x. v = Some x \<longrightarrow> one_line x = x"
    by (auto simp: standard_attributes_def timestamp_one_line decimal_id_one_line)
      (simp_all add: order_placed_def correlation_new_def trace_context_new_def one_line_def)
qed

text \<open>An envelope that is published has no extensions, so only its source and id are to be checked.\<close>

lemma encoded_one_line:
  assumes "encode fresh source M m = Some (Inr e)" and "one_line (source_str source) = source_str source"
    and "one_line (message_id_text U (fst fresh)) = message_id_text U (fst fresh)"
  shows "\<forall>(k, v) \<in> set (to_attributes U e). one_line v = v"
proof -
  obtain t d where e: "message_type_new (msg_type M) = Inr t"
      "e = envelope_new (fst fresh) (snd fresh) t source (ContentType json_content_type) d"
    using assms(1) by (auto simp: encode_Inr)
  have "message_type_ok t" using e(1) by (auto simp: message_type_ok_def message_type_new_iff)
  then have "one_line (type_str t) = type_str t"
    using message_type_bytes [of t "CHR 0x0A"] message_type_bytes [of t "CHR 0x0D"]
    by (intro one_line_id) (auto simp: allowed_byte_def ascii_simps)
  moreover have "one_line json_content_type = json_content_type"
    by (simp add: json_content_type_def one_line_def)
  moreover have "one_line ''1.0'' = ''1.0''" by (simp add: one_line_def)
  ultimately show ?thesis
    using assms(2,3) timestamp_one_line
    by (intro attributes_one_line)
      (auto simp: e(2) envelope_new_def extensions_ok_def ext_new_def standard_attributes_def
        correlation_new_def om.wf_empty)
qed

theorem nats_message_round_trip_witness:
  "\<exists>h. headers list_headers decimal_uuid order_placed = Inr h
    \<and> read_message list_headers decimal_uuid (\<lambda>s. s)
        \<lparr>nm_headers = Some h, nm_payload = ''{}'', nm_delivered = Inr 3\<rparr> = Inr (order_placed, 3)"
proof -
  have d: "env_data order_placed = ''{}''" by (simp add: order_placed_def)
  show ?thesis
    using nats_message_round_trip [OF list_headers_ok sample_ok order_one_line, of "\<lambda>s. s"]
    by (fastforce simp: d attempt_of_def U32_MAX_def)
qed

text \<open>A JetStream for the examples that logs what is published and settled, and one message of it.\<close>

definition log_jetstream ::
    "((string \<times> string) list, (string \<times> string list) list, unit, string) jetstream" where
  "log_jetstream =
     \<lparr>js_publish = (\<lambda>dest h data s. (Inr (), s @ [(dest, data)])), js_await_ack = (\<lambda>_ s. (Inr (), s)),
      js_get_stream = (\<lambda>_ s. (Inr (), s)),
      js_consumer_info = (\<lambda>_ s. (Inr \<lparr>ci_filter_subjects = [''sisa.order.placed.v1''],
         ci_filter_subject = []\<rparr>, s)),
      js_create_consumer = (\<lambda>config s. (Inr (cc_durable_name config),
         s @ map (\<lambda>f. (''filter'', f)) (cc_filter_subjects config))),
      js_messages = (\<lambda>q s. (Inr q, s)),
      js_double_ack = (\<lambda>m kind s. (Inr (), s @ [(''ack'', nm_payload m)]))\<rparr>"

definition no_envelope :: "(string \<times> string list) list nats_message" where
  "no_envelope = \<lparr>nm_headers = None, nm_payload = ''hello'', nm_delivered = Inr 1\<rparr>"

text \<open>
  C40: a message that is no envelope is copied to the endpoint's error subject, with its own payload
  and headers, less the message id, and the endpoint and the error as headers on one line; it is
  terminated only once the broker took the copy, else it stays to be delivered again.
\<close>

theorem nats_unreadable_set_aside:
  assumes "header_api_ok H" and "\<forall>(n, vs) \<in> set (message_entries H m). vs \<noteq> []"
    and "read_message H U debug m = Inl error"
    and "nats_item H U debug J settings endpoint (Inr m) s = (r, s')"
  shows "\<exists>h q u. nats_publish_to J (error_subject settings endpoint) h (nm_payload m) s = (q, u)
    \<and> (\<forall>n. map_of (hm_entries H h) n =
        (if n = CE @ ''errormessage'' then Some [hv_from H (one_line error)]
         else if n = CE @ ''errortype'' then Some [hv_from H ''invalid_envelope'']
         else if n = CE @ ''errorendpoint'' then Some [hv_from H endpoint]
         else if n = MSG_ID then None else map_of (message_entries H m) n))
    \<and> (case q of
         Inl e \<Rightarrow> r = Some (Inl e) \<and> s' = u
       | Inr _ \<Rightarrow> (case settle J m Term u of
           (Inl e, t) \<Rightarrow> r = Some (Inl e) \<and> s' = t | (Inr _, t) \<Rightarrow> r = None \<and> s' = t))"
proof -
  obtain v t where v: "set_aside H J settings endpoint m error s = (v, t)"
    by (cases "set_aside H J settings endpoint m error s")
  have r: "s' = t" "r = (case v of Inl e \<Rightarrow> Some (Inl e) | Inr _ \<Rightarrow> None)"
    using assms(3,4) v by (auto simp: nats_item_def split: sum.splits)
  show ?thesis
    unfolding r
    by (insert set_aside_headers [OF assms(1,2) v], elim exE conjE, intro exI conjI, assumption,
        assumption) (auto split: sum.splits prod.splits)
qed

theorem nats_unreadable_set_aside_witness:
  "\<exists>s'. nats_item list_headers decimal_uuid (\<lambda>s. s) log_jetstream nats_settings_default ''billing''
      (Inr no_envelope) [] = (None, s') \<and> s' = [(''sisa._error.billing'', ''hello''), (''ack'', ''hello'')]"
proof -
  obtain r s' where i: "nats_item list_headers decimal_uuid (\<lambda>s. s) log_jetstream
      nats_settings_default ''billing'' (Inr no_envelope) [] = (r, s')" by fastforce
  obtain error where e: "read_message list_headers decimal_uuid (\<lambda>s. s) no_envelope = Inl error"
    by (simp add: read_message_def no_envelope_def message_entries_def from_attributes_def
        required_def om_collect_def om_get_def ok_or_def List.map_filter_def)
  have m: "\<forall>(n, vs) \<in> set (message_entries list_headers no_envelope). vs \<noteq> []"
    by (simp add: message_entries_def no_envelope_def)
  show ?thesis
    using nats_unreadable_set_aside [OF list_headers_ok m e i] i
    by (auto simp: nats_publish_to_def settle_def log_jetstream_def and_then_io_def map_err_io_def
        no_envelope_def error_subject_def nats_settings_default_def)
qed

text \<open>
  Subscribing an endpoint again, with other message types, loses none it had: the consumer is
  created with the subjects it is asked for and all those it had before, and a subscription
  without types is refused.
\<close>

lemma nats_subscribe_widens:
  assumes "nats_subscribe J settings spec s = (Inr q, s')"
  shows "spec_message_types spec \<noteq> [] \<and> (\<exists>filters t u v c.
      js_create_consumer J \<lparr>cc_durable_name = spec_name spec, cc_filter_subjects = filters,
        cc_ack_wait = ns_ack_wait settings\<rparr> u = (Inr c, v)
      \<and> subject settings ` set (spec_message_types spec) \<subseteq> set filters
      \<and> (\<forall>info. fst (js_consumer_info J (spec_name spec) t) = Inr info \<longrightarrow>
          set (existing_filters info) \<subseteq> set filters)
      \<and> u = snd (js_consumer_info J (spec_name spec) t))"
proof -
  from assms have ne: "spec_message_types spec \<noteq> []"
    by (auto simp: nats_subscribe_def io_simps split: if_splits)
  with assms obtain t filters u c v where
      f: "consumer_filters J (spec_name spec) (map (subject settings) (spec_message_types spec)) t
        = (Inr filters, u)"
      and c: "js_create_consumer J \<lparr>cc_durable_name = spec_name spec, cc_filter_subjects = filters,
        cc_ack_wait = ns_ack_wait settings\<rparr> u = (Inr c, v)"
    by (auto simp: nats_subscribe_def io_simps)
  from f have "subject settings ` set (spec_message_types spec) \<subseteq> set filters
      \<and> (\<forall>info. fst (js_consumer_info J (spec_name spec) t) = Inr info \<longrightarrow>
          set (existing_filters info) \<subseteq> set filters)
      \<and> u = snd (js_consumer_info J (spec_name spec) t)"
    by (auto simp: consumer_filters_def widen_set split: prod.splits sum.splits consumer_info_error.splits)
  then show ?thesis using ne c by blast
qed

lemma nats_subscribe_widens_example:
  "\<exists>s'. nats_subscribe log_jetstream nats_settings_default
      (endpoint_spec_new ''billing'' [MessageType ''order.paid.v1'']) [] = (Inr ''billing'', s')
    \<and> {(''filter'', ''sisa.order.placed.v1''), (''filter'', ''sisa.order.paid.v1'')} \<subseteq> set s'"
proof -
  let ?spec = "endpoint_spec_new ''billing'' [MessageType ''order.paid.v1'']"
  obtain q s' where s: "nats_subscribe log_jetstream nats_settings_default ?spec [] = (Inr q, s')"
    by (simp add: nats_subscribe_def log_jetstream_def consumer_filters_def and_then_io_def
        map_err_io_def endpoint_spec_new_def)
  have "q = ''billing'' \<and> s' = map (\<lambda>f. (''filter'', f))
      [''sisa.order.paid.v1'', ''sisa.order.placed.v1'']"
    using s by (simp add: nats_subscribe_def log_jetstream_def consumer_filters_def and_then_io_def
        map_err_io_def endpoint_spec_new_def widen_def existing_filters_def subject_def
        nats_settings_default_def)
  then show ?thesis using nats_subscribe_widens [OF s] s by auto
qed


end
