(* ===== verification/Progress.thy ===== *)
theory Progress
  imports Delivery
begin

text \<open>
  What a round of the dispatcher achieves when nothing fails: on a world in which no other session
  acts, no statement is lost and the broker answers, each row it claims is published, oldest
  first, and marked dispatched in the same round.
\<close>

definition quiet :: "dworld \<Rightarrow> bool" where
  "quiet w \<longleftrightarrow> w_faults w = [] \<and> w_others w = [] \<and> \<not> w_stop w"

lemma quiet_simps [simp]:
  "quiet (w\<lparr>w_rows := rows\<rparr>) = quiet w" "quiet (w\<lparr>w_broker := b\<rparr>) = quiet w"
  by (simp_all add: quiet_def)

lemma quiet_world:
  assumes "quiet w"
  shows "interfere P w = w" and "next_fault w = (Fine, w)"
  using assms by (simp_all add: quiet_def interfere_def next_fault_def)

lemma statement_quiet:
  "quiet w \<Longrightarrow> statement P context f w =
    (case f w of Inl e \<Rightarrow> (Inl (Database context e), w)
     | Inr (a, rows) \<Rightarrow> (Inr a, w\<lparr>w_rows := rows\<rparr>))"
  by (simp add: statement_def quiet_world)

lemma update_statement_quiet:
  "quiet w \<Longrightarrow> f w = Inr rows \<Longrightarrow> update_statement P context f w = (Inr (), w\<lparr>w_rows := rows\<rparr>)"
  by (simp add: update_statement_def statement_quiet)

section \<open>Reading what was claimed\<close>

definition record_of :: "pg_api \<Rightarrow> outbox_row \<Rightarrow> outbox_record" where
  "record_of P row = projr (read_record P (select_row P row))"

lemma row_envelope_id:
  assumes "pg_api_ok P" and "row_envelope P row = Inr e"
  shows "env_id e = MessageId (or_id row)"
  using read_envelope_id(1) [of P "select_row P row" e] assms
  by (simp add: pg_api_ok_def row_envelope_def select_row_def)

lemma read_record_row:
  assumes api: "pg_api_ok P" and env: "row_envelope P row = Inr e"
    and created: "pg_time_range (or_created_at row)" and due: "pg_time_range (or_available_at row)"
  shows "read_record P (select_row P row) = Inr (record_of P row)"
    and "rec_envelope (record_of P row) = e"
    and "rec_attempts (record_of P row) = i32_to_u32 (or_attempts row)"
    and "castable P (record_of P row)"
    and "holds_row P (record_of P row) q \<longleftrightarrow> row_key q = row_key row \<and> or_status q = Pending
      \<and> or_available_at q = or_available_at row"
proof -
  obtain t where t: "timestamp_from_str (pg_to_json P (or_created_at row)) = Inr t"
      "pg_timestamptz P (timestamp_text t) = Some (or_created_at row)"
    using api created by (auto simp: pg_api_ok_def)
  obtain l where l: "timestamp_from_str (pg_to_json P (or_available_at row)) = Inr l"
      "pg_timestamptz P (timestamp_text l) = Some (or_available_at row)"
    using api due by (auto simp: pg_api_ok_def)
  have r: "read_record P (select_row P row)
      = Inr (outbox_record_new e t (i32_to_u32 (or_attempts row)) l)"
    unfolding read_record_Inr
    by (intro exI [of _ e] exI [of _ t] exI [of _ l])
      (use env t(1) l(1) in \<open>simp add: row_envelope_def select_row_def\<close>)
  then show "read_record P (select_row P row) = Inr (record_of P row)"
    by (simp add: record_of_def)
  have rec: "record_of P row = outbox_record_new e t (i32_to_u32 (or_attempts row)) l"
    using r by (simp add: record_of_def)
  show "rec_envelope (record_of P row) = e"
    "rec_attempts (record_of P row) = i32_to_u32 (or_attempts row)"
    "castable P (record_of P row)"
    using t l by (simp_all add: rec outbox_record_new_def castable_def)
  have "as_uuid (env_id e) = or_id row" using row_envelope_id [OF api env] by simp
  then show "holds_row P (record_of P row) q \<longleftrightarrow> row_key q = row_key row \<and> or_status q = Pending
      \<and> or_available_at q = or_available_at row"
    using t l
    by (auto simp: rec outbox_record_new_def holds_row_def names_row_def row_key_def)
qed

lemma read_claimed_quiet:
  "(\<And>c. c \<in> set cs \<Longrightarrow> read_record P c = Inr (f c)) \<Longrightarrow> read_claimed P cs w = (Inr (map f cs), w)"
proof (induction cs)
  case Nil
  then show ?case by simp
next
  case (Cons c cs)
  then show ?case by (simp add: and_then_io_def return_io_def)
qed

lemma pg_claim_quiet:
  assumes q: "quiet w" and i: "pg_interval P lease = Some i"
    and cl: "claim_rows (w_now w) i (w_locked w) n (w_rows w) = (claimed, rows)"
    and read: "\<And>row. row \<in> set claimed \<Longrightarrow> read_record P (select_row P row) = Inr (record_of P row)"
  shows "pg_claim P n lease w = (Inr (map (record_of P) claimed), w\<lparr>w_rows := rows\<rparr>)"
proof -
  have "read_claimed P (map (select_row P) claimed) (w\<lparr>w_rows := rows\<rparr>)
      = (Inr (map (\<lambda>c. projr (read_record P c)) (map (select_row P) claimed)), w\<lparr>w_rows := rows\<rparr>)"
    by (rule read_claimed_quiet) (use read in auto)
  then show ?thesis
    using q i cl
    by (simp add: pg_claim_def bind_interval_def and_then_io_def lift_io_def statement_quiet o_def
        record_of_def [abs_def])
qed

section \<open>What a claim leaves\<close>

definition leased_row :: "int \<Rightarrow> outbox_row \<Rightarrow> outbox_row" where
  "leased_row until row = row\<lparr>or_available_at := until\<rparr>"

lemma leased_row_fields [simp]:
  "row_key (leased_row t row) = row_key row" "or_status (leased_row t row) = or_status row"
  "or_available_at (leased_row t row) = t" "or_created_at (leased_row t row) = or_created_at row"
  "or_attempts (leased_row t row) = or_attempts row" "row_envelope P (leased_row t row) = row_envelope P row"
  by (simp_all add: leased_row_def row_key_def, rule row_content_fields(3), simp add: row_content_def)

lemma claimable_distinct:
  assumes "table_ok rows"
  shows "distinct (map row_key (claimable now locked n rows))"
proof -
  have rows: "distinct rows" "inj_on row_key (set rows)"
    using assms by (auto simp: table_ok_def distinct_map)
  have "set (claimable now locked n rows) \<subseteq> set rows" using claimable_set by blast
  then have "inj_on row_key (set (claimable now locked n rows))" by (rule inj_on_subset [OF rows(2)])
  moreover have "distinct (claimable now locked n rows)"
    using rows(1) by (simp add: claimable_def)
  ultimately show ?thesis by (simp add: distinct_map)
qed

lemma claim_leases:
  assumes table: "table_ok rows" and claimed: "claimed = claimable now locked n rows"
    and cl: "claim_rows now i locked n rows = (leased, rows')"
  shows "leased = map (leased_row (now + i)) claimed"
    and "rows' = map (\<lambda>row. if row \<in> set claimed then leased_row (now + i) row else row) rows"
    and "row \<in> set claimed \<Longrightarrow> row \<in> set rows \<and> or_status row = Pending"
    and "table_ok rows'" and "distinct leased" and "set leased \<subseteq> set rows'"
    and "row \<in> set rows \<Longrightarrow>
      (if row \<in> set claimed then leased_row (now + i) row else row) \<in> set leased \<longleftrightarrow> row \<in> set claimed"
proof -
  let ?keys = "map row_key claimed"
  have in_rows: "row \<in> set rows \<and> or_status row = Pending" if "row \<in> set claimed" for row
    using claimable_set that by (fastforce simp: claimed due_def)
  then show "row \<in> set claimed \<Longrightarrow> row \<in> set rows \<and> or_status row = Pending" .
  have key: "row_key row \<in> set ?keys \<longleftrightarrow> row \<in> set claimed" if "row \<in> set rows" for row
    using table_unique [OF table that] in_rows by auto
  show ls: "leased = map (leased_row (now + i)) claimed"
    using cl by (auto simp: claim_rows_def Let_def claimed [symmetric] lease_row_def leased_row_def)
  show rows': "rows' = map (\<lambda>row. if row \<in> set claimed then leased_row (now + i) row else row) rows"
    using cl key by (auto simp: claim_rows_def Let_def claimed [symmetric] lease_row_def leased_row_def)
  show "table_ok rows'"
    using table claim_rows_keys [of now i locked n rows] cl by (simp add: table_ok_def)
  have "distinct (map row_key leased)"
    using claimable_distinct [OF table] by (simp add: ls claimed o_def)
  then show "distinct leased" by (simp add: distinct_map)
  show "set leased \<subseteq> set rows'" using in_rows by (auto simp: ls rows')
  show "(if row \<in> set claimed then leased_row (now + i) row else row) \<in> set leased \<longleftrightarrow> row \<in> set claimed"
    if "row \<in> set rows" using key [OF that] by (auto simp: ls)
qed

lemma leased_record:
  assumes "pg_api_ok P" and "is_ok (row_envelope P c)" and "pg_time_range (or_created_at c)"
    and "pg_time_range t"
  shows "read_record P (select_row P (leased_row t c)) = Inr (record_of P (leased_row t c))"
    and "Inr (rec_envelope (record_of P (leased_row t c))) = row_envelope P c"
    and "castable P (record_of P (leased_row t c))"
    and "holds_row P (record_of P (leased_row t c)) q \<longleftrightarrow>
      row_key q = row_key c \<and> or_status q = Pending \<and> or_available_at q = t"
proof -
  obtain e where "row_envelope P c = Inr e" using assms(2) by (auto simp: is_ok_iff)
  then show "read_record P (select_row P (leased_row t c)) = Inr (record_of P (leased_row t c))"
    "Inr (rec_envelope (record_of P (leased_row t c))) = row_envelope P c"
    "castable P (record_of P (leased_row t c))"
    "holds_row P (record_of P (leased_row t c)) q \<longleftrightarrow>
      row_key q = row_key c \<and> or_status q = Pending \<and> or_available_at q = t"
    using read_record_row [OF assms(1), of "leased_row t c" e] assms(3,4) by simp_all
qed

section \<open>Publishing the batch\<close>

definition publish_all :: "envelope list \<Rightarrow> im_state \<Rightarrow> im_state" where
  "publish_all es b = foldl (\<lambda>b e. snd (im_publish e b)) b es"

lemma publish_all_published:
  "\<not> im_failing b \<Longrightarrow> im_published (publish_all es b) = im_published b @ es
    \<and> \<not> im_failing (publish_all es b)"
  unfolding publish_all_def by (induction es arbitrary: b) (auto simp: im_publish_def)

lemma publish_batch_quiet:
  "quiet w \<Longrightarrow> \<not> im_failing (w_broker w) \<Longrightarrow> w_instant w < c + ds_lease settings \<Longrightarrow> c \<le> w_instant w \<Longrightarrow>
    publish_batch (pg_outbox P) (broker_transport P) settings (world_env P) c rs ps w
      = (ps @ rs, w\<lparr>w_broker := publish_all (map rec_envelope rs) (w_broker w)\<rparr>)"
proof (induction rs arbitrary: ps w)
  case Nil
  then show ?case by (simp add: publish_all_def)
next
  case (Cons r rs)
  let ?b = "snd (im_publish (rec_envelope r) (w_broker w))"
  have p: "tr_publish (broker_transport P) (rec_envelope r) w = (Inr (), w\<lparr>w_broker := ?b\<rparr>)"
    using Cons.prems(1,2)
    by (simp add: broker_transport_def broker_publish_def quiet_world publish_to_broker_def
        im_publish_def)
  have b: "\<not> im_failing ?b" using Cons.prems(2) by (simp add: im_publish_def)
  have "publish_batch (pg_outbox P) (broker_transport P) settings (world_env P) c rs (ps @ [r])
      (w\<lparr>w_broker := ?b\<rparr>)
    = ((ps @ [r]) @ rs, (w\<lparr>w_broker := ?b\<rparr>)\<lparr>w_broker := publish_all (map rec_envelope rs) ?b\<rparr>)"
    using Cons.IH [of "w\<lparr>w_broker := ?b\<rparr>" "ps @ [r]"] Cons.prems b by simp
  moreover have "\<not> (rt_stopping (world_env P) w \<or> ds_lease settings \<le> rt_instant (world_env P) w - c)"
    using Cons.prems by (simp add: world_env_def quiet_def)
  moreover have "rt_timeout_at (world_env P) (c + ds_lease settings)
      (tr_publish (broker_transport P) (rec_envelope r)) w = (Some (Inr ()), w\<lparr>w_broker := ?b\<rparr>)"
    using p Cons.prems(3) by (simp add: world_env_def)
  ultimately show ?case by (simp add: publish_all_def)
qed

section \<open>The round\<close>

definition dispatched_row :: "int \<Rightarrow> int \<Rightarrow> outbox_row \<Rightarrow> outbox_row" where
  "dispatched_row now lease row =
     row\<lparr>or_available_at := now + lease, or_status := Dispatched, or_dispatched_at := Some now\<rparr>"

lemma mark_claimed_rows:
  assumes api: "pg_api_ok P" and table: "table_ok rows"
    and claimed: "claimed = claimable now locked n rows"
    and read: "\<And>row. row \<in> set claimed \<Longrightarrow>
      is_ok (row_envelope P row) \<and> pg_time_range (or_created_at row)"
    and lease: "pg_time_range (now + i)"
    and cl: "claim_rows now i locked n rows = (leased, rows')"
  shows "mark_dispatched_rows P now (map (record_of P) leased) rows' =
    Inr (map (\<lambda>row. if row \<in> set claimed then dispatched_row now i row else row) rows)"
proof -
  note cs = claim_leases [OF table claimed cl]
  let ?l = "leased_row (now + i)"
  have held: "castable P (record_of P (?l c))"
    "holds_row P (record_of P (?l c)) q \<longleftrightarrow>
      row_key q = row_key c \<and> or_status q = Pending \<and> or_available_at q = now + i"
    if "c \<in> set claimed" for c q
    using leased_record(3,4) [OF api] read [OF that] lease by simp_all
  have ex: "list_ex (\<lambda>r. holds_row P r (if row \<in> set claimed then ?l row else row)) (map (record_of P) leased)
      \<longleftrightarrow> row \<in> set claimed" if row: "row \<in> set rows" for row
    using held(2) cs(3) table_unique [OF table row] by (auto simp: cs(1) list_ex_iff)
  have "update_held (\<lambda>row. list_ex (\<lambda>r. holds_row P r row) (map (record_of P) leased))
        (\<lambda>row. row\<lparr>or_status := Dispatched, or_dispatched_at := Some now\<rparr>) rows'
    = map (\<lambda>row. if row \<in> set claimed then dispatched_row now i row else row) rows"
    unfolding update_held_def cs(2) map_map o_def
    by (rule map_cong [OF refl], simp only: ex, simp add: leased_row_def dispatched_row_def)
  moreover have "list_all (castable P) (map (record_of P) leased)"
    using held(1) by (auto simp: cs(1) list_all_iff)
  ultimately show ?thesis by (simp add: mark_dispatched_rows_def)
qed

lemma round_quiet:
  assumes api: "pg_api_ok P" and ok: "world_ok P w" and q: "quiet w"
    and broker: "\<not> im_failing (w_broker w)" and lease: "0 < ds_lease settings"
    and i: "pg_interval P (ds_lease settings) = Some i" and range: "pg_time_range (w_now w + i)"
    and claimed: "claimed = claimable (w_now w) (w_locked w) (ds_batch_size settings) (w_rows w)"
    and read: "map (row_envelope P) claimed = map Inr es"
  shows "dispatch_round (pg_outbox P) (broker_transport P) settings (world_env P) w =
    (length claimed = ds_batch_size settings,
     w\<lparr>w_rows := map (\<lambda>row. if row \<in> set claimed then dispatched_row (w_now w) i row else row)
          (w_rows w),
       w_broker := publish_all es (w_broker w)\<rparr>)"
proof -
  let ?n = "ds_batch_size settings" and ?now = "w_now w"
  have table: "table_ok (w_rows w)" using ok by (simp add: world_ok_def)
  obtain leased rows' where cl: "claim_rows ?now i (w_locked w) ?n (w_rows w) = (leased, rows')"
    by (cases "claim_rows ?now i (w_locked w) ?n (w_rows w)")
  note cs = claim_leases [OF table claimed cl]
  have "Inr ` set es = row_envelope P ` set claimed" using read by (metis list.set_map)
  then have readable: "is_ok (row_envelope P row) \<and> pg_time_range (or_created_at row)"
    if "row \<in> set claimed" for row
  proof -
    have "row_envelope P row \<in> Inr ` set es" using that \<open>Inr ` set es = _\<close> by simp
    then show ?thesis using cs(3) [OF that] ok by (auto simp: world_ok_def list_all_iff)
  qed
  have rr: "read_record P (select_row P (leased_row (?now + i) c)) = Inr (record_of P (leased_row (?now + i) c))"
    "Inr (rec_envelope (record_of P (leased_row (?now + i) c))) = row_envelope P c" if "c \<in> set claimed" for c
    using leased_record(1,2) [OF api] readable [OF that] range by simp_all
  let ?rs = "map (record_of P) leased"
  have claim: "pg_claim P ?n (ds_lease settings) w = (Inr ?rs, w\<lparr>w_rows := rows'\<rparr>)"
    by (rule pg_claim_quiet [OF q i cl]) (use rr cs(1) in auto)
  have "map Inr (map rec_envelope ?rs) = map (row_envelope P) claimed"
    using rr by (simp add: cs(1))
  then have es: "map rec_envelope ?rs = es"
    unfolding read by (rule inj_map_eq_map [THEN iffD1, rotated]) (simp add: inj_on_def)
  have batch: "publish_batch (pg_outbox P) (broker_transport P) settings (world_env P) (w_instant w)
      ?rs [] (w\<lparr>w_rows := rows'\<rparr>)
    = (?rs, w\<lparr>w_rows := rows', w_broker := publish_all es (w_broker w)\<rparr>)"
    using publish_batch_quiet [of "w\<lparr>w_rows := rows'\<rparr>" "w_instant w" settings P ?rs "[]"] q broker
      lease es by simp
  let ?rows = "map (\<lambda>row. if row \<in> set claimed then dispatched_row ?now i row else row) (w_rows w)"
  have mark: "mark_dispatched_rows P ?now ?rs rows' = Inr ?rows"
    by (rule mark_claimed_rows [OF api table claimed readable range cl])
  have marked: "snd (ob_mark_dispatched (pg_outbox P) ?rs
      (w\<lparr>w_rows := rows', w_broker := publish_all es (w_broker w)\<rparr>))
    = w\<lparr>w_rows := ?rows, w_broker := publish_all es (w_broker w)\<rparr>"
    using q mark
    by (simp add: pg_outbox_def pg_mark_dispatched_def update_statement_quiet)
  show ?thesis
  proof (cases "claimed = []")
    case True
    then have "rows' = w_rows w" "es = []" using cs(2) read by simp_all
    then show ?thesis using claim batch True cs(1)
      by (simp add: dispatch_round_def Let_def pg_outbox_def world_env_def publish_all_def)
  next
    case False
    then show ?thesis using claim batch marked cs(1)
      by (simp add: dispatch_round_def Let_def pg_outbox_def world_env_def)
  qed
qed

section \<open>A round while the broker is down\<close>

text \<open>What \<open>put_back\<close> makes of a row: one more attempt, and its delay or the end.\<close>

definition put_back_row :: "pg_api \<Rightarrow> dispatch_settings \<Rightarrow> int \<Rightarrow> outbox_row \<Rightarrow> outbox_row" where
  "put_back_row P settings now row =
     (let attempt = saturating_add_u32 (i32_to_u32 (or_attempts row)) 1;
          row = row\<lparr>or_attempts := or_attempts row + 1,
                    or_last_error := Some (transport_error_text unreachable_broker)\<rparr>
      in if is_last (ds_retry settings) attempt
         then row\<lparr>or_status := Failed, or_available_at := now\<rparr>
         else row\<lparr>or_available_at := now + the (pg_interval P (delay (ds_retry settings) attempt))\<rparr>)"

text \<open>The statement is not refused: the counter has room, and the delay can be bound.\<close>

definition retryable :: "pg_api \<Rightarrow> dispatch_settings \<Rightarrow> outbox_row \<Rightarrow> bool" where
  "retryable P settings row \<longleftrightarrow>
     or_attempts row < I32_MAX
     \<and> (let attempt = saturating_add_u32 (i32_to_u32 (or_attempts row)) 1 in
        is_last (ds_retry settings) attempt
        \<or> pg_interval P (delay (ds_retry settings) attempt) \<noteq> None)"

definition readable_row :: "pg_api \<Rightarrow> outbox_row \<Rightarrow> bool" where
  "readable_row P row \<longleftrightarrow> is_ok (row_envelope P row) \<and> pg_time_range (or_created_at row)
     \<and> pg_time_range (or_available_at row) \<and> or_status row = Pending"

lemma row_key_put_back [simp]: "row_key (put_back_row P settings now row) = row_key row"
  by (simp add: put_back_row_def row_key_def Let_def)

lemma held_only:
  assumes "pg_api_ok P" and "table_ok rows" and "row \<in> set rows" and "readable_row P row"
    and "q \<in> set rows"
  shows "holds_row P (record_of P row) q \<longleftrightarrow> q = row"
proof -
  obtain e where "row_envelope P row = Inr e" using assms(4) by (auto simp: readable_row_def is_ok_iff)
  from read_record_row(5) [OF assms(1) this] show ?thesis
    using assms(4) table_unique [OF assms(2,5,3)] by (auto simp: readable_row_def)
qed

lemma put_back_quiet:
  assumes api: "pg_api_ok P" and table: "table_ok (w_rows w)" and row: "row \<in> set (w_rows w)"
    and read: "readable_row P row" and retry: "retryable P settings row" and q: "quiet w"
  shows "put_back (pg_outbox P) settings (record_of P row)
      (transport_error_text unreachable_broker) w
    = w\<lparr>w_rows := map (\<lambda>q. if q = row then put_back_row P settings (w_now w) q else q) (w_rows w)\<rparr>"
proof -
  let ?r = "record_of P row" and ?rows = "w_rows w" and ?x = "transport_error_text unreachable_broker"
  obtain e where "row_envelope P row = Inr e" using read by (auto simp: readable_row_def is_ok_iff)
  note rr = read_record_row [OF api this]
  have cast: "castable P ?r" and att: "rec_attempts ?r = i32_to_u32 (or_attempts row)"
    using rr read by (auto simp: readable_row_def)
  have fits: "\<not> list_ex (\<lambda>q. holds_row P ?r q \<and> or_attempts q = I32_MAX) ?rows"
    using held_only [OF api table row read] retry by (auto simp: list_ex_iff retryable_def)
  have upd: "attempt_held (holds_row P ?r) f ?rows
      = Inr (map (\<lambda>q. if q = row then f (q\<lparr>or_attempts := or_attempts q + 1\<rparr>) else q) ?rows)" for f
    using fits held_only [OF api table row read] by (simp add: attempt_held_def update_held_def)
  show ?thesis
  proof (cases "is_last (ds_retry settings) (saturating_add_u32 (i32_to_u32 (or_attempts row)) 1)")
    case True
    then show ?thesis
      using q cast upd att
      by (auto simp: put_back_def pg_outbox_def pg_mark_failed_def mark_failed_rows_def
          update_statement_quiet put_back_row_def Let_def intro!: dworld.fold_congs map_cong)
  next
    case False
    then obtain v where "pg_interval P (delay (ds_retry settings)
        (saturating_add_u32 (i32_to_u32 (or_attempts row)) 1)) = Some v"
      using retry by (auto simp: retryable_def Let_def)
    then show ?thesis
      using q cast upd att False
      by (auto simp: put_back_def pg_outbox_def pg_mark_retry_def mark_retry_rows_def
          bind_interval_def and_then_io_def lift_io_def update_statement_quiet put_back_row_def Let_def
          intro!: dworld.fold_congs map_cong)
  qed
qed

lemma put_back_others:
  assumes table: "table_ok rows" and l: "l \<in> set rows" and ls: "set ls \<subseteq> set rows" and "l \<notin> set ls"
    and key: "\<And>q. row_key (f q) = row_key q"
  shows "map (\<lambda>q. if q \<in> set ls then f q else q) (map (\<lambda>q. if q = l then f q else q) rows)
    = map (\<lambda>q. if q \<in> set (l # ls) then f q else q) rows"
    and "table_ok (map (\<lambda>q. if q = l then f q else q) rows)"
    and "set ls \<subseteq> set (map (\<lambda>q. if q = l then f q else q) rows)"
proof -
  have "f l \<notin> set ls"
  proof
    assume a: "f l \<in> set ls"
    then have "f l \<in> set rows" using ls by blast
    then have "f l = l" using table_unique [OF table _ l key] by blast
    then show False using a \<open>l \<notin> set ls\<close> by simp
  qed
  then show "map (\<lambda>q. if q \<in> set ls then f q else q) (map (\<lambda>q. if q = l then f q else q) rows)
      = map (\<lambda>q. if q \<in> set (l # ls) then f q else q) rows"
    by simp
  have "map row_key (map (\<lambda>q. if q = l then f q else q) rows) = map row_key rows"
    by (simp add: key)
  then show "table_ok (map (\<lambda>q. if q = l then f q else q) rows)"
    using table by (simp only: table_ok_def)
  show "set ls \<subseteq> set (map (\<lambda>q. if q = l then f q else q) rows)"
    using ls \<open>l \<notin> set ls\<close> by force
qed

lemma publish_batch_failing:
  assumes api: "pg_api_ok P"
  shows "quiet w \<Longrightarrow> w_now w = now \<Longrightarrow> im_failing (w_broker w) \<Longrightarrow> w_instant w < c + ds_lease settings \<Longrightarrow>
    c \<le> w_instant w \<Longrightarrow> table_ok (w_rows w) \<Longrightarrow> distinct ls \<Longrightarrow> set ls \<subseteq> set (w_rows w) \<Longrightarrow>
    list_all (\<lambda>l. readable_row P l \<and> retryable P settings l) ls \<Longrightarrow>
    publish_batch (pg_outbox P) (broker_transport P) settings (world_env P) c
        (map (record_of P) ls) ps w
      = (ps, w\<lparr>w_rows := map (\<lambda>q. if q \<in> set ls then put_back_row P settings now q else q)
            (w_rows w)\<rparr>)"
proof (induction ls arbitrary: w)
  case Nil
  then show ?case by simp
next
  case (Cons l ls)
  let ?f = "put_back_row P settings now"
  let ?w = "w\<lparr>w_rows := map (\<lambda>q. if q = l then ?f q else q) (w_rows w)\<rparr>"
  have p: "rt_timeout_at (world_env P) (c + ds_lease settings)
      (tr_publish (broker_transport P) (rec_envelope (record_of P l))) w
    = (Some (Inl unreachable_broker), w)"
    using Cons.prems
    by (simp add: world_env_def broker_transport_def broker_publish_def quiet_world
        publish_to_broker_def im_publish_def)
  have settled: "put_back (pg_outbox P) settings (record_of P l)
      (transport_error_text unreachable_broker) w = ?w"
    using put_back_quiet [OF api] Cons.prems by simp
  have go: "\<not> (rt_stopping (world_env P) w \<or> ds_lease settings \<le> rt_instant (world_env P) w - c)"
    using Cons.prems by (simp add: world_env_def quiet_def)
  have others: "map (\<lambda>q. if q \<in> set ls then ?f q else q) (w_rows ?w)
      = map (\<lambda>q. if q \<in> set (l # ls) then ?f q else q) (w_rows w)"
    "table_ok (w_rows ?w)" "set ls \<subseteq> set (w_rows ?w)"
    using put_back_others [of "w_rows w" l ls ?f] Cons.prems(6-8) by simp_all
  have "publish_batch (pg_outbox P) (broker_transport P) settings (world_env P) c
        (map (record_of P) ls) ps ?w
      = (ps, ?w\<lparr>w_rows := map (\<lambda>q. if q \<in> set ls then ?f q else q) (w_rows ?w)\<rparr>)"
    by (rule Cons.IH) (use Cons.prems others(2,3) in simp_all)
  also have "\<dots> = (ps, w\<lparr>w_rows := map (\<lambda>q. if q \<in> set (l # ls) then ?f q else q) (w_rows w)\<rparr>)"
    using others(1) by (simp del: map_map)
  finally show ?case using p settled go by simp
qed

lemma round_failing:
  assumes api: "pg_api_ok P" and ok: "world_ok P w" and q: "quiet w"
    and broker: "im_failing (w_broker w)" and lease: "0 < ds_lease settings"
    and i: "pg_interval P (ds_lease settings) = Some i" and range: "pg_time_range (w_now w + i)"
    and claimed: "claimed = claimable (w_now w) (w_locked w) (ds_batch_size settings) (w_rows w)"
    and read: "list_all (\<lambda>row. is_ok (row_envelope P row) \<and> retryable P settings row) claimed"
  shows "dispatch_round (pg_outbox P) (broker_transport P) settings (world_env P) w =
    (ds_batch_size settings = 0,
     w\<lparr>w_rows := map (\<lambda>row. if row \<in> set claimed then put_back_row P settings (w_now w) row else row)
        (w_rows w)\<rparr>)"
proof -
  let ?n = "ds_batch_size settings" and ?now = "w_now w"
  have table: "table_ok (w_rows w)" using ok by (simp add: world_ok_def)
  obtain leased rows' where cl: "claim_rows ?now i (w_locked w) ?n (w_rows w) = (leased, rows')"
    by (cases "claim_rows ?now i (w_locked w) ?n (w_rows w)")
  note cs = claim_leases [OF table claimed cl]
  have created: "pg_time_range (or_created_at c)" if "c \<in> set claimed" for c
    using cs(3) [OF that] ok by (simp add: world_ok_def list_all_iff)
  have good: "readable_row P l \<and> retryable P settings l" if "l \<in> set leased" for l
    using that read created cs(3) range by (auto simp: cs(1) readable_row_def retryable_def list_all_iff)
  have "read_record P (select_row P l) = Inr (record_of P l)" if "l \<in> set leased" for l
    using that leased_record(1) [OF api] read created range by (auto simp: cs(1) list_all_iff)
  then have claim: "pg_claim P ?n (ds_lease settings) w
      = (Inr (map (record_of P) leased), w\<lparr>w_rows := rows'\<rparr>)"
    by (rule pg_claim_quiet [OF q i cl])
  note batch = publish_batch_failing [OF api, of "w\<lparr>w_rows := rows'\<rparr>" ?now "w_instant w" settings leased "[]"]
  have same: "map (\<lambda>q. if q \<in> set leased then put_back_row P settings ?now q else q) rows'
      = map (\<lambda>row. if row \<in> set claimed then put_back_row P settings ?now row else row) (w_rows w)"
    unfolding cs(2) map_map o_def
    by (rule map_cong [OF refl], simp only: cs(7)) (simp add: put_back_row_def leased_row_def Let_def)
  show ?thesis
    using claim batch q broker lease cs(4-6) good same
    by (simp add: dispatch_round_def Let_def pg_outbox_def world_env_def list_all_iff)
qed

section \<open>Stopping\<close>

text \<open>What a claim keeps: whatever other sessions keep, and the rows have nothing to do with.\<close>

lemma statement_keeps:
  assumes "\<And>u. Q u \<Longrightarrow> Q (snd (next_fault (interfere P u)))" and "\<And>u rows. Q u \<Longrightarrow> Q (u\<lparr>w_rows := rows\<rparr>)"
    and "Q w"
  shows "Q (snd (statement P context f w))"
proof -
  obtain fault u where u: "next_fault (interfere P w) = (fault, u)" by fastforce
  then have "Q u" using assms(1,3) by (metis snd_conv)
  then show ?thesis
    using u assms(2) by (auto simp: statement_def split: fault.splits sum.splits prod.splits)
qed

lemma and_then_io_keeps:
  assumes "Q (snd (f w))" and "\<And>a u. Q u \<Longrightarrow> Q (snd (g a u))"
  shows "Q (snd (and_then_io f g w))"
  using assms by (cases "f w") (auto simp: and_then_io_def split: sum.splits)

lemma claim_keeps:
  assumes keeps: "\<And>u. Q u \<Longrightarrow> Q (snd (next_fault (interfere P u)))"
      "\<And>u rows. Q u \<Longrightarrow> Q (u\<lparr>w_rows := rows\<rparr>)" and w: "Q w"
  shows "Q (snd (pg_claim P limit lease w))"
proof -
  have read: "Q (snd (read_claimed P cs u))" if "Q u" for cs u
    using that
  proof (induction cs arbitrary: u)
    case (Cons c cs)
    show ?case
    proof (cases "read_record P c")
      case (Inl e)
      have "Q (snd (update_statement P ''marking an unreadable outbox row failed''
          (\<lambda>w. mark_unreadable_rows P c e (w_rows w)) u))"
        unfolding update_statement_def by (rule statement_keeps [where Q = Q, OF keeps Cons.prems])
      then show ?thesis
        using Inl by (simp only: read_claimed.simps sum.case) (rule and_then_io_keeps [where Q = Q], simp_all add: Cons.IH)
    next
      case (Inr r)
      then show ?thesis
        using Cons.IH [OF Cons.prems]
        by (cases "read_claimed P cs u") (auto simp: and_then_io_def return_io_def split: sum.splits)
    qed
  qed simp
  show ?thesis
    unfolding pg_claim_def
  proof (rule and_then_io_keeps [where Q = Q])
    show "Q (snd (bind_interval P ''claiming outbox rows'' lease w))"
      using w by (simp add: bind_interval_def lift_io_def)
    show "Q (snd (and_then_io (statement P ''claiming outbox rows'' (\<lambda>w. case claim_rows (w_now w) i (w_locked w)
        limit (w_rows w) of (claimed, rows) \<Rightarrow> Inr (map (select_row P) claimed, rows))) (read_claimed P) u))"
      if "Q u" for i u
      by (rule and_then_io_keeps [where Q = Q])
        (rule statement_keeps [where Q = Q], erule keeps(1), erule keeps(2), rule that, erule read)
  qed
qed

lemma stop_stays: "w_stop w \<Longrightarrow> w_stop (snd (next_fault (interfere P w)))"
proof -
  have "w_stop (act P a u)" if "w_stop u" for a u
    using that by (cases a) (auto simp: publish_to_broker_def set_rows_def split: prod.splits sum.splits)
  then have "w_stop (foldl (\<lambda>u a. act P a u) u as)" if "w_stop u" for as u
    using that by (induction as arbitrary: u) simp_all
  then show "w_stop w \<Longrightarrow> w_stop (snd (next_fault (interfere P w)))"
    by (auto simp: interfere_def next_fault_def split: list.splits)
qed

lemma claim_stopped:
  shows "w_stop w \<Longrightarrow> w_stop (snd (pg_claim P limit lease w))"
    and "w_others w = [] \<Longrightarrow> w_broker (interfere P (snd (pg_claim P limit lease w))) = w_broker w"
proof -
  show "w_stop w \<Longrightarrow> w_stop (snd (pg_claim P limit lease w))"
    by (rule claim_keeps [where Q = w_stop]) (simp_all add: stop_stays)
  have "w_others (snd (pg_claim P limit lease w)) = [] \<and> w_broker (snd (pg_claim P limit lease w)) = w_broker w"
    if "w_others w = []"
    by (rule claim_keeps [where Q = "\<lambda>u. w_others u = [] \<and> w_broker u = w_broker w"])
      (use that in \<open>simp_all add: interfere_def next_fault_def split: list.splits\<close>)
  then show "w_others w = [] \<Longrightarrow> w_broker (interfere P (snd (pg_claim P limit lease w))) = w_broker w"
    by (simp add: interfere_def)
qed

text \<open>A turn ends the loop exactly when the signal is there at its end.\<close>

lemma turn_stops:
  "fst (dispatch_turn Ob T settings (world_env P) w)
    \<longleftrightarrow> w_stop (snd (dispatch_turn Ob T settings (world_env P) w))"
  by (simp add: dispatch_turn_def world_env_def Let_def)

lemma stopped_turn:
  assumes "w_stop w"
  shows "dispatch_turn (pg_outbox P) T settings (world_env P) w
    = (True, interfere P (snd (pg_claim P (ds_batch_size settings) (ds_lease settings) w)))"
proof -
  obtain r u where cl: "pg_claim P (ds_batch_size settings) (ds_lease settings) w = (r, u)" by fastforce
  then have u: "w_stop u" using claim_stopped(1) [OF assms] by (metis snd_conv)
  then have "rt_stopping (world_env P) u" by (simp add: world_env_def)
  note none = publish_batch_stopping [OF this, where store = "pg_outbox P"]
  have "ob_claim (pg_outbox P) = pg_claim P" by (simp add: pg_outbox_def)
  then have "snd (dispatch_round (pg_outbox P) T settings (world_env P) w) = u"
    using cl by (simp add: dispatch_round_def none Let_def split: sum.splits)
  moreover have "w_stop (interfere P u)" using stop_stays [OF u, of P] by (simp add: next_fault_def split: list.splits)
  ultimately show ?thesis using u cl by (simp add: dispatch_turn_def world_env_def Let_def)
qed

lemma run_until_stopped:
  assumes "\<not> w_stop w" and "w_stop (dispatch_turns Ob T settings (world_env P) n w)"
  shows "\<exists>m < n. dispatch_run Ob T settings (world_env P) w
      = Some (dispatch_turns Ob T settings (world_env P) (Suc m) w)
    \<and> w_stop (dispatch_turns Ob T settings (world_env P) (Suc m) w)
    \<and> (\<forall>k \<le> m. \<not> w_stop (dispatch_turns Ob T settings (world_env P) k w))"
  using assms
proof (induction n arbitrary: w)
  case (Suc n)
  let ?w = "snd (dispatch_turn Ob T settings (world_env P) w)"
  show ?case
  proof (cases "w_stop ?w")
    case True
    then show ?thesis
      using Suc.prems(1) turn_stops [of Ob T settings P w]
      by (intro exI [of _ 0]) (subst dispatch_run_turn, simp)
  next
    case False
    then obtain m where m: "m < n" "dispatch_run Ob T settings (world_env P) ?w
        = Some (dispatch_turns Ob T settings (world_env P) (Suc m) ?w)"
        "w_stop (dispatch_turns Ob T settings (world_env P) (Suc m) ?w)"
        "\<forall>k \<le> m. \<not> w_stop (dispatch_turns Ob T settings (world_env P) k ?w)"
      using Suc.IH [OF False] Suc.prems(2) by auto
    have "\<not> w_stop (dispatch_turns Ob T settings (world_env P) k w)" if "k \<le> Suc m" for k
      using that m(4) Suc.prems(1) by (cases k) simp_all
    then show ?thesis
      using m(1-3) False turn_stops [of Ob T settings P w]
      by (intro exI [of _ "Suc m"]) (subst dispatch_run_turn, simp)
  qed
qed simp

section \<open>Properties\<close>

text \<open>A world with one stored order that is due, and a dispatcher with its default settings.\<close>

definition outbox_world :: dworld where
  "outbox_world =
     \<lparr>w_rows = [sample_row], w_now = 2000, w_instant = 0, w_stop = False, w_broker = im_new,
      w_locked = [], w_faults = [], w_others = []\<rparr>"

lemma sample_row_envelope: "row_envelope plain_api sample_row = Inr order_placed"
proof -
  have "pg_time_range 1000" by (simp add: pg_time_range_def second_consts)
  from read_row_of [OF plain_api_ok order_placed_ok this] obtain ts where
    "read_record plain_api (select_row plain_api sample_row) = Inr (outbox_record_new order_placed ts 0 ts)"
    by (auto simp: sample_row_def plain_api_def)
  then show ?thesis
    by (auto simp: read_record_Inr row_envelope_def outbox_record_new_def)
qed

lemma outbox_world_ok: "pg_api_ok plain_api" "world_ok plain_api outbox_world" "quiet outbox_world"
  using plain_api_ok
  by (simp_all add: world_ok_def outbox_world_def quiet_def table_ok_def pg_time_range_def
      second_consts sample_row_def outbox_row_of_def)

lemma outbox_world_claim:
  "claimable (w_now outbox_world) (w_locked outbox_world) (ds_batch_size dispatch_default)
      (w_rows outbox_world) = [sample_row]"
  by (simp add: claimable_def outbox_world_def due_def sample_row_def outbox_row_of_def
      dispatch_default_def I64_MAX_def)

lemma dispatch_lease:
  "0 < ds_lease dispatch_default"
  "pg_interval plain_api (ds_lease dispatch_default) = Some 30000000"
  "pg_time_range (w_now outbox_world + 30000000)"
  by (simp_all add: dispatch_default_def from_secs_def plain_api_def pg_time_range_def
      second_consts outbox_world_def)

text \<open>
  C14: when nothing fails, a round of the dispatcher publishes the envelope of every row it claims, in
  id order, marks exactly those rows dispatched, changes no other row, and says whether the batch
  was full.
\<close>

theorem fault_free_round_delivers:
  assumes "pg_api_ok P" and "world_ok P w" and "quiet w" and "\<not> im_failing (w_broker w)"
    and "0 < ds_lease settings" and "pg_interval P (ds_lease settings) = Some i"
    and "pg_time_range (w_now w + i)"
    and "claimed = claimable (w_now w) (w_locked w) (ds_batch_size settings) (w_rows w)"
    and "map (row_envelope P) claimed = map Inr es"
    and "dispatch_round (pg_outbox P) (broker_transport P) settings (world_env P) w = (full, w')"
  shows "im_published (w_broker w') = im_published (w_broker w) @ es
    \<and> w_rows w' = map (\<lambda>row. if row \<in> set claimed then dispatched_row (w_now w) i row else row) (w_rows w)
    \<and> full = (length claimed = ds_batch_size settings)"
  using round_quiet [OF assms(1-9)] assms(10) publish_all_published [OF assms(4), of es] by auto

theorem fault_free_round_delivers_witness:
  "im_published (w_broker (snd (dispatch_round (pg_outbox plain_api) (broker_transport plain_api)
      dispatch_default (world_env plain_api) outbox_world))) = [order_placed]"
proof -
  obtain full w' where r: "dispatch_round (pg_outbox plain_api) (broker_transport plain_api)
      dispatch_default (world_env plain_api) outbox_world = (full, w')" by fastforce
  have b: "\<not> im_failing (w_broker outbox_world)" by (simp add: outbox_world_def im_new_def)
  have e: "map (row_envelope plain_api) [sample_row] = map Inr [order_placed]"
    by (simp add: sample_row_envelope)
  have "im_published (w_broker outbox_world) = []" by (simp add: outbox_world_def im_new_def)
  then show ?thesis
    using fault_free_round_delivers [OF outbox_world_ok b dispatch_lease
        outbox_world_claim [symmetric] e r] r by simp
qed

text \<open>
  C20: while the broker takes nothing, a round loses nothing: every row it claimed has one more
  attempt and the error, and waits for the delay of that attempt or, after the last one, is failed;
  no other row changes, and the round counts as one that was not full, whatever it claimed, so the
  dispatcher waits after it.
\<close>

theorem broker_down_round_puts_back:
  assumes "pg_api_ok P" and "world_ok P w" and "quiet w" and "im_failing (w_broker w)"
    and "0 < ds_lease settings" and "pg_interval P (ds_lease settings) = Some i"
    and "pg_time_range (w_now w + i)"
    and "claimed = claimable (w_now w) (w_locked w) (ds_batch_size settings) (w_rows w)"
    and "list_all (\<lambda>row. is_ok (row_envelope P row) \<and> retryable P settings row) claimed"
  shows "dispatch_round (pg_outbox P) (broker_transport P) settings (world_env P) w =
    (ds_batch_size settings = 0,
     w\<lparr>w_rows := map (\<lambda>row. if row \<in> set claimed then put_back_row P settings (w_now w) row else row)
        (w_rows w)\<rparr>)"
  using assms by (rule round_failing)

theorem broker_down_round_puts_back_witness:
  "map (\<lambda>row. (or_status row, or_attempts row, or_available_at row))
     (w_rows (snd (dispatch_round (pg_outbox plain_api) (broker_transport plain_api) dispatch_default
        (world_env plain_api) (outbox_world\<lparr>w_broker := im_new\<lparr>im_failing := True\<rparr>\<rparr>))))
   = [(Pending, 1, 1002000)]"
proof -
  let ?w = "outbox_world\<lparr>w_broker := im_new\<lparr>im_failing := True\<rparr>\<rparr>"
  have "world_ok plain_api ?w"
    using outbox_world_ok(2) by (simp add: world_ok_def outbox_world_def sample_row_def outbox_row_of_def)
  then have w: "world_ok plain_api ?w" "quiet ?w" "im_failing (w_broker ?w)"
    using outbox_world_ok(3) by (simp_all add: im_new_def)
  have c: "[sample_row] = claimable (w_now ?w) (w_locked ?w) (ds_batch_size dispatch_default) (w_rows ?w)"
    using outbox_world_claim by simp
  have range: "pg_time_range (w_now ?w + 30000000)" using dispatch_lease(3) by simp
  have d: "delay (ds_retry dispatch_default) 1 = from_secs 1"
    by (simp add: delay_def dispatch_default_def retry_default_def from_secs_def)
  have l: "list_all (\<lambda>row. is_ok (row_envelope plain_api row) \<and> retryable plain_api dispatch_default row)
      [sample_row]"
  proof -
    have "is_ok (row_envelope plain_api sample_row)" by (simp add: sample_row_envelope)
    moreover have "retryable plain_api dispatch_default sample_row"
      using d by (simp add: retryable_def sample_row_def outbox_row_of_def I32_MAX_def
          i32_to_u32_def saturating_add_u32_def U32_MAX_def plain_api_def from_secs_def)
    ultimately show ?thesis by simp
  qed
  show ?thesis
    unfolding broker_down_round_puts_back [OF plain_api_ok w dispatch_lease(1,2) range c l]
    using d
    by (simp add: outbox_world_def put_back_row_def sample_row_def outbox_row_of_def i32_to_u32_def
        saturating_add_u32_def U32_MAX_def is_last_def dispatch_default_def retry_default_def
        Let_def plain_api_def from_secs_def)
qed

text \<open>
  C1: a row is never marked dispatched unless the broker has its envelope: in every state the
  dispatcher's loop reaches, with statements refused or their answers lost, leases that run out and
  other sessions committing, claiming and marking in between.
\<close>

theorem dispatched_only_if_published:
  assumes "pg_api_ok P" and "world_ok P w"
    and "w' = dispatch_turns (pg_outbox P) (broker_transport P) settings (world_env P) n w"
    and "row \<in> set (w_rows w')" and "or_status row = Dispatched"
  shows "\<exists>e. row_envelope P row = Inr e \<and> e \<in> set (im_published (w_broker w'))"
proof -
  have "outbox_steps P w w'" using dispatcher.turns_evolve assms(1-3) by blast
  then have "world_ok P w'" using steps_keep(1) assms(2) by blast
  then show ?thesis using assms(4,5) by (auto simp: world_ok_def list_all_iff stored_def)
qed

lemma first_turn:
  "w_rows (dispatch_turns (pg_outbox plain_api) (broker_transport plain_api) dispatch_default
      (world_env plain_api) 1 outbox_world) = [dispatched_row 2000 30000000 sample_row]"
proof -
  have e: "map (row_envelope plain_api) [sample_row] = map Inr [order_placed]"
    by (simp add: sample_row_envelope)
  have b: "\<not> im_failing (w_broker outbox_world)" by (simp add: outbox_world_def im_new_def)
  have "length [sample_row] \<noteq> ds_batch_size dispatch_default" by (simp add: dispatch_default_def)
  with round_quiet [OF outbox_world_ok b dispatch_lease outbox_world_claim [symmetric] e] show ?thesis
    by (simp add: dispatch_turn_def Let_def world_env_def interfere_def outbox_world_def)
qed

theorem dispatched_only_if_published_witness:
  "\<exists>e. row_envelope plain_api (dispatched_row 2000 30000000 sample_row) = Inr e
    \<and> e \<in> set (im_published (w_broker (dispatch_turns (pg_outbox plain_api)
        (broker_transport plain_api) dispatch_default (world_env plain_api) 1 outbox_world)))"
proof (rule dispatched_only_if_published [OF outbox_world_ok(1,2) refl])
  show "dispatched_row 2000 30000000 sample_row \<in> set (w_rows (dispatch_turns (pg_outbox plain_api)
      (broker_transport plain_api) dispatch_default (world_env plain_api) 1 outbox_world))"
    unfolding first_turn by simp
  show "or_status (dispatched_row 2000 30000000 sample_row) = Dispatched"
    by (simp add: dispatched_row_def)
qed

text \<open>
  C19: the outbox loses and forges nothing: after any number of turns of the dispatcher, among any
  faults and other sessions, each row there was is still there with the same content, and is as it
  was if it was already dispatched or failed; the table stays well formed.
\<close>

theorem outbox_rows_kept:
  assumes "pg_api_ok P" and "world_ok P w"
    and "w' = dispatch_turns (pg_outbox P) (broker_transport P) settings (world_env P) n w"
  shows "world_ok P w' \<and> (\<forall>row \<in> set (w_rows w). \<exists>row' \<in> set (w_rows w').
      row_content row' = row_content row \<and> (or_status row \<noteq> Pending \<longrightarrow> row' = row))"
proof -
  have "outbox_steps P w w'" using dispatcher.turns_evolve assms by blast
  from steps_keep [OF this assms(2)] show ?thesis
    using rows_follow_row by (simp add: row_kept_def)
qed

theorem outbox_rows_kept_witness:
  "\<exists>row' \<in> set (w_rows (dispatch_turns (pg_outbox plain_api) (broker_transport plain_api)
      dispatch_default (world_env plain_api) 1 outbox_world)). row_content row' = row_content sample_row"
proof -
  have "sample_row \<in> set (w_rows outbox_world)" by (simp add: outbox_world_def)
  with outbox_rows_kept [OF outbox_world_ok(1,2) refl, of dispatch_default 1] show ?thesis
    by (elim conjE) (drule (1) bspec, blast)
qed

text \<open>
  C24: the dispatcher stops when it is told to. Its loop returns with the turn during which the signal
  comes, and starts no other; a loop that begins with the signal there claims once more, publishes
  nothing, marks nothing dispatched and returns, so what it claimed waits for its lease to run out and the
  broker has what it had, if no other session publishes. Full batches, faults and other sessions
  change nothing of it.
\<close>

theorem dispatcher_stops_when_told:
  shows "(w_stop w \<longrightarrow> dispatch_run (pg_outbox P) (broker_transport P) settings (world_env P) w
        = Some (interfere P (snd (pg_claim P (ds_batch_size settings) (ds_lease settings) w)))
      \<and> (w_others w = [] \<longrightarrow>
          w_broker (interfere P (snd (pg_claim P (ds_batch_size settings) (ds_lease settings) w))) = w_broker w))
    \<and> (\<not> w_stop w \<and> w_stop (dispatch_turns (pg_outbox P) (broker_transport P) settings (world_env P) n w) \<longrightarrow>
        (\<exists>m < n. dispatch_run (pg_outbox P) (broker_transport P) settings (world_env P) w
            = Some (dispatch_turns (pg_outbox P) (broker_transport P) settings (world_env P) (Suc m) w)
          \<and> w_stop (dispatch_turns (pg_outbox P) (broker_transport P) settings (world_env P) (Suc m) w)
          \<and> (\<forall>k \<le> m. \<not> w_stop (dispatch_turns (pg_outbox P) (broker_transport P) settings (world_env P) k w))))"
  using run_until_stopped [of w "pg_outbox P" "broker_transport P" settings P n] claim_stopped(2) [of w P]
  by (intro conjI impI) (subst dispatch_run_turn, simp_all add: stopped_turn)

theorem dispatcher_stops_when_told_witness:
  "\<exists>t. dispatch_run (pg_outbox plain_api) (broker_transport plain_api) dispatch_default
      (world_env plain_api) (outbox_world\<lparr>w_stop := True\<rparr>) = Some t
    \<and> im_published (w_broker t) = []"
proof -
  let ?w = "outbox_world\<lparr>w_stop := True\<rparr>"
  have w: "w_stop ?w" "w_others ?w = []" "im_published (w_broker ?w) = []"
    by (simp_all add: outbox_world_def im_new_def)
  then show ?thesis
    using dispatcher_stops_when_told [THEN conjunct1, of ?w plain_api dispatch_default] by simp
qed

text \<open>
  C5: the dispatcher refines the outbox's step relation: whatever a turn of its loop does, faults and
  other sessions included, is a sequence of atomic steps of the whole system (the clock, commits,
  claims, publishes and marks, a mark of dispatched rows only for published envelopes).
\<close>

theorem dispatcher_refines_steps:
  assumes "pg_api_ok P" and "world_ok P w"
  shows "outbox_steps P w (dispatch_turns (pg_outbox P) (broker_transport P) settings (world_env P) n w)
    \<and> (dispatch_run (pg_outbox P) (broker_transport P) settings (world_env P) w = Some t \<longrightarrow>
        outbox_steps P w t)"
  using dispatcher.turns_evolve dispatcher.run_evolves assms by blast

theorem dispatcher_refines_steps_witness:
  "outbox_steps plain_api outbox_world (dispatch_turns (pg_outbox plain_api)
     (broker_transport plain_api) dispatch_default (world_env plain_api) 1 outbox_world)"
  using dispatcher_refines_steps [OF outbox_world_ok(1,2)] by blast

end
