(* ===== verification/Unreadable.thy ===== *)
theory Unreadable
  imports Progress
begin

text \<open>
  Rows that are no envelopes (\<open>claim\<close> of \<open>postgres/src/outbox.rs\<close>): a claim takes them with the
  others, marks each failed with what is wrong with it and returns the rest; and when such a mark
  fails, the claim fails although the rows stay leased.
\<close>

definition readable :: "pg_api \<Rightarrow> outbox_row \<Rightarrow> bool" where
  "readable P row \<longleftrightarrow> is_ok (read_record P (select_row P row))"

definition set_aside_row :: "pg_api \<Rightarrow> outbox_row \<Rightarrow> outbox_row" where
  "set_aside_row P row =
     row\<lparr>or_status := Failed, or_attempts := or_attempts row + 1,
         or_last_error := Some (''not a valid envelope: '' @ projl (read_record P (select_row P row)))\<rparr>"

lemma row_key_set_aside [simp]: "row_key (set_aside_row P row) = row_key row"
  by (simp add: set_aside_row_def row_key_def)

text \<open>What the statement needs of a row it is to mark.\<close>

definition markable :: "outbox_row \<Rightarrow> bool" where
  "markable row \<longleftrightarrow> or_status row = Pending \<and> or_attempts row < I32_MAX
     \<and> pg_time_range (or_created_at row) \<and> pg_time_range (or_available_at row)"

lemma mark_unreadable_only:
  assumes api: "pg_api_ok P" and table: "table_ok rows" and l: "l \<in> set rows" "markable l"
    and error: "read_record P (select_row P l) = Inl error"
  shows "mark_unreadable_rows P (select_row P l) error rows
    = Inr (map (\<lambda>q. if q = l then set_aside_row P q else q) rows)"
proof -
  have t: "pg_timestamptz P (pg_to_json P (or_created_at l)) = Some (or_created_at l)"
    "pg_timestamptz P (pg_to_json P (or_available_at l)) = Some (or_available_at l)"
    using api l(2) by (simp_all add: pg_api_ok_def markable_def)
  have iff: "unreadable_held P (select_row P l) q \<longleftrightarrow> row_key q = row_key l \<and> or_status q = Pending
      \<and> or_available_at q = or_available_at l" for q
    by (simp add: unreadable_held_def select_row_def row_key_def t) (rule iffI; elim conjE; simp)
  have held: "unreadable_held P (select_row P l) q \<longleftrightarrow> q = l" if "q \<in> set rows" for q
  proof
    assume "unreadable_held P (select_row P l) q"
    then show "q = l" using table_unique [OF table that l(1)] unfolding iff by blast
  qed (use l(2) in \<open>simp add: iff markable_def\<close>)
  have "\<not> list_ex (\<lambda>q. unreadable_held P (select_row P l) q \<and> or_attempts q = I32_MAX) rows"
    unfolding list_ex_iff using l(2) held by (auto simp: markable_def)
  moreover have "update_held (unreadable_held P (select_row P l)) f rows
      = map (\<lambda>q. if q = l then f q else q) rows" for f
    unfolding update_held_def using held by (intro map_cong) simp_all
  moreover have "cr_created_at (select_row P l) = pg_to_json P (or_created_at l)"
    "cr_available_at (select_row P l) = pg_to_json P (or_available_at l)"
    by (simp_all add: select_row_def)
  ultimately show ?thesis
    using t error by (auto simp: mark_unreadable_rows_def attempt_held_def set_aside_row_def)
qed

lemma read_claimed_sets_aside:
  assumes api: "pg_api_ok P"
  shows "quiet w \<Longrightarrow> table_ok (w_rows w) \<Longrightarrow> distinct ls \<Longrightarrow> set ls \<subseteq> set (w_rows w) \<Longrightarrow>
    list_all markable ls \<Longrightarrow>
    read_claimed P (map (select_row P) ls) w
      = (Inr (map (record_of P) (filter (readable P) ls)),
         w\<lparr>w_rows := map (\<lambda>q. if q \<in> set (filter (\<lambda>l. \<not> readable P l) ls) then set_aside_row P q else q)
            (w_rows w)\<rparr>)"
proof (induction ls arbitrary: w)
  case Nil
  then show ?case by simp
next
  case (Cons l ls)
  let ?bad = "filter (\<lambda>l. \<not> readable P l) ls"
  show ?case
  proof (cases "read_record P (select_row P l)")
    case (Inr r)
    then have "readable P l" "record_of P l = r" by (simp_all add: readable_def record_of_def)
    moreover have "read_claimed P (map (select_row P) ls) w
      = (Inr (map (record_of P) (filter (readable P) ls)),
         w\<lparr>w_rows := map (\<lambda>q. if q \<in> set ?bad then set_aside_row P q else q) (w_rows w)\<rparr>)"
      by (rule Cons.IH) (use Cons.prems in simp_all)
    ultimately show ?thesis using Inr by (simp add: and_then_io_def return_io_def)
  next
    case (Inl error)
    then have bad: "\<not> readable P l" by (simp add: readable_def)
    let ?w = "w\<lparr>w_rows := map (\<lambda>q. if q = l then set_aside_row P q else q) (w_rows w)\<rparr>"
    have mark: "update_statement P ''marking an unreadable outbox row failed''
        (\<lambda>w. mark_unreadable_rows P (select_row P l) error (w_rows w)) w = (Inr (), ?w)"
      by (rule update_statement_quiet)
        (use Cons.prems mark_unreadable_only [OF api _ _ _ Inl, of "w_rows w"] in simp_all)
    have others: "map (\<lambda>q. if q \<in> set ?bad then set_aside_row P q else q) (w_rows ?w)
        = map (\<lambda>q. if q \<in> set (l # ?bad) then set_aside_row P q else q) (w_rows w)"
      using put_back_others(1) [of "w_rows w" l ?bad "set_aside_row P"] Cons.prems by fastforce
    have rest: "table_ok (w_rows ?w)" "set ls \<subseteq> set (w_rows ?w)"
      using put_back_others(2,3) [of "w_rows w" l ls "set_aside_row P"] Cons.prems by simp_all
    have "read_claimed P (map (select_row P) ls) ?w
      = (Inr (map (record_of P) (filter (readable P) ls)),
         ?w\<lparr>w_rows := map (\<lambda>q. if q \<in> set ?bad then set_aside_row P q else q) (w_rows ?w)\<rparr>)"
      by (rule Cons.IH) (use Cons.prems rest in simp_all)
    also have "\<dots> = (Inr (map (record_of P) (filter (readable P) ls)),
         w\<lparr>w_rows := map (\<lambda>q. if q \<in> set (l # ?bad) then set_aside_row P q else q) (w_rows w)\<rparr>)"
      using others by (simp del: map_map)
    finally show ?thesis using Inl mark bad by (simp add: and_then_io_def)
  qed
qed

section \<open>The claim\<close>

lemma lease_claimed:
  assumes "table_ok rows" and "row \<in> set rows"
  shows "lease_row t (map row_key (claimable now locked n rows)) row =
    (if row \<in> set (claimable now locked n rows) then row\<lparr>or_available_at := t\<rparr> else row)"
proof (cases "row_key row \<in> row_key ` set (claimable now locked n rows)")
  case True
  then have "row \<in> set (claimable now locked n rows)"
    using table_unique [OF assms] claimable_set by blast
  then show ?thesis by (simp add: lease_row_def)
next
  case False
  then show ?thesis by (auto simp: lease_row_def)
qed

definition claimed_row_after :: "pg_api \<Rightarrow> int \<Rightarrow> outbox_row \<Rightarrow> outbox_row" where
  "claimed_row_after P until row =
     (let leased = row\<lparr>or_available_at := until\<rparr>
      in if readable P leased then leased else set_aside_row P leased)"

text \<open>The leases of a claim, then the rows that are set aside, row by row.\<close>

lemma claim_leases_rows:
  assumes table: "table_ok rows" and claimed: "claimed = claimable now locked n rows"
  shows "row \<in> set claimed \<Longrightarrow> row \<in> set rows \<and> or_status row = Pending"
    and "row \<in> set rows \<Longrightarrow> lease_row t (map row_key claimed) row
      = (if row \<in> set claimed then row\<lparr>or_available_at := t\<rparr> else row)"
    and "claim_rows now i locked n rows
      = (map (\<lambda>row. row\<lparr>or_available_at := now + i\<rparr>) claimed, map (lease_row (now + i) (map row_key claimed)) rows)"
proof -
  show sub: "row \<in> set rows \<and> or_status row = Pending" if "row \<in> set claimed" for row
    using claimable_set [of row now locked n rows] that by (auto simp: claimed due_def)
  show lr: "lease_row t (map row_key claimed) row
      = (if row \<in> set claimed then row\<lparr>or_available_at := t\<rparr> else row)"
    if "row \<in> set rows" for row t
    using lease_claimed [OF table that] unfolding claimed .
  show "claim_rows now i locked n rows
      = (map (\<lambda>row. row\<lparr>or_available_at := now + i\<rparr>) claimed, map (lease_row (now + i) (map row_key claimed)) rows)"
    using lr sub by (simp add: claim_rows_def Let_def claimed [symmetric])
qed

lemma set_aside_leased:
  assumes table: "table_ok rows" and claimed: "claimed = claimable now locked n rows"
  shows "map (\<lambda>q. if q \<in> set (filter (\<lambda>l. \<not> readable P l) (map (\<lambda>row. row\<lparr>or_available_at := t\<rparr>) claimed))
        then set_aside_row P q else q) (map (lease_row t (map row_key claimed)) rows)
      = map (\<lambda>row. if row \<in> set claimed then claimed_row_after P t row else row) rows"
    (is "map _ (map (lease_row _ ?keys) _) = _")
  unfolding map_map o_def
proof (rule map_cong [OF refl])
  let ?leased = "map (\<lambda>row. row\<lparr>or_available_at := t\<rparr>) claimed"
  note lr = claim_leases_rows(2) [OF table claimed] and sub = claim_leases_rows(1) [OF table claimed]
  fix row assume row: "row \<in> set rows"
  have key: "row_key (row\<lparr>or_available_at := t\<rparr>) = row_key row" for row by (simp add: row_key_def)
  have "row \<in> set claimed" if leased: "row \<in> set ?leased"
  proof -
    obtain c where c: "c \<in> set claimed" "row = c\<lparr>or_available_at := t\<rparr>"
      using leased by auto
    then have "row_key row = row_key c" by (simp only: key)
    then show ?thesis using table_unique [OF table row] sub c(1) by metis
  qed
  then show "(if lease_row t ?keys row \<in> set (filter (\<lambda>l. \<not> readable P l) ?leased)
        then set_aside_row P (lease_row t ?keys row) else lease_row t ?keys row)
      = (if row \<in> set claimed then claimed_row_after P t row else row)"
    unfolding lr [OF row] by (auto simp: claimed_row_after_def Let_def)
qed

lemma pg_claim_sets_aside:
  assumes api: "pg_api_ok P" and q: "quiet w" and table: "table_ok (w_rows w)"
    and i: "pg_interval P lease = Some i" and range: "pg_time_range (w_now w + i)"
    and claimed: "claimed = claimable (w_now w) (w_locked w) n (w_rows w)"
    and rows: "\<forall>row \<in> set claimed. or_attempts row < I32_MAX \<and> pg_time_range (or_created_at row)"
  shows "pg_claim P n lease w =
    (Inr (map (record_of P) (filter (readable P)
        (map (\<lambda>row. row\<lparr>or_available_at := w_now w + i\<rparr>) claimed))),
     w\<lparr>w_rows := map (\<lambda>row. if row \<in> set claimed then claimed_row_after P (w_now w + i) row else row)
        (w_rows w)\<rparr>)"
proof -
  let ?t = "w_now w + i" and ?keys = "map row_key claimed"
  let ?leased = "map (\<lambda>row. row\<lparr>or_available_at := ?t\<rparr>) claimed"
  let ?rows = "map (lease_row ?t ?keys) (w_rows w)"
  note sub = claim_leases_rows(1) [OF table claimed] and lr = claim_leases_rows(2) [OF table claimed]
    and cl = claim_leases_rows(3) [OF table claimed, of i]
  have key: "row_key (row\<lparr>or_available_at := t\<rparr>) = row_key row" for row t by (simp add: row_key_def)
  have "distinct (map row_key ?leased)"
    using claimable_distinct [OF table] by (simp add: claimed o_def key)
  then have "distinct ?leased" using distinct_map [of row_key ?leased] by blast
  moreover have "table_ok ?rows"
    using table by (simp add: table_ok_def o_def)
  moreover have leased_in: "set ?leased \<subseteq> set ?rows" using lr sub by force
  moreover have "list_all markable ?leased"
    using rows sub range by (auto simp: list_all_iff markable_def)
  ultimately have facts: "distinct ?leased" "table_ok ?rows" "set ?leased \<subseteq> set ?rows"
    "list_all markable ?leased"
    by blast+
  have "read_claimed P (map (select_row P) ls) (w\<lparr>w_rows := rows\<rparr>)
      = (Inr (map (record_of P) (filter (readable P) ls)),
         w\<lparr>w_rows := map (\<lambda>q. if q \<in> set (filter (\<lambda>l. \<not> readable P l) ls)
            then set_aside_row P q else q) rows\<rparr>)"
    if "distinct ls" "table_ok rows" "set ls \<subseteq> set rows" "list_all markable ls" for ls rows
    using read_claimed_sets_aside [OF api, of "w\<lparr>w_rows := rows\<rparr>" ls] q that by simp
  note read = this [OF facts]
  note same = set_aside_leased [OF table claimed, of P ?t]
  show ?thesis
    using q i cl read same
    by (simp add: pg_claim_def bind_interval_def and_then_io_def lift_io_def statement_quiet)
qed

text \<open>The mark that finds the connection gone fails the claim, after its rows are leased.\<close>

lemma read_claimed_refused:
  "w_others w = [] \<Longrightarrow> w_faults w = [Refused] \<Longrightarrow> \<exists>l \<in> set ls. \<not> readable P l \<Longrightarrow>
    read_claimed P (map (select_row P) ls) w
      = (Inl (Database ''marking an unreadable outbox row failed'' ''the connection failed''),
         w\<lparr>w_faults := []\<rparr>)"
proof (induction ls)
  case Nil
  then show ?case by simp
next
  case (Cons l ls)
  show ?case
  proof (cases "read_record P (select_row P l)")
    case (Inl error)
    then show ?thesis
      using Cons.prems
      by (simp add: and_then_io_def update_statement_def statement_def interfere_def next_fault_def)
  next
    case (Inr r)
    then have "readable P l" by (simp add: readable_def)
    then show ?thesis using Cons Inr by (simp add: and_then_io_def)
  qed
qed

lemma pg_claim_refused:
  assumes "w_others w = []" and "w_faults w = [Fine, Refused]" and "pg_interval P lease = Some i"
    and "claim_rows (w_now w) i (w_locked w) n (w_rows w) = (claimed, rows)"
    and "\<exists>row \<in> set claimed. \<not> readable P row"
  shows "pg_claim P n lease w
    = (Inl (Database ''marking an unreadable outbox row failed'' ''the connection failed''),
       w\<lparr>w_rows := rows, w_faults := []\<rparr>)"
  using assms read_claimed_refused [of "w\<lparr>w_faults := [Refused], w_rows := rows\<rparr>" claimed P]
  by (simp add: pg_claim_def bind_interval_def and_then_io_def lift_io_def statement_def
      interfere_def next_fault_def)

section \<open>Properties\<close>

definition bad_row :: outbox_row where
  "bad_row = sample_row\<lparr>or_id := 3, or_attributes := [(''tenant'', JsonOther ''1'')]\<rparr>"

definition mixed_world :: dworld where
  "mixed_world = outbox_world\<lparr>w_rows := [bad_row, sample_row]\<rparr>"

lemma bad_row_unreadable: "\<not> readable plain_api (bad_row\<lparr>or_available_at := t\<rparr>)"
  by (simp add: readable_def bad_row_def select_row_def read_record_def read_envelope_def
      string_attribute_def)

lemma mixed_world_claim:
  "claimable (w_now mixed_world) (w_locked mixed_world) 10 (w_rows mixed_world) = [bad_row, sample_row]"
  by (simp add: claimable_def mixed_world_def outbox_world_def due_def bad_row_def sample_row_def
      outbox_row_of_def I64_MAX_def order_placed_def)

text \<open>
  C26: the claim returns exactly the rows it took that are valid envelopes, in id order, and each
  other row it took is failed with what is wrong with it, so that it is never claimed again; no other
  row changes.
\<close>

theorem claim_sets_unreadable_aside:
  assumes "pg_api_ok P" and "quiet w" and "table_ok (w_rows w)"
    and "pg_interval P lease = Some i" and "pg_time_range (w_now w + i)"
    and "claimed = claimable (w_now w) (w_locked w) n (w_rows w)"
    and "\<forall>row \<in> set claimed. or_attempts row < I32_MAX \<and> pg_time_range (or_created_at row)"
  shows "pg_claim P n lease w =
    (Inr (map (record_of P) (filter (readable P)
        (map (\<lambda>row. row\<lparr>or_available_at := w_now w + i\<rparr>) claimed))),
     w\<lparr>w_rows := map (\<lambda>row. if row \<in> set claimed then claimed_row_after P (w_now w + i) row else row)
        (w_rows w)\<rparr>)"
  using assms by (rule pg_claim_sets_aside)

theorem claim_sets_unreadable_aside_witness:
  "or_status (hd (w_rows (snd (pg_claim plain_api 10 (from_secs 30) mixed_world)))) = Failed"
proof -
  have q: "quiet mixed_world" using outbox_world_ok(3) by (simp add: mixed_world_def quiet_def)
  have t: "table_ok (w_rows mixed_world)"
    by (simp add: mixed_world_def table_ok_def row_key_def bad_row_def sample_row_def
        outbox_row_of_def order_placed_def)
  have i: "pg_interval plain_api (from_secs 30) = Some 30000000"
    by (simp add: plain_api_def from_secs_def)
  have range: "pg_time_range (w_now mixed_world + 30000000)"
    using dispatch_lease(3) by (simp add: mixed_world_def)
  have rows: "\<forall>row \<in> set [bad_row, sample_row].
      or_attempts row < I32_MAX \<and> pg_time_range (or_created_at row)"
    by (simp add: bad_row_def sample_row_def outbox_row_of_def I32_MAX_def pg_time_range_def second_consts)
  show ?thesis
    unfolding claim_sets_unreadable_aside
      [OF plain_api_ok q t i range mixed_world_claim [symmetric] rows]
    using bad_row_unreadable
    by (simp add: mixed_world_def claimed_row_after_def Let_def set_aside_row_def)
qed

text \<open>
  C27: when the connection fails at the statement that marks an unreadable row, the claim is an error
  and yet every row it took stays leased: for the length of the lease no session claims them.
\<close>

theorem failed_claim_keeps_leases:
  assumes "w_others w = []" and "w_faults w = [Fine, Refused]" and "pg_interval P lease = Some i"
    and "0 < i" and "table_ok (w_rows w)"
    and "claimed = claimable (w_now w) (w_locked w) n (w_rows w)"
    and "\<exists>row \<in> set claimed. \<not> readable P (row\<lparr>or_available_at := w_now w + i\<rparr>)"
    and "pg_claim P n lease w = (r, w')"
  shows "\<not> is_ok r
    \<and> w_rows w' = map (\<lambda>row. if row \<in> set claimed then row\<lparr>or_available_at := w_now w + i\<rparr> else row)
        (w_rows w)
    \<and> (\<forall>row \<in> set claimed. \<forall>now < w_now w + i. \<not> due now (row\<lparr>or_available_at := w_now w + i\<rparr>))"
proof -
  have sub: "row \<in> set (w_rows w)" if "row \<in> set claimed" for row
    using claimable_set [of row "w_now w" "w_locked w" n "w_rows w"] that assms(6) by auto
  have lr: "lease_row (w_now w + i) (map row_key claimed) row =
      (if row \<in> set claimed then row\<lparr>or_available_at := w_now w + i\<rparr> else row)"
    if "row \<in> set (w_rows w)" for row
    using lease_claimed [OF assms(5) that] unfolding assms(6) .
  have cl: "claim_rows (w_now w) i (w_locked w) n (w_rows w)
      = (map (\<lambda>row. row\<lparr>or_available_at := w_now w + i\<rparr>) claimed,
         map (\<lambda>row. if row \<in> set claimed then row\<lparr>or_available_at := w_now w + i\<rparr> else row) (w_rows w))"
    using lr sub by (simp add: claim_rows_def Let_def assms(6) [symmetric])
  have bad: "\<exists>row \<in> set (map (\<lambda>row. row\<lparr>or_available_at := w_now w + i\<rparr>) claimed). \<not> readable P row"
    using assms(7) by auto
  show ?thesis
    using pg_claim_refused [OF assms(1-3) cl bad] assms(8) by (auto simp: due_def)
qed

theorem failed_claim_keeps_leases_witness:
  "\<not> is_ok (fst (pg_claim plain_api 10 (from_secs 30) (mixed_world\<lparr>w_faults := [Fine, Refused]\<rparr>)))"
proof -
  let ?w = "mixed_world\<lparr>w_faults := [Fine, Refused]\<rparr>"
  have o: "w_others ?w = []" "w_faults ?w = [Fine, Refused]"
    by (simp_all add: mixed_world_def outbox_world_def)
  have t: "table_ok (w_rows ?w)"
    by (simp add: mixed_world_def table_ok_def row_key_def bad_row_def sample_row_def
        outbox_row_of_def order_placed_def)
  have i: "pg_interval plain_api (from_secs 30) = Some 30000000"
    by (simp add: plain_api_def from_secs_def)
  have pos: "0 < (30000000::int)" by simp
  have c: "[bad_row, sample_row] = claimable (w_now ?w) (w_locked ?w) 10 (w_rows ?w)"
    using mixed_world_claim by simp
  have bad: "\<exists>row \<in> set [bad_row, sample_row].
      \<not> readable plain_api (row\<lparr>or_available_at := w_now ?w + 30000000\<rparr>)"
    using bad_row_unreadable by simp
  obtain r w' where "pg_claim plain_api 10 (from_secs 30) ?w = (r, w')" by fastforce
  then show ?thesis
    using failed_claim_keeps_leases [OF o i pos t c bad] by simp
qed

end
