(* ===== verification/Clock.thy ===== *)
theory Clock
  imports Handler "HOL-Library.Stream"
begin

text \<open>
  The clock (\<open>core/src/clock.rs\<close>) and what reads it: \<open>MessageId::new\<close>, \<open>Timestamp::now\<close> and
  \<open>Envelope::new\<close>. A process has the wall clock's readings to come, in nanoseconds from the epoch,
  and the static \<open>CONTEXT\<close>; its lock is taken for one id at a time, and a poisoned one is still used.
  The uuid crate is a parameter: \<open>v7_from_unix\<close> is \<open>Uuid::new_v7\<close> with that context, and \<open>v7_ok\<close>
  says what is documented of \<open>ContextV7\<close>: each id is above the one before, whatever the time, until
  the ids end (\<open>limit\<close>, as there are finitely many).
\<close>

record 'c uuid_v7 =
  v7_from_unix :: "'c \<Rightarrow> nat \<Rightarrow> nat \<Rightarrow> uuid \<times> 'c"

definition v7_ok :: "'c uuid_v7 \<Rightarrow> ('c \<Rightarrow> uuid option) \<Rightarrow> uuid \<Rightarrow> bool" where
  "v7_ok V previous limit \<longleftrightarrow> (\<forall>c secs nanos id c'. v7_from_unix V c secs nanos = (id, c') \<longrightarrow>
     previous c' = Some id \<and> (\<forall>u. previous c = Some u \<and> u < limit \<longrightarrow> u < id))"

record 'c process =
  pr_clock :: "int stream"
  pr_context :: 'c

definition clock_now :: "'c process \<Rightarrow> int \<times> 'c process" where
  "clock_now p = (shd (pr_clock p), p\<lparr>pr_clock := stl (pr_clock p)\<rparr>)"

definition duration_since_epoch :: "int \<Rightarrow> (nat, nat) result" where
  "duration_since_epoch t = (if 0 \<le> t then Inr (nat t) else Inl (nat (- t)))"

definition new_v7 :: "'c uuid_v7 \<Rightarrow> 'c process \<Rightarrow> uuid \<times> 'c process" where
  "new_v7 V p =
     (let (time, p) = clock_now p;
          since_epoch = (case duration_since_epoch time of Inr d \<Rightarrow> d | Inl _ \<Rightarrow> 0);
          (id, context) = v7_from_unix V (pr_context p)
            (since_epoch div 1000000000) (since_epoch mod 1000000000)
      in (id, p\<lparr>pr_context := context\<rparr>))"

definition message_id_new :: "'c uuid_v7 \<Rightarrow> 'c process \<Rightarrow> message_id \<times> 'c process" where
  "message_id_new V p = (let (id, p) = new_v7 V p in (MessageId id, p))"

definition timestamp_now :: "'c process \<Rightarrow> timestamp \<times> 'c process" where
  "timestamp_now p = (let (time, p) = clock_now p in (from_system_time (duration_since_epoch time), p))"

definition envelope_now ::
    "'c uuid_v7 \<Rightarrow> message_type \<Rightarrow> source \<Rightarrow> content_type \<Rightarrow> string \<Rightarrow> 'c process \<Rightarrow> envelope \<times> 'c process" where
  "envelope_now V message_type source content_type data p =
     (let (id, p) = message_id_new V p;
          (time, p) = timestamp_now p
      in (envelope_new id time message_type source content_type data, p))"

text \<open>\<open>encode\<close> of \<open>Handler\<close> with the clock of its process, which it reads only for an envelope it makes.\<close>

definition encode_now ::
    "'c uuid_v7 \<Rightarrow> source \<Rightarrow> 'm message_impl \<Rightarrow> 'm \<Rightarrow> 'c process
      \<Rightarrow> (publish_error, envelope) result option \<times> 'c process" where
  "encode_now V source M message p =
     (case map_err PublishMessageType (message_type_new (msg_type M)) of
        Inl e \<Rightarrow> (Some (Inl e), p)
      | Inr message_type \<Rightarrow>
          (case content_type_new json_content_type of
             Inl _ \<Rightarrow> (None, p)
           | Inr content_type \<Rightarrow>
               (case map_err PublishEncode (json_encode M message) of
                  Inl e \<Rightarrow> (Some (Inl e), p)
                | Inr data \<Rightarrow>
                    (case envelope_now V message_type source content_type data p of
                       (envelope, p) \<Rightarrow> (Some (Inr envelope), p)))))"

text \<open>
  A process makes ids one after the other: for the messages it publishes, of any type and from any
  source, and for inbox receipts. \<open>run_process\<close> lists each with its envelope, where it has one.
\<close>

datatype 'm making = ForReceipt | ForMessage source "'m message_impl" 'm

fun run_process ::
    "'c uuid_v7 \<Rightarrow> 'm making list \<Rightarrow> 'c process
      \<Rightarrow> (message_id \<times> envelope option) list \<times> 'c process" where
  "run_process V [] p = ([], p)"
| "run_process V (ForReceipt # rest) p =
     (case message_id_new V p of (i, p) \<Rightarrow>
        (case run_process V rest p of (made, p) \<Rightarrow> ((i, None) # made, p)))"
| "run_process V (ForMessage source M message # rest) p =
     (case encode_now V source M message p of
        (Some (Inr e), p) \<Rightarrow>
          (case run_process V rest p of (made, p) \<Rightarrow> ((env_id e, Some e) # made, p))
      | (_, p) \<Rightarrow> run_process V rest p)"

definition envelopes_made :: "(message_id \<times> envelope option) list \<Rightarrow> envelope list" where
  "envelopes_made made = List.map_filter snd made"

section \<open>Lemmas\<close>

lemma encode_now_Inr:
  "encode_now V source M message p = (Some (Inr e), p') \<longleftrightarrow>
    (\<exists>i t p1. message_id_new V p = (i, p1) \<and> timestamp_now p1 = (t, p')
      \<and> encode (i, t) source M message = Some (Inr e))"
  by (auto simp: encode_now_def encode_def envelope_now_def result_simps Let_def
      split: sum.splits prod.splits)

lemma encode_now_result:
  "fst (encode_now V source M message p) \<noteq> None"
  "\<forall>e. fst (encode_now V source M message p) \<noteq> Some (Inr e) \<Longrightarrow>
    snd (encode_now V source M message p) = p"
  using json_content_type_valid
  by (auto simp: encode_now_def split: sum.splits prod.splits)

lemma message_id_new_above:
  assumes "v7_ok V previous limit" and "message_id_new V p = (i, p')"
  shows "previous (pr_context p') = Some (as_uuid i)"
    and "previous (pr_context p) = Some u \<Longrightarrow> u < limit \<Longrightarrow> u < as_uuid i"
  using assms by (auto simp: message_id_new_def new_v7_def clock_now_def v7_ok_def Let_def
      split: prod.splits)

lemma timestamp_now_context: "timestamp_now p = (t, p') \<Longrightarrow> pr_context p' = pr_context p"
  by (auto simp: timestamp_now_def clock_now_def)

text \<open>An id that is made is above all that were made before.\<close>

definition ids_above :: "('c \<Rightarrow> uuid option) \<Rightarrow> uuid \<Rightarrow> (message_id \<times> envelope option) list \<Rightarrow> 'c \<Rightarrow> bool" where
  "ids_above previous limit made c \<longleftrightarrow> sorted_wrt (<) (map (as_uuid \<circ> fst) made)
    \<and> (\<forall>u. previous c = Some u \<and> u < limit \<longrightarrow> (\<forall>(i, e) \<in> set made. u < as_uuid i))"

lemma ids_above_Cons:
  assumes "v7_ok V previous limit" and "message_id_new V p = (i, p1)" and "as_uuid i < limit"
    and "ids_above previous limit made (pr_context p1)"
  shows "ids_above previous limit ((i, e) # made) (pr_context p)"
proof -
  note new = message_id_new_above [OF assms(1,2)]
  have "\<forall>(j, e) \<in> set made. as_uuid i < as_uuid j"
    using assms(3,4) new(1) by (simp add: ids_above_def)
  then show ?thesis
    using assms(4) new(2) by (fastforce simp: ids_above_def intro: less_trans)
qed

lemma run_process_above:
  assumes "v7_ok V previous limit" and "run_process V todo p = (made, p')"
    and "\<forall>(i, e) \<in> set made. as_uuid i < limit"
  shows "ids_above previous limit made (pr_context p)"
  using assms
proof (induction V todo p arbitrary: made rule: run_process.induct)
  case (1 V p)
  then show ?case by (simp add: ids_above_def)
next
  case (2 V rest p)
  obtain i p1 made1 where i: "message_id_new V p = (i, p1)"
      and r: "run_process V rest p1 = (made1, p')" "made = (i, None) # made1"
    using "2.prems"(2) by (auto split: prod.splits)
  have "ids_above previous limit made1 (pr_context p1)"
    using "2.IH" [OF i [symmetric] "2.prems"(1) r(1)] "2.prems"(3) r(2) by simp
  then show ?case
    using ids_above_Cons [OF "2.prems"(1) i] "2.prems"(3) r(2) by simp
next
  case (3 V source M message rest p)
  obtain q p2 where q: "encode_now V source M message p = (q, p2)" by fastforce
  show ?case
  proof (cases "\<exists>e. q = Some (Inr e)")
    case True
    then obtain e i t p1 where e: "q = Some (Inr e)" and i: "message_id_new V p = (i, p1)"
        and t: "timestamp_now p1 = (t, p2)" and enc: "encode (i, t) source M message = Some (Inr e)"
      using q by (auto simp: encode_now_Inr)
    have id: "env_id e = i" using enc by (auto simp: encode_Inr envelope_new_def)
    obtain made1 where r: "run_process V rest p2 = (made1, p')" "made = (i, Some e) # made1"
      using "3.prems"(2) q e id by (auto split: prod.splits)
    have "ids_above previous limit made1 (pr_context p2)"
      using "3.IH"(3) [OF q [symmetric] e refl "3.prems"(1) r(1)] "3.prems"(3) r(2) by simp
    then show ?thesis
      using ids_above_Cons [OF "3.prems"(1) i] "3.prems"(3) r(2) timestamp_now_context [OF t] by simp
  next
    case False
    then have p2: "p2 = p" using encode_now_result(2) [of V source M message p] q by simp
    have "run_process V rest p = (made, p')"
      using "3.prems"(2) q p2 False by (auto split: option.splits sum.splits)
    then show ?thesis using "3.IH" q p2 False "3.prems"(1,3) by (cases q; cases "the q") auto
  qed
qed

lemma run_process_ids:
  "run_process V todo p = (made, p') \<Longrightarrow> (i, Some e) \<in> set made \<Longrightarrow> env_id e = i"
  by (induction V todo p arbitrary: made rule: run_process.induct)
    (auto split: prod.splits option.splits sum.splits)

lemma envelopes_made_simps:
  "envelopes_made [] = []"
  "envelopes_made ((i, None) # made) = envelopes_made made"
  "envelopes_made ((i, Some e) # made) = e # envelopes_made made"
  by (simp_all add: envelopes_made_def List.map_filter_simps)

lemma envelopes_made_set: "e \<in> set (envelopes_made made) \<longleftrightarrow> (\<exists>i. (i, Some e) \<in> set made)"
proof (induction made)
  case (Cons a made)
  then show ?case by (cases a; cases "snd a") (auto simp: envelopes_made_simps)
qed (simp add: envelopes_made_simps)

lemma envelopes_made_sorted:
  assumes "sorted_wrt (<) (map (as_uuid \<circ> fst) made)" and "\<forall>i e. (i, Some e) \<in> set made \<longrightarrow> env_id e = i"
  shows "sorted_wrt (<) (map (as_uuid \<circ> env_id) (envelopes_made made))"
  using assms
proof (induction made)
  case (Cons a made)
  obtain i o1 where a: "a = (i, o1)" by (cases a)
  have ih: "sorted_wrt (<) (map (as_uuid \<circ> env_id) (envelopes_made made))"
    by (rule Cons.IH) (use Cons.prems in simp_all)
  have later: "as_uuid i < as_uuid (env_id e)" if e: "e \<in> set (envelopes_made made)" for e
  proof -
    obtain j where j: "(j, Some e) \<in> set made" using e by (auto simp: envelopes_made_set)
    then have "env_id e = j" using Cons.prems(2) by simp
    then show ?thesis using Cons.prems(1) j by (force simp: a)
  qed
  show ?case
  proof (cases o1)
    case (Some e)
    then have "env_id e = i" using Cons.prems(2) a by simp
    then show ?thesis using ih later by (simp add: a Some envelopes_made_simps o_def)
  qed (use ih in \<open>simp add: a envelopes_made_simps o_def\<close>)
qed (simp add: envelopes_made_simps)

end
