(* ===== verification/Publish_Order.thy ===== *)
theory Publish_Order
  imports Clock Progress
begin

text \<open>
  The order of a process's messages through the outbox: the ids of \<open>core/src/clock.rs\<close> rise, the
  claim of \<open>postgres/src/outbox.rs\<close> is sorted by id, and a round of \<open>runtime/src/dispatch.rs\<close> publishes
  in the order of its claim.
\<close>

lemma claimed_ids:
  assumes "pg_api_ok P" and "map (row_envelope P) claimed = map Inr qs"
  shows "map (as_uuid \<circ> env_id) qs = map or_id claimed"
proof (rule nth_equalityI)
  show l: "length (map (as_uuid \<circ> env_id) qs) = length (map or_id claimed)"
    using map_eq_imp_length_eq [OF assms(2)] by simp
  fix k assume "k < length (map (as_uuid \<circ> env_id) qs)"
  then have k: "k < length qs" "k < length claimed" using l by auto
  have "row_envelope P (claimed ! k) = Inr (qs ! k)"
    using arg_cong [OF assms(2), of "\<lambda>l. l ! k"] k by simp
  then show "map (as_uuid \<circ> env_id) qs ! k = map or_id claimed ! k"
    using row_envelope_id [OF assms(1)] k by simp
qed

lemma claim_keeps_order:
  assumes api: "pg_api_ok P" and claimed: "claimed = claimable now locked limit rows"
    and qs: "map (row_envelope P) claimed = map Inr qs"
    and less: "as_uuid (env_id a) < as_uuid (env_id b)"
  shows "k < length qs \<Longrightarrow> l < length qs \<Longrightarrow> qs ! k = a \<Longrightarrow> qs ! l = b \<Longrightarrow> k < l"
    and "b \<in> set qs \<Longrightarrow> row \<in> set rows \<Longrightarrow> row_envelope P row = Inr a \<Longrightarrow> due now row
      \<Longrightarrow> row_key row \<notin> set locked \<Longrightarrow> a \<in> set qs"
proof -
  have sorted: "sorted (map (as_uuid \<circ> env_id) qs)"
    unfolding claimed_ids [OF api qs] claimed by (rule claimable_sorted)
  show "k < l" if "k < length qs" "l < length qs" "qs ! k = a" "qs ! l = b"
  proof (rule ccontr)
    assume "\<not> k < l"
    then have "(map (as_uuid \<circ> env_id) qs) ! l \<le> (map (as_uuid \<circ> env_id) qs) ! k"
      using sorted that by (intro sorted_nth_mono) auto
    then show False using that less by simp
  qed
  show "a \<in> set qs" if b: "b \<in> set qs" and row: "row \<in> set rows" "row_envelope P row = Inr a"
      "due now row" "row_key row \<notin> set locked"
  proof -
    have "row \<in> set claimed"
    proof (rule ccontr)
      assume no: "row \<notin> set claimed"
      have "as_uuid (env_id b) \<in> set (map (as_uuid \<circ> env_id) qs)" using b by simp
      then obtain q where q: "q \<in> set claimed" "or_id q = as_uuid (env_id b)"
        unfolding claimed_ids [OF api qs] by auto
      have "or_id q \<le> or_id row"
        using claimable_oldest(1) [OF row(1,3,4)] no q(1) claimed by blast
      then show False using q(2) less row_envelope_id [OF api row(2)] by simp
    qed
    then have "Inr a \<in> set (map Inr qs :: (string, envelope) result list)"
      unfolding qs [symmetric] using row(2) by force
    then show ?thesis by auto
  qed
qed

section \<open>Properties\<close>

text \<open>
  C9: messages that one process publishes one after the other, with whatever clock, leave the outbox
  in that order: a round that meets no fault never publishes a later one before an earlier one, and
  publishes none while an earlier one that is due, and that no other session holds, stays behind.
\<close>

theorem outbox_keeps_publish_order:
  assumes "v7_ok V previous limit" and "run_process V todo p = (made, p')"
    and "\<forall>(i, e) \<in> set made. as_uuid i < limit"
    and "i < j" and "j < length (envelopes_made made)"
    and "pg_api_ok P" and "world_ok P w" and "quiet w" and "\<not> im_failing (w_broker w)"
    and "0 < ds_lease settings" and "pg_interval P (ds_lease settings) = Some t"
    and "pg_time_range (w_now w + t)"
    and "map (row_envelope P) (claimable (w_now w) (w_locked w) (ds_batch_size settings) (w_rows w)) = map Inr qs"
    and "dispatch_round (pg_outbox P) (broker_transport P) settings (world_env P) w = (full, w')"
  shows "im_published (w_broker w') = im_published (w_broker w) @ qs
    \<and> (\<forall>k l. k < length qs \<and> l < length qs \<and> qs ! k = envelopes_made made ! i
        \<and> qs ! l = envelopes_made made ! j \<longrightarrow> k < l)
    \<and> (envelopes_made made ! j \<in> set qs \<longrightarrow>
        (\<forall>row \<in> set (w_rows w). row_envelope P row = Inr (envelopes_made made ! i) \<and> due (w_now w) row
          \<and> row_key row \<notin> set (w_locked w) \<longrightarrow> envelopes_made made ! i \<in> set qs))"
proof -
  have "sorted_wrt (<) (map (as_uuid \<circ> env_id) (envelopes_made made))"
    using run_process_above [OF assms(1-3)] run_process_ids [OF assms(2)]
    by (intro envelopes_made_sorted) (auto simp: ids_above_def)
  then have less: "as_uuid (env_id (envelopes_made made ! i)) < as_uuid (env_id (envelopes_made made ! j))"
    using assms(4,5) by (auto simp: sorted_wrt_map sorted_wrt_iff_nth_less)
  have "im_published (w_broker w') = im_published (w_broker w) @ qs"
    using round_quiet [OF assms(6-12) refl assms(13)] assms(14) publish_all_published [OF assms(9), of qs]
    by auto
  then show ?thesis using claim_keeps_order [OF assms(6) refl assms(13) less] by blast
qed

text \<open>
  A context that takes the millisecond as the id, or the last id plus one when the clock did not move
  on, and a process whose clock goes back: its second message has the earlier time.
\<close>

definition millisecond_ids :: "uuid option uuid_v7" where
  "millisecond_ids =
     \<lparr>v7_from_unix = (\<lambda>last secs nanos.
        let time = word_of_nat (secs * 1000 + nanos div 1000000);
            id = (case last of None \<Rightarrow> time | Some u \<Rightarrow> if u < time then time else u + 1)
        in (id, Some id))\<rparr>"

lemma millisecond_ids_ok: "v7_ok millisecond_ids (\<lambda>c. c) (- 1)"
proof -
  have "u < u + 1" if "u < - 1" for u :: uuid
  proof -
    have "u + 1 \<noteq> 0" using that by (metis add_eq_0_iff2 less_irrefl)
    then show ?thesis by (simp add: word_less_nat_alt unatSuc add.commute)
  qed
  then show ?thesis by (auto simp: v7_ok_def millisecond_ids_def Let_def split: option.splits)
qed

definition two_orders :: "string making list" where
  "two_orders = [ForMessage (Source ''shop'') text_message ''first'', ForReceipt,
     ForMessage (Source ''shop'') text_message ''second'']"

definition backward_clock :: "uuid option process" where
  "backward_clock = \<lparr>pr_clock = 2000000000 ## 2000000000 ## sconst 1000000000, pr_context = None\<rparr>"

definition order_envelope :: "uuid \<Rightarrow> int \<Rightarrow> string \<Rightarrow> envelope" where
  "order_envelope i secs message = envelope_new (MessageId i) (Timestamp secs 0)
     (MessageType ''order.paid.v1'') (Source ''shop'') (ContentType json_content_type) message"

lemma text_message_encode_now:
  "encode_now V source text_message m p =
    (case envelope_now V (MessageType ''order.paid.v1'') source (ContentType json_content_type) m p of
       (e, p) \<Rightarrow> (Some (Inr e), p))"
proof -
  have "message_type_new (msg_type text_message) = Inr (MessageType ''order.paid.v1'')"
    "json_encode text_message m = Inr m"
    using text_message_encode [of "(i, t)" source m for i t] by (auto simp: encode_Inr envelope_new_def)
  then show ?thesis using json_content_type_valid by (simp add: encode_now_def)
qed

lemma two_orders_made:
  "\<exists>p. run_process millisecond_ids two_orders backward_clock =
    ([(MessageId 2000, Some (order_envelope 2000 2 ''first'')), (MessageId 2001, None),
      (MessageId 2002, Some (order_envelope 2002 1 ''second''))], p)"
  by (simp add: two_orders_def backward_clock_def text_message_encode_now envelope_now_def
      message_id_new_def new_v7_def clock_now_def timestamp_now_def duration_since_epoch_def
      millisecond_ids_def order_envelope_def from_unix_nanos_def Let_def clamp_def second_consts
      envelope_new_def)

text \<open>The table holds the rows of both messages, the second one first.\<close>

definition two_rows :: "outbox_row list" where
  "two_rows = map (outbox_row_of decimal_uuid 1000)
     [order_envelope 2002 1 ''second'', order_envelope 2000 2 ''first'']"

definition two_orders_world :: dworld where
  "two_orders_world = outbox_world\<lparr>w_rows := two_rows\<rparr>"

lemma order_envelope_ok: "secs \<in> {1, 2} \<Longrightarrow> envelope_ok (order_envelope i secs message)"
  using encode_ok [OF text_message_encode [of "(MessageId i, Timestamp secs 0)"] _ sample_source]
  by (auto simp: order_envelope_def timestamp_ok_def second_consts)

lemma two_rows_read:
  "map (row_envelope plain_api) (rev two_rows)
    = map Inr [order_envelope 2000 2 ''first'', order_envelope 2002 1 ''second'']"
proof -
  have range: "pg_time_range 1000" by (simp add: pg_time_range_def second_consts)
  have "row_envelope plain_api (outbox_row_of decimal_uuid 1000 e) = Inr e" if "envelope_ok e" for e
    using read_row_of [OF plain_api_ok that range]
    by (auto simp: read_record_Inr row_envelope_def outbox_record_new_def plain_api_def)
  then show ?thesis by (simp add: two_rows_def order_envelope_ok)
qed

lemma two_orders_claim:
  "claimable (w_now two_orders_world) (w_locked two_orders_world) (ds_batch_size dispatch_default)
      (w_rows two_orders_world) = rev two_rows"
  by (simp add: claimable_def two_orders_world_def outbox_world_def two_rows_def due_def
      outbox_row_of_def order_envelope_def envelope_new_def dispatch_default_def I64_MAX_def)

theorem outbox_keeps_publish_order_witness:
  "\<exists>made p. run_process millisecond_ids two_orders backward_clock = (made, p)
    \<and> im_published (w_broker (snd (dispatch_round (pg_outbox plain_api) (broker_transport plain_api)
        dispatch_default (world_env plain_api) two_orders_world))) = envelopes_made made"
proof -
  obtain p where m: "run_process millisecond_ids two_orders backward_clock =
    ([(MessageId 2000, Some (order_envelope 2000 2 ''first'')), (MessageId 2001, None),
      (MessageId 2002, Some (order_envelope 2002 1 ''second''))], p)" (is "_ = (?made, p)")
    using two_orders_made by blast
  obtain full w' where r: "dispatch_round (pg_outbox plain_api) (broker_transport plain_api)
      dispatch_default (world_env plain_api) two_orders_world = (full, w')" by fastforce
  have es: "envelopes_made ?made = [order_envelope 2000 2 ''first'', order_envelope 2002 1 ''second'']"
    by (simp add: envelopes_made_simps)
  have limit: "\<forall>(i, e) \<in> set ?made. as_uuid i < - 1" by simp
  have w: "world_ok plain_api two_orders_world" "quiet two_orders_world"
      "\<not> im_failing (w_broker two_orders_world)" "w_now two_orders_world = w_now outbox_world"
      "im_published (w_broker two_orders_world) = []"
    by (simp_all add: world_ok_def two_orders_world_def outbox_world_def quiet_def table_ok_def
        pg_time_range_def second_consts two_rows_def outbox_row_of_def order_envelope_def
        envelope_new_def im_new_def row_key_def)
  have ij: "(0::nat) < 1" "1 < length (envelopes_made ?made)" by (simp_all add: es)
  have range: "pg_time_range (w_now two_orders_world + 30000000)" using dispatch_lease(3) w(4) by simp
  have claim: "map (row_envelope plain_api) (claimable (w_now two_orders_world) (w_locked two_orders_world)
      (ds_batch_size dispatch_default) (w_rows two_orders_world)) = map Inr (envelopes_made ?made)"
    unfolding two_orders_claim es by (rule two_rows_read)
  have "im_published (w_broker w') = envelopes_made ?made"
    using outbox_keeps_publish_order [OF millisecond_ids_ok m limit ij plain_api_ok w(1-3) dispatch_lease(1,2)
        range claim r] es w(5) by simp
  then show ?thesis using m r by auto
qed

end
