(* ===== verification/Debug_Text.thy ===== *)
theory Debug_Text
  imports Bus Nats Pg_Inbox Pg_Partitions
begin

text \<open>
  The texts that logs show of the library's values: the \<open>Debug\<close> impls that the crates write by hand
  and those they derive for the values inside, in the form \<open>{:?}\<close>. How the standard library escapes a
  \<open>str\<close> and writes a \<open>Duration\<close> are fields of \<open>debug_api\<close>. A message's data may be private: what is
  shown of it, here and in the error of a message that can't be decoded, is the subject of the
  property.
\<close>

section \<open>The standard library's builders\<close>

record debug_api =
  debug_str :: "string \<Rightarrow> string"
  debug_duration :: "duration \<Rightarrow> string"

definition comma_separated :: "string list \<Rightarrow> string" where
  "comma_separated items = (case items of [] \<Rightarrow> [] | i # is \<Rightarrow> i @ concat (map (\<lambda>x. '', '' @ x) is))"

text \<open>\<open>finish\<close> and \<open>finish_non_exhaustive\<close> of \<open>DebugStruct\<close>.\<close>

definition debug_fields :: "(string \<times> string) list \<Rightarrow> string list" where
  "debug_fields = map (\<lambda>(name, value). name @ '': '' @ value)"

definition debug_struct :: "string \<Rightarrow> (string \<times> string) list \<Rightarrow> string" where
  "debug_struct name fs =
     (if fs = [] then name else name @ '' { '' @ comma_separated (debug_fields fs) @ '' }'')"

definition debug_struct_open :: "string \<Rightarrow> (string \<times> string) list \<Rightarrow> string" where
  "debug_struct_open name fs = name @ '' { '' @ comma_separated (debug_fields fs @ [''..'']) @ '' }''"

definition debug_tuple :: "string \<Rightarrow> string \<Rightarrow> string" where
  "debug_tuple name value = name @ ''('' @ value @ '')''"

definition debug_option :: "('a \<Rightarrow> string) \<Rightarrow> 'a option \<Rightarrow> string" where
  "debug_option f x = (case x of None \<Rightarrow> ''None'' | Some v \<Rightarrow> debug_tuple ''Some'' (f v))"

definition debug_list :: "('a \<Rightarrow> string) \<Rightarrow> 'a list \<Rightarrow> string" where
  "debug_list f xs = ''['' @ comma_separated (map f xs) @ '']''"

definition debug_map :: "('k \<Rightarrow> string) \<Rightarrow> ('v \<Rightarrow> string) \<Rightarrow> ('k \<times> 'v) list \<Rightarrow> string" where
  "debug_map f g m = ''{'' @ comma_separated (map (\<lambda>(k, v). f k @ '': '' @ g v) m) @ ''}''"

definition debug_bool :: "bool \<Rightarrow> string" where
  "debug_bool b = (if b then ''true'' else ''false'')"

section \<open>The values of an envelope\<close>

definition date_debug :: "date \<Rightarrow> string" where
  "date_debug d = ''Date('' @ date_text d @ '')''"

definition timestamp_debug :: "timestamp \<Rightarrow> string" where
  "timestamp_debug t = ''Timestamp('' @ timestamp_text t @ '')''"

definition message_id_debug :: "uuid_api \<Rightarrow> message_id \<Rightarrow> string" where
  "message_id_debug U i = ''MessageId('' @ message_id_text U i @ '')''"

definition message_type_debug :: "debug_api \<Rightarrow> message_type \<Rightarrow> string" where
  "message_type_debug D t = debug_tuple ''MessageType'' (debug_str D (type_str t))"

definition source_debug :: "debug_api \<Rightarrow> source \<Rightarrow> string" where
  "source_debug D s = debug_tuple ''Source'' (debug_str D (source_str s))"

definition content_type_debug :: "debug_api \<Rightarrow> content_type \<Rightarrow> string" where
  "content_type_debug D c = debug_tuple ''ContentType'' (debug_str D (content_type_str c))"

definition correlation_debug :: "uuid_api \<Rightarrow> correlation \<Rightarrow> string" where
  "correlation_debug U c =
     debug_struct ''Correlation''
       [(''correlation_id'', debug_option (message_id_debug U) (correlation_id c)),
        (''causation_id'', debug_option (message_id_debug U) (causation_id c))]"

definition trace_context_debug :: "debug_api \<Rightarrow> trace_context \<Rightarrow> string" where
  "trace_context_debug D t =
     debug_struct ''TraceContext''
       [(''traceparent'', debug_str D (traceparent t)),
        (''tracestate'', debug_option (debug_str D) (tracestate t))]"

definition extensions_debug :: "debug_api \<Rightarrow> extensions \<Rightarrow> string" where
  "extensions_debug D x =
     debug_tuple ''Extensions'' (debug_map (debug_str D) (debug_str D) (ext_map x))"

definition envelope_debug :: "debug_api \<Rightarrow> uuid_api \<Rightarrow> envelope \<Rightarrow> string" where
  "envelope_debug D U e =
     debug_struct ''Envelope''
       [(''id'', message_id_debug U (env_id e)),
        (''message_type'', message_type_debug D (env_type e)),
        (''source'', source_debug D (env_source e)),
        (''time'', timestamp_debug (env_time e)),
        (''subject'', debug_option (debug_str D) (env_subject e)),
        (''content_type'', content_type_debug D (env_content_type e)),
        (''data_schema'', debug_option (debug_str D) (env_data_schema e)),
        (''partition_key'', debug_option (debug_str D) (env_partition_key e)),
        (''correlation'', correlation_debug U (env_correlation e)),
        (''trace'', debug_option (trace_context_debug D) (env_trace e)),
        (''extensions'', extensions_debug D (env_extensions e)),
        (''data'', dec (length (env_data e)) @ '' bytes'')]"

section \<open>The runtime's values\<close>

definition outbox_record_debug :: "debug_api \<Rightarrow> uuid_api \<Rightarrow> outbox_record \<Rightarrow> string" where
  "outbox_record_debug D U r =
     debug_struct ''OutboxRecord''
       [(''envelope'', envelope_debug D U (rec_envelope r)),
        (''created_at'', timestamp_debug (rec_created_at r)),
        (''attempts'', dec (rec_attempts r)),
        (''leased_until'', timestamp_debug (rec_leased_until r))]"

definition handler_context_debug :: "debug_api \<Rightarrow> uuid_api \<Rightarrow> 't handler_context \<Rightarrow> string" where
  "handler_context_debug D U c =
     debug_struct_open ''HandlerContext''
       [(''endpoint'', debug_str D (ctx_endpoint c)),
        (''id'', message_id_debug U (env_id (ctx_envelope c))),
        (''message_type'', message_type_debug D (env_type (ctx_envelope c))),
        (''attempt'', dec (ctx_attempt c)),
        (''held'', dec (length (ctx_held c)))]"

definition outbox_publisher_debug :: "debug_api \<Rightarrow> source \<Rightarrow> string" where
  "outbox_publisher_debug D source =
     debug_struct_open ''OutboxPublisher'' [(''source'', source_debug D source)]"

definition retry_policy_debug :: "debug_api \<Rightarrow> retry_policy \<Rightarrow> string" where
  "retry_policy_debug D p =
     debug_struct ''RetryPolicy''
       [(''attempts'', dec (attempts p)),
        (''first_delay'', debug_duration D (first_delay p)),
        (''max_delay'', debug_duration D (max_delay p))]"

definition endpoint_builder_debug :: "debug_api \<Rightarrow> ('s, 't, 'o) endpoint_builder \<Rightarrow> string" where
  "endpoint_builder_debug D b =
     debug_struct ''EndpointBuilder''
       [(''name'', debug_str D (eb_name b)),
        (''retry'', retry_policy_debug D (eb_retry b)),
        (''inbox'', debug_bool (ei_transactional (eb_inbox b))),
        (''handlers'', dec (length (eb_handlers b)))]"

definition in_memory_delivery_debug :: "debug_api \<Rightarrow> uuid_api \<Rightarrow> im_state delivery \<Rightarrow> string" where
  "in_memory_delivery_debug D U d =
     debug_struct_open ''InMemoryDelivery''
       [(''id'', message_id_debug U (env_id (dl_envelope d))),
        (''message_type'', message_type_debug D (env_type (dl_envelope d))),
        (''attempt'', dec (dl_attempt d))]"

definition in_memory_transport_debug :: "debug_api \<Rightarrow> im_state \<Rightarrow> string" where
  "in_memory_transport_debug D s =
     (let endpoints = sort (map fst (im_endpoints s))
      in debug_struct ''InMemoryTransport''
           [(''endpoints'', debug_list (debug_str D) endpoints),
            (''published'', dec (length (im_published s)))])"

definition bus_debug :: "debug_api \<Rightarrow> ('s, 'q, 'o) bus \<Rightarrow> string" where
  "bus_debug D b =
     debug_struct_open ''Bus''
       [(''source'', source_debug D (bus_source b)),
        (''endpoints'', debug_list (debug_str D) (bus_endpoints b))]"

definition bus_builder_debug :: "debug_api \<Rightarrow> ('s, 'q, 'o) bus_builder \<Rightarrow> string" where
  "bus_builder_debug D b =
     (let endpoints = map fst (bb_endpoints b)
      in debug_struct_open ''BusBuilder''
           [(''source'', debug_str D (bb_source b)),
            (''endpoints'', debug_list (debug_str D) endpoints),
            (''partition_workers'', dec (length (bb_maintenance b)))])"

definition partition_lock_debug :: string where
  "partition_lock_debug = debug_struct_open ''PartitionLock'' []"

section \<open>The stores' and the broker's values\<close>

definition postgres_outbox_debug :: "debug_api \<Rightarrow> string" where
  "postgres_outbox_debug D =
     debug_struct_open ''PostgresOutbox'' [(''table'', debug_str D ''outbox_messages'')]"

definition postgres_inbox_debug :: "debug_api \<Rightarrow> bool \<Rightarrow> string" where
  "postgres_inbox_debug D keep_data =
     debug_struct_open ''PostgresInbox''
       [(''table'', debug_str D ''inbox_receipts''), (''keep_data'', debug_bool keep_data)]"

definition postgres_partitions_debug :: "debug_api \<Rightarrow> table \<Rightarrow> string" where
  "postgres_partitions_debug D table =
     debug_struct_open ''PostgresPartitions'' [(''table'', debug_str D (table_name table))]"

definition nats_delivery_debug :: "debug_api \<Rightarrow> uuid_api \<Rightarrow> 's delivery \<Rightarrow> string" where
  "nats_delivery_debug D U d =
     debug_struct_open ''NatsDelivery''
       [(''envelope'', envelope_debug D U (dl_envelope d)), (''attempt'', dec (dl_attempt d))]"

section \<open>What is shown of a message's data\<close>

text \<open>Two envelopes that a reader of the logs should not tell apart but by the length of their data.\<close>

definition same_but_data :: "envelope \<Rightarrow> envelope \<Rightarrow> bool" where
  "same_but_data a b \<longleftrightarrow> a\<lparr>env_data := []\<rparr> = b\<lparr>env_data := []\<rparr>"

lemma same_but_dataD:
  assumes "same_but_data a b"
  obtains d where "b = a\<lparr>env_data := d\<rparr>"
proof
  show "b = a\<lparr>env_data := env_data b\<rparr>"
    using assms by (cases a; cases b) (simp add: same_but_data_def)
qed

lemma debug_fields_append: "debug_fields (xs @ ys) = debug_fields xs @ debug_fields ys"
  by (simp add: debug_fields_def)

lemma comma_separated_snoc:
  "xs \<noteq> [] \<Longrightarrow> comma_separated (xs @ [x]) = comma_separated xs @ '', '' @ x"
  by (cases xs) (simp_all add: comma_separated_def)

lemma envelope_debug_iff:
  assumes "same_but_data a b"
  shows "envelope_debug D U a = envelope_debug D U b \<longleftrightarrow> length (env_data a) = length (env_data b)"
proof -
  obtain d where b: "b = a\<lparr>env_data := d\<rparr>" using assms by (rule same_but_dataD)
  show ?thesis
    by (auto simp: b envelope_debug_def debug_struct_def debug_fields_def comma_separated_def
        dest: dec_inject)
qed

text \<open>The error of a message that can't be decoded, as a function of where it is wrong.\<close>

lemma undecodable_error:
  assumes "from_slice M (env_data (ctx_envelope c)) = Inl e"
  shows "decode_and_handle M handler c s =
    (Returned (Inl (Undecodable
      (if can_decode json_content_type (env_content_type (ctx_envelope c))
       then handler_error_from_codec (Decode (msg_type M) json_content_type (json_error_reason e))
       else handler_error_new codec_error_type_name
         (''no codec reads '' @ content_type_str (env_content_type (ctx_envelope c)))))), c, s)"
  using assms by (simp add: decode_and_handle_def json_decode_def Let_def)

text \<open>
  C30: what the library shows of a message tells its data only by its length: no \<open>Debug\<close> text of an
  envelope, of a claimed record, a delivery or a context that holds it, or of a transport that has
  published it tells two data of one length apart; and when neither can be decoded and they are
  wrong at the same place, the handler's result, and the attributes of the copy sent to the error
  destination, are the same, whatever \<open>serde_json\<close>'s own errors quote.
\<close>

theorem data_stays_private:
  assumes "same_but_data a b" and "length (env_data a) = length (env_data b)"
    and "ctx_envelope c = a" and "length held = length (ctx_held c)"
    and "from_slice M (env_data a) = Inl e" and "from_slice M (env_data b) = Inl (e\<lparr>json_quote := q\<rparr>)"
    and "error_envelope a n x k = Inr ea" and "error_envelope b n x k = Inr eb"
  shows "envelope_debug D U a = envelope_debug D U b
    \<and> outbox_record_debug D U (outbox_record_new a t n' l) = outbox_record_debug D U (outbox_record_new b t n' l)
    \<and> nats_delivery_debug D U (nats_delivery J m a k) = nats_delivery_debug D U (nats_delivery J m' b k)
    \<and> in_memory_delivery_debug D U (im_delivery n a k) = in_memory_delivery_debug D U (im_delivery n b k)
    \<and> in_memory_transport_debug D (im\<lparr>im_published := a # p\<rparr>) = in_memory_transport_debug D (im\<lparr>im_published := b # p\<rparr>)
    \<and> handler_context_debug D U c = handler_context_debug D U (c\<lparr>ctx_envelope := b, ctx_held := held\<rparr>)
    \<and> fst (decode_and_handle M handler c s) = fst (decode_and_handle M handler (c\<lparr>ctx_envelope := b\<rparr>) s)
    \<and> to_attributes U ea = to_attributes U eb"
proof -
  obtain d where b: "b = a\<lparr>env_data := d\<rparr>" using assms(1) by (rule same_but_dataD)
  have debug: "envelope_debug D U a = envelope_debug D U b"
    using envelope_debug_iff [OF assms(1)] assms(2) by simp
  moreover have "outbox_record_debug D U (outbox_record_new a t n' l)
      = outbox_record_debug D U (outbox_record_new b t n' l)"
    "nats_delivery_debug D U (nats_delivery J m a k) = nats_delivery_debug D U (nats_delivery J m' b k)"
    using debug by (simp_all add: outbox_record_debug_def outbox_record_new_def nats_delivery_debug_def
        nats_delivery_def)
  moreover have "in_memory_delivery_debug D U (im_delivery n a k) = in_memory_delivery_debug D U (im_delivery n b k)"
    "in_memory_transport_debug D (im\<lparr>im_published := a # p\<rparr>) = in_memory_transport_debug D (im\<lparr>im_published := b # p\<rparr>)"
    "handler_context_debug D U c = handler_context_debug D U (c\<lparr>ctx_envelope := b, ctx_held := held\<rparr>)"
    using assms(3,4) by (simp_all add: b in_memory_delivery_debug_def im_delivery_def
        in_memory_transport_debug_def handler_context_debug_def)
  moreover have "fst (decode_and_handle M handler c s)
      = fst (decode_and_handle M handler (c\<lparr>ctx_envelope := b\<rparr>) s)"
    using undecodable_error [of M c e handler s]
      undecodable_error [of M "c\<lparr>ctx_envelope := b\<rparr>" "e\<lparr>json_quote := q\<rparr>" handler s] assms(3,5,6)
    by (simp add: b json_error_reason_def)
  moreover have "to_attributes U ea = to_attributes U eb"
    using assms(7,8) by (auto simp: b error_envelope_eq to_attributes_def)
  ultimately show ?thesis by blast
qed

text \<open>A message type whose JSON is always wrong, with an error that quotes all of it.\<close>

definition quoting_message :: "string message_impl" where
  "quoting_message =
     \<lparr>msg_type = ''order.placed.v1'', to_vec = Inr,
      from_slice = (\<lambda>d. Inl \<lparr>json_category = JsonData, json_line = 1, json_column = 1, json_quote = d\<rparr>)\<rparr>"

definition plain_debug :: debug_api where
  "plain_debug = \<lparr>debug_str = (\<lambda>s. s), debug_duration = dec\<rparr>"

definition paid_by :: "string \<Rightarrow> envelope" where
  "paid_by who = order_placed\<lparr>env_data := who\<rparr>"

theorem data_stays_private_witness:
  "envelope_debug plain_debug decimal_uuid (paid_by ''alice'') = envelope_debug plain_debug decimal_uuid (paid_by ''carol'')
    \<and> fst (decode_and_handle quoting_message (\<lambda>_ c s. (Returned (Inr ()), c, s))
          (handler_context_new (Source ''shop'') ''billing'' (paid_by ''alice'') 1) ())
      = fst (decode_and_handle quoting_message (\<lambda>_ c s. (Returned (Inr ()), c, s))
          (handler_context_new (Source ''shop'') ''billing'' (paid_by ''carol'') 1) ())"
proof -
  let ?c = "handler_context_new (Source ''shop'') ''billing'' (paid_by ''alice'') 1"
  let ?e = "\<lparr>json_category = JsonData, json_line = 1, json_column = 1, json_quote = ''alice''\<rparr>"
  have same: "same_but_data (paid_by ''alice'') (paid_by ''carol'')"
    "length (env_data (paid_by ''alice'')) = length (env_data (paid_by ''carol''))"
    by (simp_all add: same_but_data_def paid_by_def)
  have c: "ctx_envelope ?c = paid_by ''alice''" "length [] = length (ctx_held ?c)"
      "?c\<lparr>ctx_envelope := paid_by ''carol''\<rparr>
        = handler_context_new (Source ''shop'') ''billing'' (paid_by ''carol'') 1"
    by (simp_all add: handler_context_new_def)
  have f: "from_slice quoting_message (env_data (paid_by ''alice'')) = Inl ?e"
    "from_slice quoting_message (env_data (paid_by ''carol'')) = Inl (?e\<lparr>json_quote := ''carol''\<rparr>)"
    by (simp_all add: quoting_message_def paid_by_def)
  obtain ea eb where x: "error_envelope (paid_by ''alice'') ''billing'' (handler_error_new ''t'' ''m'') 1 = Inr ea"
      "error_envelope (paid_by ''carol'') ''billing'' (handler_error_new ''t'' ''m'') 1 = Inr eb"
    by (simp add: error_envelope_eq)
  show ?thesis
    using data_stays_private [OF same c(1,2) f x, where handler = "\<lambda>_ c s. (Returned (Inr ()), c, s)" and s = "()"
        and D = plain_debug and U = decimal_uuid] unfolding c(3) by blast
qed

end
