(* ===== verification/Inbox_Delivery.thy ===== *)
theory Inbox_Delivery
  imports Pg_Inbox
begin

text \<open>
  What an endpoint settles (\<open>runtime/src/endpoint.rs\<close>) composed with what its pipeline does to the
  database (\<open>runtime/src/inbox.rs\<close> over \<open>postgres/src/inbox.rs\<close>): a delivery with no faults is
  handled, committed and acknowledged, and a handler that panics is a failed attempt, with or
  without an inbox.
\<close>

section \<open>A run without faults\<close>

text \<open>A transaction that \<open>begin\<close> opens while nothing fails, with the database \<open>d\<close> in it.\<close>

definition opened :: "'a pg_database \<Rightarrow> 'a iworld \<Rightarrow> 'a pg_transaction" where
  "opened d s =
     \<lparr>tx_db = d, tx_now = iw_now s, tx_aborted = False, tx_faults = [],
      tx_receipt_id = fst (pop 0 (iw_ids s))\<rparr>"

definition id_taken :: "'a iworld \<Rightarrow> 'a iworld" where
  "id_taken s = s\<lparr>iw_ids := snd (pop 0 (iw_ids s))\<rparr>"

lemma id_taken_simps [simp]:
  "iw_db (id_taken s) = iw_db s" "iw_faults (id_taken s) = iw_faults s" "iw_now (id_taken s) = iw_now s"
  by (simp_all add: id_taken_def)

lemma opened_simps [simp]:
  "tx_db (opened d s) = d" "tx_now (opened d s) = iw_now s" "\<not> tx_aborted (opened d s)"
  "tx_faults (opened d s) = []" "tx_receipt_id (opened d s) = fst (pop 0 (iw_ids s))"
  "(opened d s)\<lparr>tx_db := d'\<rparr> = opened d' s"
  by (simp_all add: opened_def)

text \<open>A transaction in which nothing failed, and nothing will.\<close>

definition sound_tx :: "'a pg_transaction \<Rightarrow> bool" where
  "sound_tx t \<longleftrightarrow> \<not> tx_aborted t \<and> tx_faults t = []"

lemma sound_opened [simp]: "sound_tx (opened d s)"
  by (simp add: sound_tx_def)

lemma statement_sound:
  assumes "sound_tx t"
  shows "tx_statement context f t = (case f t of Inl e \<Rightarrow> (Inl (Database context e), t\<lparr>tx_aborted := True\<rparr>)
    | Inr (x, d) \<Rightarrow> (Inr x, t\<lparr>tx_db := d\<rparr>))"
  using assms
  by (cases t) (auto simp: sound_tx_def tx_statement_def pop_def Let_def split: sum.splits)

lemma begin_quiet:
  assumes "iw_faults s = []" and "iw_tx_faults s = []"
  shows "ib_begin (pg_inbox P keep) s = (Inr (opened (iw_db s) s), id_taken s)"
  using assms by (cases s) (simp add: pg_inbox_def pg_begin_def pop_def Let_def opened_def id_taken_def
      split: list.splits)

lemma commit_quiet:
  assumes "iw_faults s = []" and "sound_tx t"
  shows "commit_with (pg_inbox P keep) t a s = (Inr a, s\<lparr>iw_db := tx_db t\<rparr>)"
  using assms
  by (simp add: statement_sound commit_with_def pg_inbox_def pg_commit_def pop_def Let_def and_then_io_def map_err_io_def
      return_io_def)

lemma record_quiet:
  assumes d: "recorded_db P keep n e s = Some d" and ids: "ids_fresh s"
  shows "ib_record (pg_inbox P keep) n e (opened (iw_db s) s)
    = (if has_receipt P (iw_db s) (receipt_key n e) then (Inr False, opened (iw_db s) s)
       else (Inr True, opened d s))"
proof -
  obtain mt where mt: "pg_timestamptz P (timestamp_text (env_time e)) = Some mt"
    using d by (auto simp: recorded_db_def)
  let ?row = "receipt_row (pg_uuid P) keep n e (fst (pop 0 (iw_ids s))) mt (iw_now s)"
  have step: "pg_record P keep n e (opened (iw_db s) s)
      = (case insert_receipt ?row (iw_db s) of (b, d') \<Rightarrow> (Inr b, opened d' s))"
    using mt by (simp add: pg_record_def statement_sound split: prod.splits)
  have new: "id_fresh (opened (iw_db s) s)" using ids by (simp add: id_fresh_def ids_fresh_def)
  show ?thesis
  proof (cases "list_ex (same_receipt ?row) (db_inbox (iw_db s))")
    case True
    then have r: "pg_record P keep n e (opened (iw_db s) s) = (Inr False, opened (iw_db s) s)"
      using step by (simp add: insert_receipt_def)
    then show ?thesis using record_seen [OF new r] by (simp add: pg_inbox_def)
  next
    case False
    then have r: "pg_record P keep n e (opened (iw_db s) s) = (Inr True, opened d s)"
      using step d mt by (simp add: insert_receipt_def recorded_db_def)
    then show ?thesis using record_fresh [OF r] by (simp add: pg_inbox_def)
  qed
qed

lemma tx_insert_sound:
  "insert_rows (pg_uuid P) (tx_now t) es (db_outbox (tx_db t)) = Inr rows \<Longrightarrow> sound_tx t \<Longrightarrow>
    tx_insert P es t = (Inr (), t\<lparr>tx_db := (tx_db t)\<lparr>db_outbox := rows\<rparr>\<rparr>)"
proof (induction es arbitrary: t)
  case Nil
  then show ?case by (simp add: insert_rows_def)
next
  case (Cons e es)
  obtain rows1 where r: "insert_row (pg_uuid P) (tx_now t) e (db_outbox (tx_db t)) = Inr rows1"
      "insert_rows (pg_uuid P) (tx_now t) es rows1 = Inr rows"
    using Cons.prems(1) by (auto simp: insert_rows_def result_simps)
  let ?t = "t\<lparr>tx_db := (tx_db t)\<lparr>db_outbox := rows1\<rparr>\<rparr>"
  have "tx_insert P es ?t = (Inr (), ?t\<lparr>tx_db := (tx_db ?t)\<lparr>db_outbox := rows\<rparr>\<rparr>)"
    by (rule Cons.IH) (use r(2) Cons.prems(2) in \<open>simp_all add: sound_tx_def\<close>)
  then show ?case
    using r(1) Cons.prems(2) by (simp add: statement_sound and_then_io_def)
qed

lemma store_write_sound:
  assumes "insert_rows (pg_uuid P) (tx_now t) held (db_outbox (tx_db t)) = Inr rows" and "sound_tx t"
  shows "store_write (tx_outbox P) t held = (Inr [], t\<lparr>tx_db := (tx_db t)\<lparr>db_outbox := rows\<rparr>\<rparr>)"
  using tx_insert_sound [OF assms] assms(1)
  by (cases held) (simp_all add: store_write_def tx_outbox_def insert_rows_def)

text \<open>
  The run of a message while nothing fails: a message with a receipt commits nothing; one without
  runs its handler in the transaction with the receipt and commits what it did there.
\<close>

lemma run_quiet:
  assumes quiet: "iw_faults s = []" "iw_tx_faults s = []" and ids: "ids_fresh s"
    and get: "om_get hs (env_type (ctx_envelope c)) = Some h"
    and d: "recorded_db P keep n (ctx_envelope c) s = Some d"
  shows "transactional_run n hs (pg_inbox P keep) w c s =
    (if has_receipt P (iw_db s) (receipt_key n (ctx_envelope c)) then (Inr [], id_taken s)
     else and_then_io (call h (fst (with_transaction c (opened d s)))) (write_and_commit (pg_inbox P keep) w)
            (id_taken s))"
proof -
  have "find_handler hs n (ctx_envelope c) = Inr h" using get by (simp add: find_handler_def ok_or_def)
  moreover have "commit_with (pg_inbox P keep) (opened (iw_db s) s) a (id_taken s) = (Inr a, id_taken s)"
    for a :: "envelope list"
    using commit_quiet [of "id_taken s" "opened (iw_db s) s" P keep a] quiet(1) by (simp add: id_taken_def)
  ultimately show ?thesis
    by (simp add: transactional_run_def and_then_io_def lift_io_def map_err_io_def
        begin_quiet [OF quiet] record_quiet [OF d ids])
qed

lemma write_and_commit_quiet:
  assumes "iw_faults u = []" and "sound_tx (ctx_transaction c)"
    and "insert_rows (pg_uuid P) (tx_now (ctx_transaction c)) (ctx_held c)
      (db_outbox (tx_db (ctx_transaction c))) = Inr rows"
  shows "write_and_commit (pg_inbox P keep) (store_write (tx_outbox P)) c u
    = (Inr [], u\<lparr>iw_db := (tx_db (ctx_transaction c))\<lparr>db_outbox := rows\<rparr>\<rparr>)"
  using assms commit_quiet [of u "(ctx_transaction c)\<lparr>tx_db := (tx_db (ctx_transaction c))\<lparr>db_outbox := rows\<rparr>\<rparr>"]
  by (simp add: write_and_commit_def store_write_sound sound_tx_def)

section \<open>A failed attempt\<close>

text \<open>
  What \<open>process\<close> settles for an attempt that failed with \<open>x\<close>, in the state \<open>v\<close> the attempt left:
  another attempt after the delay of this one, or after the last one the copy with the error on the
  error destination and a reject, or the delay again when the copy cannot be sent.
\<close>

definition failed_attempt ::
    "'s endpoint \<Rightarrow> ('s, 'q) transport \<Rightarrow> 's delivery \<Rightarrow> handler_error \<Rightarrow> 's
      \<Rightarrow> (transport_error, unit) result \<times> 's \<Rightarrow> bool" where
  "failed_attempt ep T d x v out \<longleftrightarrow>
     (if dl_attempt d < attempts (ep_retry ep)
      then out = dl_retry d (delay (ep_retry ep) (dl_attempt d)) v
      else (\<exists>copy. error_envelope (dl_envelope d) (ep_name ep) x (dl_attempt d) = Inr copy
        \<and> ext_get (env_extensions copy) ''errortype'' = Some (error_type x)
        \<and> ext_get (env_extensions copy) ''errormessage'' = Some (error_message x)
        \<and> out = (case tr_publish_error T (ep_name ep) copy v of
                  (Inr _, v') \<Rightarrow> dl_reject d v'
                | (Inl _, v') \<Rightarrow> dl_retry d (delay (ep_retry ep) (dl_attempt d)) v')))"

lemma process_failed:
  assumes "ep_pipeline ep (handler_context_new source (ep_name ep) (dl_envelope d) (dl_attempt d)) s
    = (Inl (HandlerFailure x), v)"
  shows "\<exists>out. process ep T source d s = Some out \<and> failed_attempt ep T d x v out
    \<and> receive ep T source (Delivered d # events) s = receive ep T source events (snd out)"
proof -
  obtain copy where copy: "error_envelope (dl_envelope d) (ep_name ep) x (dl_attempt d) = Inr copy"
    using error_envelope_total [of "dl_envelope d" "ep_name ep" x "dl_attempt d"] by (auto simp: is_ok_iff)
  have h: "handle_delivery ep T source d s = (Inl (HandlerFailure x), v)"
    using assms by (simp add: handle_delivery_def Let_def)
  obtain out where out: "process ep T source d s = Some out" using process_total by fastforce
  have "failed_attempt ep T d x v out"
    using out h copy error_envelope_get(2,3) [OF copy]
    by (auto simp: failed_attempt_def process_def settle_failed_def is_last_def
        split: prod.splits sum.splits if_splits)
  moreover have "receive ep T source (Delivered d # events) s = receive ep T source events (snd out)"
    by (simp add: out split: prod.splits)
  ultimately show ?thesis using out by blast
qed

lemma process_handled:
  assumes "ep_pipeline ep (handler_context_new source (ep_name ep) (dl_envelope d) (dl_attempt d)) s
    = (Inr [], v)"
  shows "process ep T source d s = Some (dl_ack d v)"
  using assms by (simp add: process_def handle_delivery_def Let_def)

section \<open>Properties\<close>

text \<open>The order's message at the endpoint of the examples; a retry moves the clock by its delay.\<close>

definition billing_endpoint_of :: "(nat iworld, nat pg_transaction) handlers \<Rightarrow> nat iworld endpoint" where
  "billing_endpoint_of hs =
     \<lparr>ep_name = ''billing'', ep_retry = retry_default, ep_message_types = map fst hs,
      ep_transactional = True,
      ep_pipeline = transactional_run ''billing'' hs (pg_inbox plain_api False)
        (store_write (tx_outbox plain_api))\<rparr>"

definition billing_delivery :: "nat iworld delivery" where
  "billing_delivery =
     \<lparr>dl_envelope = order_placed, dl_attempt = 1, dl_ack = (\<lambda>s. (Inr (), s)),
      dl_retry = (\<lambda>wait s. (Inr (), s\<lparr>iw_now := iw_now s + int wait\<rparr>)), dl_reject = (\<lambda>s. (Inr (), s))\<rparr>"

definition silent_transport :: "('s, unit) transport" where
  "silent_transport =
     \<lparr>tr_publish = (\<lambda>_ s. (Inr (), s)), tr_subscribe = (\<lambda>_ s. (Inr (), s)),
      tr_publish_error = (\<lambda>_ _ s. (Inr (), s))\<rparr>"

definition recorded_world_db :: "nat pg_database" where
  "recorded_world_db = empty_db\<lparr>db_inbox := [receipt_row (pg_uuid plain_api) False ''billing'' order_placed 5
     (unix_nanos (env_time order_placed) div 1000) 1000]\<rparr>"

lemma billing_delivery_simps [simp]:
  "dl_envelope billing_delivery = order_placed" "dl_attempt billing_delivery = 1"
  "dl_ack billing_delivery s = (Inr (), s)" "ep_name (billing_endpoint_of hs) = ''billing''"
  "ep_retry (billing_endpoint_of hs) = retry_default"
  "ep_pipeline (billing_endpoint_of hs) = transactional_run ''billing'' hs (pg_inbox plain_api False)
        (store_write (tx_outbox plain_api))"
  by (simp_all add: billing_delivery_def billing_endpoint_of_def)

lemma billing_db_recorded: "recorded_db plain_api False ''billing'' order_placed fresh_world = Some recorded_world_db"
  using order_time by (simp add: recorded_db_def recorded_world_db_def fresh_world_def empty_db_def pop_def)

lemma billing_new: "\<not> has_receipt plain_api (iw_db fresh_world) (receipt_key ''billing'' order_placed)"
  by (simp add: has_receipt_def fresh_world_def empty_db_def receipt_key_def)

text \<open>
  C39: a delivery to an endpoint with an inbox comes through when nothing fails. If the message was
  handled before, it is acknowledged and the database stays as it is; else, once its handler returns
  and what it published may be inserted, the handler's work in the transaction with the receipt and
  the rows of what it published are committed, and then the message is acknowledged.
\<close>

theorem fault_free_delivery_acked:
  assumes "ep_pipeline ep = transactional_run (ep_name ep) hs (pg_inbox P keep) (store_write (tx_outbox P))"
    and "om_get hs (env_type (dl_envelope d)) = Some h"
    and "iw_faults s = []" and "iw_tx_faults s = []" and "ids_fresh s"
    and "recorded_db P keep (ep_name ep) (dl_envelope d) s = Some db"
    and "c = handler_context_new source (ep_name ep) (dl_envelope d) (dl_attempt d)"
  shows "(has_receipt P (iw_db s) (receipt_key (ep_name ep) (dl_envelope d)) \<longrightarrow>
      process ep T source d s = Some (dl_ack d (id_taken s)))
    \<and> (\<not> has_receipt P (iw_db s) (receipt_key (ep_name ep) (dl_envelope d)) \<longrightarrow>
      call h (fst (with_transaction c (opened db s))) (id_taken s) = (Inr c2, u) \<longrightarrow>
      iw_faults u = [] \<longrightarrow> sound_tx (ctx_transaction c2) \<longrightarrow>
      insert_rows (pg_uuid P) (tx_now (ctx_transaction c2)) (ctx_held c2)
        (db_outbox (tx_db (ctx_transaction c2))) = Inr rows \<longrightarrow>
      process ep T source d s
        = Some (dl_ack d (u\<lparr>iw_db := (tx_db (ctx_transaction c2))\<lparr>db_outbox := rows\<rparr>\<rparr>)))"
proof -
  have env: "ctx_envelope c = dl_envelope d" by (simp add: assms(7) handler_context_new_def)
  note run = run_quiet [OF assms(3-5), of hs c h P keep "ep_name ep" db, unfolded env, OF assms(2,6)]
  have pipe: "ep_pipeline ep (handler_context_new source (ep_name ep) (dl_envelope d) (dl_attempt d)) s
      = transactional_run (ep_name ep) hs (pg_inbox P keep) (store_write (tx_outbox P)) c s"
    by (simp only: assms(1,7))
  show ?thesis
  proof (intro conjI impI)
    assume "has_receipt P (iw_db s) (receipt_key (ep_name ep) (dl_envelope d))"
    then show "process ep T source d s = Some (dl_ack d (id_taken s))"
      by (intro process_handled) (simp add: pipe run)
  next
    assume h: "\<not> has_receipt P (iw_db s) (receipt_key (ep_name ep) (dl_envelope d))"
      "call h (fst (with_transaction c (opened db s))) (id_taken s) = (Inr c2, u)"
      and fin: "iw_faults u = []" "sound_tx (ctx_transaction c2)"
        "insert_rows (pg_uuid P) (tx_now (ctx_transaction c2)) (ctx_held c2)
          (db_outbox (tx_db (ctx_transaction c2))) = Inr rows"
    show "process ep T source d s
        = Some (dl_ack d (u\<lparr>iw_db := (tx_db (ctx_transaction c2))\<lparr>db_outbox := rows\<rparr>\<rparr>))"
      by (rule process_handled) (simp add: pipe run h and_then_io_def write_and_commit_quiet [OF fin])
  qed
qed

theorem fault_free_delivery_acked_witness:
  "\<exists>s'. process (billing_endpoint_of counting) silent_transport (Source ''shop'') billing_delivery fresh_world
      = Some (Inr (), s') \<and> db_app (iw_db s') = 1 \<and> length (db_outbox (iw_db s')) = 1"
proof -
  let ?c = "handler_context_new (Source ''shop'') ''billing'' order_placed 1"
  let ?t = "opened recorded_world_db fresh_world"
  have quiet: "iw_faults fresh_world = []" "iw_tx_faults fresh_world = []"
    by (simp_all add: fresh_world_def)
  have h: "om_get counting (env_type order_placed) = Some count_handler"
    using counting_get by (simp add: billing_context_def handler_context_new_def)
  define c2 where "c2 = (fst (with_transaction ?c ?t))\<lparr>ctx_held := [order_placed],
    ctx_transaction := opened (recorded_world_db\<lparr>db_app := 1\<rparr>) fresh_world\<rparr>"
  have call: "call count_handler (fst (with_transaction ?c ?t)) (id_taken fresh_world)
      = (Inr c2, id_taken fresh_world)"
    by (simp add: call_def count_handler_def c2_def with_transaction_def handler_context_new_def
        recorded_world_db_def empty_db_def)
  have c2: "ctx_held c2 = [order_placed]"
      "ctx_transaction c2 = opened (recorded_world_db\<lparr>db_app := 1\<rparr>) fresh_world"
    by (simp_all add: c2_def)
  have rows: "insert_rows (pg_uuid plain_api) (tx_now (ctx_transaction c2)) (ctx_held c2)
      (db_outbox (tx_db (ctx_transaction c2)))
      = Inr [outbox_row_of (pg_uuid plain_api) (iw_now fresh_world) order_placed]"
    by (simp add: c2 insert_rows_def insert_row_def recorded_world_db_def empty_db_def)
  show ?thesis
    using fault_free_delivery_acked [of "billing_endpoint_of counting" counting plain_api False billing_delivery
        count_handler fresh_world recorded_world_db ?c "Source ''shop''" silent_transport c2
        "id_taken fresh_world", OF _ _ quiet fresh_ids _ _] h billing_db_recorded billing_new call rows c2(2)
      quiet(1) by simp
qed

text \<open>
  C36: a panic of a handler is a failed attempt of its message, in an endpoint without an inbox and
  in one with: it is settled as any failure of the handler is, with the error type \<open>panic\<close> and the
  panic's message; with an inbox nothing of the attempt is committed, its receipt included; and the
  worker goes on with the next delivery. No delivery or receive error ends a worker by a panic of
  its own.
\<close>

theorem handler_panic_fails_attempt:
  assumes "c = handler_context_new source (ep_name ep) (dl_envelope d) (dl_attempt d)"
    and "c' = handler_context_new source (ep_name ep') (dl_envelope d') (dl_attempt d')"
    and "x = handler_error_new ''panic'' (panic_message p)"
  shows "(ep_pipeline ep = plain_run n hs \<and> om_get hs (env_type (dl_envelope d)) = Some h
        \<and> h c s = (Panicked p, v) \<longrightarrow>
      (\<exists>out. process ep T source d s = Some out \<and> failed_attempt ep T d x v out
        \<and> receive ep T source (Delivered d # events) s = receive ep T source events (snd out)))
    \<and> (ep_pipeline ep' = transactional_run n hs' (pg_inbox P keep) w
        \<and> om_get hs' (env_type (dl_envelope d')) = Some h' \<and> handler_ok iw_db tx_db (has_receipt P) h'
        \<and> pg_begin s' = (Inr t, u) \<and> pg_record P keep n (dl_envelope d') t = (Inr True, t')
        \<and> h' (fst (with_transaction c' t')) u = (Panicked p, v') \<longrightarrow>
      (\<exists>out. process ep' T' source d' s' = Some out \<and> failed_attempt ep' T' d' x v' out
        \<and> iw_db v' = iw_db s'
        \<and> receive ep' T' source (Delivered d' # events') s' = receive ep' T' source events' (snd out)))
    \<and> receive ep T source events s \<noteq> WorkerPanicked"
proof (intro conjI impI)
  have env: "ctx_envelope c = dl_envelope d" by (simp add: assms(1) handler_context_new_def)
  show "receive ep T source events s \<noteq> WorkerPanicked" by (rule receive_never_panics)
  assume a: "ep_pipeline ep = plain_run n hs \<and> om_get hs (env_type (dl_envelope d)) = Some h
    \<and> h c s = (Panicked p, v)"
  then have "plain_run n hs c s = (Inl (HandlerFailure x), v)"
    using call_panic [of h c s p v]
    by (simp add: plain_run_def find_handler_def ok_or_def and_then_io_def lift_io_def env assms(3))
  then show "\<exists>out. process ep T source d s = Some out \<and> failed_attempt ep T d x v out
      \<and> receive ep T source (Delivered d # events) s = receive ep T source events (snd out)"
    using a by (intro process_failed) (simp add: assms(1) [symmetric])
next
  have env: "ctx_envelope c' = dl_envelope d'" by (simp add: assms(2) handler_context_new_def)
  assume a: "ep_pipeline ep' = transactional_run n hs' (pg_inbox P keep) w
    \<and> om_get hs' (env_type (dl_envelope d')) = Some h' \<and> handler_ok iw_db tx_db (has_receipt P) h'
    \<and> pg_begin s' = (Inr t, u) \<and> pg_record P keep n (dl_envelope d') t = (Inr True, t')
    \<and> h' (fst (with_transaction c' t')) u = (Panicked p, v')"
  then have cl: "call h' (fst (with_transaction c' t')) u = (Inl (HandlerFailure x), v')"
    using call_panic [of h' "fst (with_transaction c' t')" u p v'] by (simp add: assms(3))
  then have "iw_db v' = iw_db u" using a unfolding handler_ok_def by blast
  moreover have "iw_db u = iw_db s'"
    using a by (auto simp: pg_begin_def Let_def split: prod.splits if_splits)
  moreover have "transactional_run n hs' (pg_inbox P keep) w c' s' = (Inl (HandlerFailure x), v')"
    using a cl by (simp add: transactional_run_def find_handler_def ok_or_def and_then_io_def
        lift_io_def map_err_io_def env pg_inbox_def)
  then have "\<exists>out. process ep' T' source d' s' = Some out \<and> failed_attempt ep' T' d' x v' out
      \<and> receive ep' T' source (Delivered d' # events') s' = receive ep' T' source events' (snd out)"
    using a by (intro process_failed) (simp add: assms(2) [symmetric])
  ultimately show "\<exists>out. process ep' T' source d' s' = Some out \<and> failed_attempt ep' T' d' x v' out
      \<and> iw_db v' = iw_db s'
      \<and> receive ep' T' source (Delivered d' # events') s' = receive ep' T' source events' (snd out)"
    by metis
qed

theorem handler_panic_fails_attempt_witness:
  "\<exists>s'. process (billing_endpoint_of [(MessageType ''order.placed.v1'', \<lambda>c s. (Panicked PanicOther, s))])
      silent_transport (Source ''shop'') billing_delivery fresh_world = Some (Inr (), s')
    \<and> iw_db s' = iw_db fresh_world \<and> iw_now s' = 1000 + int (delay retry_default 1)"
proof -
  let ?h = "(\<lambda>c s. (Panicked PanicOther, s)) :: (nat iworld, nat pg_transaction) erased_handler"
  let ?hs = "[(MessageType ''order.placed.v1'', ?h)] :: (nat iworld, nat pg_transaction) handlers"
  let ?t = "opened recorded_world_db fresh_world"
  have get: "om_get ?hs (env_type (dl_envelope billing_delivery)) = Some ?h"
    by (simp add: om_get_def order_placed_def)
  have ok: "handler_ok iw_db tx_db (has_receipt plain_api) ?h" by (auto simp: handler_ok_def call_def)
  have b: "pg_begin fresh_world = (Inr (opened (iw_db fresh_world) fresh_world), id_taken fresh_world)"
    using begin_quiet [of fresh_world plain_api False] by (simp add: pg_inbox_def fresh_world_def)
  have r: "pg_record plain_api False ''billing'' (dl_envelope billing_delivery)
      (opened (iw_db fresh_world) fresh_world) = (Inr True, ?t)"
    using record_quiet [OF billing_db_recorded fresh_ids] billing_new by (simp add: pg_inbox_def)
  let ?ep = "billing_endpoint_of ?hs" and ?x = "handler_error_new ''panic'' (panic_message PanicOther)"
  note panic = handler_panic_fails_attempt [where ep' = ?ep and d' = billing_delivery and s' = fresh_world
      and hs' = ?hs and h' = ?h and n = "''billing''" and p = PanicOther and P = plain_api and keep = False
      and w = "store_write (tx_outbox plain_api)" and u = "id_taken fresh_world"
      and t = "opened (iw_db fresh_world) fresh_world" and t' = ?t and v' = "id_taken fresh_world"
      and T' = silent_transport and events' = "[]" and source = "Source ''shop''", OF refl refl refl]
  obtain out where out: "process ?ep silent_transport (Source ''shop'') billing_delivery fresh_world = Some out"
      "failed_attempt ?ep silent_transport billing_delivery ?x (id_taken fresh_world) out"
    using mp [OF conjunct1 [OF conjunct2 [OF panic]]] get ok b r by auto
  then have "out = (Inr (), (id_taken fresh_world)\<lparr>iw_now := 1000 + int (delay retry_default 1)\<rparr>)"
    by (simp add: failed_attempt_def retry_default_def)
      (simp add: billing_delivery_def fresh_world_def id_taken_def retry_default_def)
  then show ?thesis using out(1) by (simp add: id_taken_def)
qed

end
