(* ===== verification/Orders.thy ===== *)
theory Orders
  imports Inbox_Delivery Bus
begin

text \<open>
  The orders service (\<open>examples/orders/src/main.rs\<close>), an application of the whole library: it places
  an order and publishes \<open>OrderPlaced\<close> in one transaction, and its \<open>billing\<close> endpoint writes the
  invoice in the transaction that records the message. The tables are those of its migration:
  \<open>orders\<close> with an identity column, and \<open>invoices\<close>, whose primary key is the order and a foreign key
  to it. The database is the one of \<open>Pg_Inbox\<close>, so the outbox, the inbox and these tables commit
  together. \<open>OrderPlaced\<close>'s JSON is the application's \<open>serde\<close> derive: \<open>order_impl\<close> takes it.
\<close>

record order_placed =
  op_id :: int
  op_customer :: string
  op_total_cents :: int

definition ORDER_PLACED :: string where
  "ORDER_PLACED = ''orders.order_placed.v1''"

definition order_impl ::
    "(order_placed \<Rightarrow> (string, string) result) \<Rightarrow> (string \<Rightarrow> (json_error, order_placed) result)
      \<Rightarrow> order_placed message_impl" where
  "order_impl ser de = \<lparr>msg_type = ORDER_PLACED, to_vec = ser, from_slice = de\<rparr>"

record shop =
  sh_orders :: "order_placed list"
  sh_invoices :: "(int \<times> int) list"   \<comment> \<open>order id and total\<close>

type_synonym shop_world = "shop iworld"
type_synonym shop_transaction = "shop pg_transaction"

section \<open>Statements of the application\<close>

definition sqlx_statement ::
    "(shop_transaction \<Rightarrow> (string, 'x \<times> shop pg_database) result)
      \<Rightarrow> (shop_transaction, string, 'x) io" where
  "sqlx_statement f t =
     (case tx_statement [] f t of
        (Inl (Database _ e), t') \<Rightarrow> (Inl e, t')
      | (Inr x, t') \<Rightarrow> (Inr x, t'))"

definition insert_order ::
    "int \<Rightarrow> string \<Rightarrow> int \<Rightarrow> shop_transaction \<Rightarrow> (string, int \<times> shop pg_database) result" where
  "insert_order identity customer cents t =
     (let d = tx_db t; shop = db_app d in
      if identity \<in> op_id ` set (sh_orders shop)
      then Inl ''duplicate key value violates unique constraint''
      else Inr (identity, d\<lparr>db_app := shop\<lparr>sh_orders := sh_orders shop
             @ [\<lparr>op_id = identity, op_customer = customer, op_total_cents = cents\<rparr>]\<rparr>\<rparr>))"

definition insert_invoice ::
    "order_placed \<Rightarrow> shop_transaction \<Rightarrow> (string, unit \<times> shop pg_database) result" where
  "insert_invoice order t =
     (let d = tx_db t; shop = db_app d in
      if op_id order \<in> fst ` set (sh_invoices shop)
      then Inl ''duplicate key value violates unique constraint''
      else if op_id order \<notin> op_id ` set (sh_orders shop)
      then Inl ''insert on table violates foreign key constraint''
      else Inr ((), d\<lparr>db_app := shop\<lparr>sh_invoices := sh_invoices shop
             @ [(op_id order, op_total_cents order)]\<rparr>\<rparr>))"

section \<open>Billing\<close>

definition bill_order :: "(shop_world, shop_transaction, order_placed) handler" where
  "bill_order order context s =
     (case sqlx_statement (insert_invoice order) (ctx_transaction context) of
        (Inl e, t) \<Rightarrow>
          (Returned (Inl (handler_error_new ''sqlx_core::error::Error'' e)),
           context\<lparr>ctx_transaction := t\<rparr>, s)
      | (Inr _, t) \<Rightarrow> (Returned (Inr ()), context\<lparr>ctx_transaction := t\<rparr>, s))"

section \<open>Placing an order\<close>

text \<open>
  \<open>pool.begin()\<close> and \<open>tx.commit()\<close>. PostgreSQL answers a commit of an aborted transaction with a
  rollback and no error; a commit whose answer is lost has committed.
\<close>

definition pool_begin :: "(shop_world, string, shop_transaction) io" where
  "pool_begin w =
     (let (fault, faults) = pop Fine (iw_faults w);
          (script, scripts) = pop [] (iw_tx_faults w);
          w' = w\<lparr>iw_faults := faults, iw_tx_faults := scripts\<rparr>
      in if fault = Fine
         then (Inr \<lparr>tx_db = iw_db w, tx_now = iw_now w, tx_aborted = False, tx_faults = script,
                    tx_receipt_id = 0\<rparr>, w')
         else (Inl ''the connection failed'', w'))"

definition pool_commit :: "shop_transaction \<Rightarrow> (shop_world, string, unit) io" where
  "pool_commit t w =
     (let (fault, faults) = pop Fine (iw_faults w);
          w' = w\<lparr>iw_faults := faults\<rparr>;
          committed = (if tx_aborted t then w' else w'\<lparr>iw_db := tx_db t\<rparr>)
      in case fault of
           Fine \<Rightarrow> (Inr (), committed)
         | Refused \<Rightarrow> (Inl ''the connection failed'', w')
         | Lost \<Rightarrow> (Inl ''the connection failed'', committed))"

datatype place_error = Sqlx string | Publishing publish_error

text \<open>
  \<open>identity\<close> is the value the identity column gives, and \<open>fresh\<close> what \<open>Envelope::new\<close> reads. An
  early return drops the transaction, which rolls it back. \<open>None\<close> is a panic.
\<close>

definition place_order ::
    "pg_api \<Rightarrow> order_placed message_impl \<Rightarrow> source \<Rightarrow> message_id \<times> timestamp \<Rightarrow> int \<Rightarrow> string \<Rightarrow> int
      \<Rightarrow> shop_world \<Rightarrow> (place_error, int) result option \<times> shop_world" where
  "place_order P M source fresh identity customer cents w =
     (case pool_begin w of
        (Inl e, w) \<Rightarrow> (Some (Inl (Sqlx e)), w)
      | (Inr tx, w) \<Rightarrow>
          (case sqlx_statement (insert_order identity customer cents) tx of
             (Inl e, _) \<Rightarrow> (Some (Inl (Sqlx e)), w)
           | (Inr i, tx) \<Rightarrow>
               (case outbox_publish (tx_outbox P) fresh source M
                       \<lparr>op_id = i, op_customer = customer, op_total_cents = cents\<rparr> tx of
                  (None, _) \<Rightarrow> (None, w)
                | (Some (Inl e), _) \<Rightarrow> (Some (Inl (Publishing e)), w)
                | (Some (Inr _), tx) \<Rightarrow>
                    (case pool_commit tx w of
                       (Inl e, w) \<Rightarrow> (Some (Inl (Sqlx e)), w)
                     | (Inr _, w) \<Rightarrow> (Some (Inr i), w)))))"

section \<open>Waiting for the invoice\<close>

text \<open>\<open>sleep\<close> is what the world does in the 100 ms between two queries.\<close>

partial_function (option) invoiced ::
    "(int \<Rightarrow> ('s, string, int option) io) \<Rightarrow> ('s \<Rightarrow> 's) \<Rightarrow> int \<Rightarrow> 's
      \<Rightarrow> ((string, unit) result \<times> 's) option" where
  "invoiced query sleep order s =
     (case query order s of
        (Inl e, s') \<Rightarrow> Some (Inl e, s')
      | (Inr found, s') \<Rightarrow>
          if found \<noteq> None then Some (Inr (), s') else invoiced query sleep order (sleep s'))"

text \<open>The query of the example, outside a transaction: it sees what is committed.\<close>

definition select_invoice :: "int \<Rightarrow> (shop_world, string, int option) io" where
  "select_invoice order w =
     (let (fault, faults) = pop Fine (iw_faults w);
          w = w\<lparr>iw_faults := faults\<rparr>
      in if fault = Fine
         then (Inr (map_option fst (find (\<lambda>(i, _). i = order) (sh_invoices (db_app (iw_db w))))), w)
         else (Inl ''the connection failed'', w))"

section \<open>The bus\<close>

definition billing_endpoint ::
    "pg_api \<Rightarrow> order_placed message_impl
      \<Rightarrow> (shop_world, unit, shop_transaction handler_outbox) endpoint_builder
      \<Rightarrow> (shop_world, shop_transaction, shop_transaction handler_outbox) endpoint_builder" where
  "billing_endpoint P M b =
     builder_handle M bill_order (builder_inbox (inbox_of (pg_inbox P False)) b)"

definition orders_bus ::
    "pg_api \<Rightarrow> order_placed message_impl \<Rightarrow> (shop_world, 'q) transport
      \<Rightarrow> shop_world partition_store \<Rightarrow> shop_world partition_store
      \<Rightarrow> (shop_world, 'q, shop_transaction handler_outbox) bus_builder" where
  "orders_bus P M T outbox_partitions inbox_partitions =
     with_endpoint ''billing'' (billing_endpoint P M)
       (with_partitions inbox_partitions partition_settings_default
         (with_partitions outbox_partitions partition_settings_default
           (with_outbox (store_write (tx_outbox P))
             (bus_builder_new ''/orders'' T (no_outbox_write :: unit handler_outbox)))))"

definition orders_handlers ::
    "order_placed message_impl \<Rightarrow> (shop_world, shop_transaction) handlers" where
  "orders_handlers M = [(MessageType ORDER_PLACED, typed_handle M bill_order)]"

section \<open>Placing is all or nothing\<close>

lemma sqlx_statement_Inr:
  "sqlx_statement f t = (Inr x, t') \<Longrightarrow>
    \<not> tx_aborted t \<and> (\<exists>faults d. f (t\<lparr>tx_faults := faults\<rparr>) = Inr (x, d)
      \<and> t' = t\<lparr>tx_faults := faults, tx_db := d\<rparr>)"
  using tx_statement_Inr [of "[]" f t x t']
  by (auto simp: sqlx_statement_def split: prod.splits sum.splits store_error.splits)

lemma pool_begin_cases:
  "pool_begin w = (r, w') \<Longrightarrow> iw_db w' = iw_db w
    \<and> (\<forall>t. r = Inr t \<longrightarrow> tx_db t = iw_db w \<and> tx_now t = iw_now w \<and> \<not> tx_aborted t)"
  by (auto simp: pool_begin_def Let_def split: prod.splits if_splits)

lemma pool_commit_cases:
  "\<not> tx_aborted t \<Longrightarrow> pool_commit t w = (r, w') \<Longrightarrow>
    iw_db w' = tx_db t \<or> \<not> is_ok r \<and> iw_db w' = iw_db w"
  by (auto simp: pool_commit_def Let_def split: prod.splits if_splits fault.splits)

definition placed_db :: "pg_api \<Rightarrow> int \<Rightarrow> envelope \<Rightarrow> order_placed \<Rightarrow> shop pg_database \<Rightarrow> shop pg_database" where
  "placed_db P now e order d =
     d\<lparr>db_outbox := db_outbox d @ [outbox_row_of (pg_uuid P) now e],
       db_app := (db_app d)\<lparr>sh_orders := sh_orders (db_app d) @ [order]\<rparr>\<rparr>"

lemma tx_insert_one:
  assumes "tx_insert P [e] t = (Inr u, t')"
  shows "\<not> tx_aborted t' \<and> tx_db t' = (tx_db t)\<lparr>db_outbox := db_outbox (tx_db t)
      @ [outbox_row_of (pg_uuid P) (tx_now t) e]\<rparr>"
proof -
  obtain t1 where t1: "tx_statement ''inserting an outbox row'' (\<lambda>t.
       and_then (insert_row (pg_uuid P) (tx_now t) e (db_outbox (tx_db t))) (\<lambda>rows.
         Inr ((), (tx_db t)\<lparr>db_outbox := rows\<rparr>))) t = (Inr (), t1)" "t' = t1"
    using assms [unfolded tx_insert.simps and_then_io_Inr] by auto
  show ?thesis
    using tx_statement_Inr [OF t1(1)] unfolding t1(2)
    by (auto simp: result_simps insert_row_def Let_def split: if_splits)
qed

lemma insert_order_Inr:
  assumes "sqlx_statement (insert_order identity customer cents) tx = (Inr i, tx')"
  shows "i = identity \<and> identity \<notin> op_id ` set (sh_orders (db_app (tx_db tx))) \<and> tx_now tx' = tx_now tx
    \<and> tx_db tx' = (tx_db tx)\<lparr>db_app := (db_app (tx_db tx))\<lparr>sh_orders := sh_orders (db_app (tx_db tx))
        @ [\<lparr>op_id = identity, op_customer = customer, op_total_cents = cents\<rparr>]\<rparr>\<rparr>"
  using sqlx_statement_Inr [OF assms] by (auto simp: insert_order_def Let_def split: if_splits)

lemma outbox_published:
  assumes "outbox_publish (tx_outbox P) fresh source M order tx = (p, tx')"
  shows "p \<noteq> None \<and> (\<forall>u. p = Some (Inr u) \<longrightarrow> (\<exists>e. encode fresh source M order = Some (Inr e)
    \<and> \<not> tx_aborted tx' \<and> tx_db tx' = (tx_db tx)\<lparr>db_outbox := db_outbox (tx_db tx)
        @ [outbox_row_of (pg_uuid P) (tx_now tx) e]\<rparr>))"
proof (cases "encode fresh source M order")
  case None
  then show ?thesis using encode_never_panics [of fresh source M order] by simp
next
  case (Some r)
  show ?thesis
  proof (cases r)
    case (Inl x)
    then show ?thesis using assms Some by (auto simp: outbox_publish_def)
  next
    case (Inr e)
    obtain v t1 where v: "tx_insert P [e] tx = (v, t1)" by fastforce
    then have "p = Some (map_err PublishStore v)" "tx' = t1"
      using assms Some Inr by (auto simp: outbox_publish_def tx_outbox_def)
    then show ?thesis using Some Inr v tx_insert_one [of P e tx _ t1] by (cases v) auto
  qed
qed

lemma place_order_cases:
  assumes run: "place_order P M source fresh identity customer cents w = (r, w')"
  defines "order \<equiv> \<lparr>op_id = identity, op_customer = customer, op_total_cents = cents\<rparr>"
  shows "r \<noteq> None \<and> (iw_db w' = iw_db w \<and> (\<forall>i. r \<noteq> Some (Inr i))
    \<or> (\<exists>e. encode fresh source M order = Some (Inr e)
        \<and> identity \<notin> op_id ` set (sh_orders (db_app (iw_db w)))
        \<and> iw_db w' = placed_db P (iw_now w) e order (iw_db w)
        \<and> (\<forall>i. r = Some (Inr i) \<longrightarrow> i = identity)))"
proof -
  obtain b w1 where b: "pool_begin w = (b, w1)" by fastforce
  note b0 = pool_begin_cases [OF b]
  show ?thesis
  proof (cases b)
    case (Inl x)
    then show ?thesis using run b b0 by (auto simp: place_order_def)
  next
    case tx: (Inr tx)
    obtain q tx1 where q: "sqlx_statement (insert_order identity customer cents) tx = (q, tx1)"
      by fastforce
    show ?thesis
    proof (cases q)
      case (Inl x)
      then show ?thesis using run b tx b0 q by (auto simp: place_order_def)
    next
      case i: (Inr i)
      note ins = insert_order_Inr [OF q [unfolded i]]
      obtain p tx2 where p: "outbox_publish (tx_outbox P) fresh source M order tx1 = (p, tx2)"
        by fastforce
      note pub = outbox_published [OF p]
      obtain v w2 where v: "pool_commit tx2 w1 = (v, w2)" by fastforce
      have step: "(r, w') =
        (case p of
           None \<Rightarrow> (None, w1)
         | Some (Inl e) \<Rightarrow> (Some (Inl (Publishing e)), w1)
         | Some (Inr _) \<Rightarrow> (Some (case v of Inl e \<Rightarrow> Inl (Sqlx e) | Inr _ \<Rightarrow> Inr identity), w2))"
        using run b tx q i ins p v
        by (auto simp: place_order_def order_def split: option.splits sum.splits)
      show ?thesis
      proof (cases "\<exists>u. p = Some (Inr u)")
        case True
        then obtain e where e: "encode fresh source M order = Some (Inr e)" "\<not> tx_aborted tx2"
            "tx_db tx2 = (tx_db tx1)\<lparr>db_outbox := db_outbox (tx_db tx1)
              @ [outbox_row_of (pg_uuid P) (tx_now tx1) e]\<rparr>"
          using pub by blast
        have db: "tx_db tx = iw_db w" "tx_now tx = iw_now w" "iw_db w1 = iw_db w" using b0 tx by simp_all
        have placed: "tx_db tx2 = placed_db P (iw_now w) e order (iw_db w)"
          using e(3) ins db by (simp add: placed_db_def order_def)
        from step True have w: "w' = w2"
            "r = Some (case v of Inl e \<Rightarrow> Inl (Sqlx e) | Inr _ \<Rightarrow> Inr identity)" by auto
        have "identity \<notin> op_id ` set (sh_orders (db_app (iw_db w)))" using ins db by simp
        then show ?thesis
          using pool_commit_cases [OF e(2) v] e(1) placed db(3) unfolding w by (cases v) auto
      qed (use step pub b0 in \<open>auto split: option.splits sum.splits\<close>)
    qed
  qed
qed

section \<open>The wait ends with the first query that fails or finds the invoice\<close>

fun polled :: "(int \<Rightarrow> ('s, string, int option) io) \<Rightarrow> ('s \<Rightarrow> 's) \<Rightarrow> int \<Rightarrow> nat \<Rightarrow> 's \<Rightarrow> 's" where
  "polled query sleep order 0 s = s"
| "polled query sleep order (Suc n) s = polled query sleep order n (sleep (snd (query order s)))"

lemma invoiced_after:
  assumes "\<forall>k < n. fst (query order (polled query sleep order k s)) = Inr None"
    and "query order (polled query sleep order n s) = (r, s')" and "r \<noteq> Inr None"
  shows "invoiced query sleep order s = Some (case r of Inl e \<Rightarrow> Inl e | Inr _ \<Rightarrow> Inr (), s')"
  using assms
proof (induction n arbitrary: s)
  case 0
  then show ?case by (subst invoiced.simps) (auto split: sum.splits)
next
  case (Suc n)
  obtain t where t: "query order s = (Inr None, t)"
    using Suc.prems(1) [rule_format, of 0] by (cases "query order s") auto
  have "\<forall>k < n. fst (query order (polled query sleep order k (sleep t))) = Inr None"
    using Suc.prems(1) t by (auto dest: spec [of _ "Suc k" for k])
  then have "invoiced query sleep order (sleep t) = Some (case r of Inl e \<Rightarrow> Inl e | Inr _ \<Rightarrow> Inr (), s')"
    using Suc.prems(2,3) t by (intro Suc.IH) auto
  then show ?case using t by (subst invoiced.simps) simp
qed

lemma invoiced_returns:
  "invoiced query sleep order s = Some r \<Longrightarrow>
    \<exists>n. fst (query order (polled query sleep order n s)) \<noteq> Inr None"
proof (rule invoiced.raw_induct [where P = "\<lambda>query sleep order s r.
      \<exists>n. fst (query order (polled query sleep order n s)) \<noteq> Inr None"])
  fix go query sleep order s r
  assume ih: "\<And>query sleep order s r. go query sleep order s = Some r \<Longrightarrow>
      \<exists>n. fst (query order (polled query sleep order n s)) \<noteq> Inr None"
    and body: "(case query order s of
        (Inl e, s') \<Rightarrow> Some (Inl e, s')
      | (Inr found, s') \<Rightarrow>
          if found \<noteq> None then Some (Inr (), s') else go query sleep order (sleep s')) = Some r"
  obtain q t where q: "query order s = (q, t)" by fastforce
  show "\<exists>n. fst (query order (polled query sleep order n s)) \<noteq> Inr None"
  proof (cases "q = Inr None")
    case True
    then have "go query sleep order (sleep t) = Some r" using body q by simp
    then obtain n where "fst (query order (polled query sleep order n (sleep t))) \<noteq> Inr None"
      using ih by blast
    then show ?thesis using q True by (intro exI [of _ "Suc n"]) simp
  next
    case False
    then show ?thesis using q by (intro exI [of _ 0]) simp
  qed
qed

lemma invoiced_returns_iff:
  "invoiced query sleep order s \<noteq> None \<longleftrightarrow>
    (\<exists>n. fst (query order (polled query sleep order n s)) \<noteq> Inr None)"
proof
  assume "\<exists>n. fst (query order (polled query sleep order n s)) \<noteq> Inr None"
  then obtain n where n: "fst (query order (polled query sleep order n s)) \<noteq> Inr None"
      "\<forall>k < n. fst (query order (polled query sleep order k s)) = Inr None"
    using exists_least_iff [of "\<lambda>n. fst (query order (polled query sleep order n s)) \<noteq> Inr None"] by blast
  then show "invoiced query sleep order s \<noteq> None"
    using invoiced_after [OF n(2) surjective_pairing] by simp
next
  assume "invoiced query sleep order s \<noteq> None"
  then obtain r where "invoiced query sleep order s = Some r" by auto
  then show "\<exists>n. fst (query order (polled query sleep order n s)) \<noteq> Inr None"
    by (rule invoiced_returns)
qed

text \<open>A query finds the order's invoice exactly when one is committed.\<close>

lemma find_invoice:
  "map_option fst (find (\<lambda>(i, _). i = order) invoices) =
    (if order \<in> fst ` set invoices then Some order else None)"
proof (induction invoices)
  case (Cons a invoices)
  then show ?case by (cases a; cases "fst a = order") simp_all
qed simp

lemma select_invoice_finds:
  "iw_faults w = [] \<Longrightarrow> fst (select_invoice order w) =
    Inr (if order \<in> fst ` set (sh_invoices (db_app (iw_db w))) then Some order else None)"
  by (simp add: select_invoice_def pop_def Let_def find_invoice)

lemma invoiced_at_once:
  assumes "iw_faults w = []" and "order \<in> fst ` set (sh_invoices (db_app (iw_db w)))"
  shows "\<exists>w'. invoiced select_invoice sleep order w = Some (Inr (), w')"
proof -
  obtain w' where "select_invoice order w = (Inr (Some order), w')"
    using select_invoice_finds [OF assms(1), of order] assms(2) by (cases "select_invoice order w") auto
  then show ?thesis
    using invoiced_after [of 0 select_invoice order sleep w "Inr (Some order)" w'] by simp
qed

section \<open>What a delivery to billing does\<close>

definition is_order :: "order_placed message_impl \<Rightarrow> order_placed \<Rightarrow> envelope \<Rightarrow> bool" where
  "is_order M order e \<longleftrightarrow> env_type e = MessageType ORDER_PLACED
     \<and> env_content_type e = ContentType json_content_type \<and> json_decode M (env_data e) = Inr order"

definition billing_run ::
    "pg_api \<Rightarrow> order_placed message_impl \<Rightarrow> bool \<Rightarrow> source \<Rightarrow> envelope \<Rightarrow> nat
      \<Rightarrow> (shop_world, failure, envelope list) io" where
  "billing_run P M keep source e attempt =
     transactional_run ''billing'' (orders_handlers M) (pg_inbox P keep) (store_write (tx_outbox P))
       (handler_context_new source ''billing'' e attempt)"

definition billed_db :: "inbox_row \<Rightarrow> order_placed \<Rightarrow> shop pg_database \<Rightarrow> shop pg_database" where
  "billed_db row order d =
     d\<lparr>db_inbox := db_inbox d @ [row],
       db_app := (db_app d)\<lparr>sh_invoices := sh_invoices (db_app d) @ [(op_id order, op_total_cents order)]\<rparr>\<rparr>"

lemma orders_handlers_get [simp]:
  "om_get (orders_handlers M) t
    = (if t = MessageType ORDER_PLACED then Some (typed_handle M bill_order) else None)"
  by (simp add: orders_handlers_def om_get_def)

lemma billing_call:
  assumes "is_order M order (ctx_envelope c)"
  shows "call (typed_handle M bill_order) c u =
    (case sqlx_statement (insert_invoice order) (ctx_transaction c) of
       (Inl x, _) \<Rightarrow> (Inl (HandlerFailure (handler_error_new ''sqlx_core::error::Error'' x)), u)
     | (Inr _, t) \<Rightarrow> (Inr (c\<lparr>ctx_transaction := t\<rparr>), u))"
proof -
  have "can_decode json_content_type (ContentType json_content_type)"
    using json_can_decode(1) by (simp add: eq_ignore_ascii_case_def)
  then show ?thesis
    using assms
    by (auto simp: call_def typed_handle_def decode_and_handle_def is_order_def bill_order_def Let_def
        split: prod.splits sum.splits)
qed

lemma insert_invoice_keeps:
  assumes "sqlx_statement (insert_invoice order) t = (Inr x, t')"
  shows "db_inbox (tx_db t') = db_inbox (tx_db t)"
  using sqlx_statement_Inr [OF assms] by (auto simp: insert_invoice_def Let_def split: if_splits)

lemma billing_handler_ok: "handler_ok iw_db tx_db (has_receipt P) (typed_handle M bill_order)"
  unfolding handler_ok_def call_def typed_handle_def decode_and_handle_def bill_order_def
  by (auto simp: Let_def has_receipt_def insert_invoice_keeps split: if_splits sum.splits prod.splits)

lemma receipt_fields:
  assumes "pg_record P keep n e t = (Inr True, t')"
  shows "\<exists>row. tx_db t' = (tx_db t)\<lparr>db_inbox := db_inbox (tx_db t) @ [row]\<rparr>
    \<and> ir_endpoint row = n \<and> ir_message_id row = as_uuid (env_id e)
    \<and> pg_timestamptz P (timestamp_text (env_time e)) = Some (ir_message_time row)"
proof -
  obtain mt row where row: "row = receipt_row (pg_uuid P) keep n e (tx_receipt_id t) mt (tx_now t)"
      "pg_timestamptz P (timestamp_text (env_time e)) = Some mt"
      "(True, tx_db t') = insert_receipt row (tx_db t)"
    using pg_record_Inr [OF assms] by auto
  then have "tx_db t' = (tx_db t)\<lparr>db_inbox := db_inbox (tx_db t) @ [row]\<rparr>"
    by (simp add: insert_receipt_def split: if_splits)
  moreover have "ir_endpoint row = n \<and> ir_message_id row = as_uuid (env_id e) \<and> ir_message_time row = mt"
    by (simp add: row(1) receipt_row_def)
  ultimately show ?thesis using row(2) by blast
qed

lemma billing_call_writes:
  assumes "call (typed_handle M bill_order) c u = (Inr c', u')" and "is_order M order (ctx_envelope c)"
  shows "insert_invoice order (ctx_transaction c) = Inr ((), tx_db (ctx_transaction c'))
    \<and> ctx_held c' = ctx_held c"
proof -
  obtain t3 where t3: "sqlx_statement (insert_invoice order) (ctx_transaction c) = (Inr (), t3)"
      and c': "c' = c\<lparr>ctx_transaction := t3\<rparr>"
    using assms(1) billing_call [of M order c u] assms(2) by (auto split: prod.splits sum.splits)
  then show ?thesis using sqlx_statement_Inr [OF t3] by (auto simp: insert_invoice_def Let_def split: if_splits)
qed

lemma billing_run_cases:
  assumes run: "billing_run P M keep source e n w = (r, w')" and ids: "ids_fresh w"
    and e: "is_order M order e"
  shows "iw_db w' = iw_db w \<and> (is_ok r \<longrightarrow> has_receipt P (iw_db w) (receipt_key ''billing'' e))
    \<or> (\<not> has_receipt P (iw_db w) (receipt_key ''billing'' e)
      \<and> op_id order \<notin> fst ` set (sh_invoices (db_app (iw_db w)))
      \<and> op_id order \<in> op_id ` set (sh_orders (db_app (iw_db w)))
      \<and> (\<exists>row. ir_endpoint row = ''billing'' \<and> ir_message_id row = as_uuid (env_id e)
          \<and> pg_timestamptz P (timestamp_text (env_time e)) = Some (ir_message_time row)
          \<and> iw_db w' = billed_db row order (iw_db w)))"
    (is "?same \<or> ?billed")
proof -
  let ?c = "handler_context_new source ''billing'' e n"
  have h: "\<forall>h. om_get (orders_handlers M) (env_type (ctx_envelope ?c)) = Some h \<longrightarrow>
      handler_ok iw_db tx_db (has_receipt P) h"
    using billing_handler_ok by (auto split: if_splits)
  have env: "ctx_envelope ?c = e" by (simp add: handler_context_new_def)
  consider ?same
    | h t t1 u c' u' held t2 where
      "om_get (orders_handlers M) (env_type e) = Some h" "ib_begin (pg_inbox P keep) w = (Inr t, u)"
      "pg_record P keep ''billing'' e t = (Inr True, t1)"
      "call h (fst (with_transaction ?c t1)) u = (Inr c', u')"
      "store_write (tx_outbox P) (ctx_transaction c') (ctx_held c') = (Inr held, t2)"
      "iw_db w' = tx_db t2"
    using inbox.run_cases [OF run [unfolded billing_run_def] h ids] unfolding env
    by (elim disjE exE conjE) (simp_all add: pg_inbox_def)
  then show ?thesis
  proof cases
    case 1
    then show ?thesis by blast
  next
    case 2
    have db: "tx_db t = iw_db w" using inbox.begin_ok [OF ids 2(2)] by simp
    obtain row where row: "tx_db t1 = (iw_db w)\<lparr>db_inbox := db_inbox (iw_db w) @ [row]\<rparr>"
        "ir_endpoint row = ''billing''" "ir_message_id row = as_uuid (env_id e)"
        "pg_timestamptz P (timestamp_text (env_time e)) = Some (ir_message_time row)"
      using receipt_fields [OF 2(3)] unfolding db by blast
    have new: "\<not> has_receipt P (iw_db w) (receipt_key ''billing'' e)"
      using record_fresh [OF 2(3)] db by simp
    let ?c1 = "fst (with_transaction ?c t1)"
    have c1: "ctx_envelope ?c1 = e" "ctx_transaction ?c1 = t1" "ctx_held ?c1 = []"
      by (simp_all add: with_transaction_def handler_context_new_def)
    have hh: "h = typed_handle M bill_order" using 2(1) e by (simp add: is_order_def)
    have "is_order M order (ctx_envelope ?c1)" using e c1(1) by simp
    from billing_call_writes [OF 2(4) [unfolded hh] this] c1(2,3)
    have inv: "insert_invoice order t1 = Inr ((), tx_db (ctx_transaction c'))" "ctx_held c' = []"
      by simp_all
    then have "op_id order \<notin> fst ` set (sh_invoices (db_app (iw_db w)))"
        "op_id order \<in> op_id ` set (sh_orders (db_app (iw_db w)))"
        "tx_db (ctx_transaction c') = billed_db row order (iw_db w)"
      using row(1) by (auto simp: insert_invoice_def billed_db_def Let_def split: if_splits)
    moreover have "t2 = ctx_transaction c'" using 2(5) inv(2) by (simp add: store_write_def)
    ultimately show ?thesis using new row 2(6) by auto
  qed
qed

text \<open>Without faults billing succeeds, when the constraints of \<open>invoices\<close> let it.\<close>

lemma find_billing:
  "is_order M order e \<Longrightarrow> ctx_envelope c = e \<Longrightarrow>
    find_handler (orders_handlers M) n (ctx_envelope c) = Inr (typed_handle M bill_order)"
  by (simp add: find_handler_def ok_or_def is_order_def)

lemma billing_run_quiet:
  assumes quiet: "iw_faults w = []" "iw_tx_faults w = []" and ids: "ids_fresh w"
    and e: "is_order M order e"
    and mt: "pg_timestamptz P (timestamp_text (env_time e)) = Some mt"
    and allowed: "has_receipt P (iw_db w) (receipt_key ''billing'' e)
      \<or> op_id order \<notin> fst ` set (sh_invoices (db_app (iw_db w)))
        \<and> op_id order \<in> op_id ` set (sh_orders (db_app (iw_db w)))"
  shows "\<exists>w'. billing_run P M keep source e n w = (Inr [], w')"
proof -
  let ?c = "handler_context_new source ''billing'' e n"
  have env: "ctx_envelope ?c = e" by (simp add: handler_context_new_def)
  have get: "om_get (orders_handlers M) (env_type (ctx_envelope ?c)) = Some (typed_handle M bill_order)"
    using e by (simp add: env is_order_def)
  obtain d where d: "recorded_db P keep ''billing'' (ctx_envelope ?c) w = Some d"
    using mt by (simp add: recorded_db_def env)
  note run = run_quiet [OF quiet ids get d, unfolded env]
  show ?thesis
  proof (cases "has_receipt P (iw_db w) (receipt_key ''billing'' e)")
    case True
    then show ?thesis by (simp add: billing_run_def run)
  next
    case False
    then obtain d' where ins: "insert_invoice order (opened d w) = Inr ((), d')"
      using allowed recorded_db_keeps [OF d] by (simp add: insert_invoice_def Let_def)
    let ?c1 = "fst (with_transaction ?c (opened d w))"
    have c1: "ctx_envelope ?c1 = e" "ctx_transaction ?c1 = opened d w" "ctx_held ?c1 = []"
      by (simp_all add: with_transaction_def handler_context_new_def)
    have "sqlx_statement (insert_invoice order) (opened d w) = (Inr (), opened d' w)"
      using ins by (simp add: sqlx_statement_def statement_sound)
    then have "call (typed_handle M bill_order) ?c1 (id_taken w)
        = (Inr (?c1\<lparr>ctx_transaction := opened d' w\<rparr>), id_taken w)"
      using billing_call [of M order ?c1 "id_taken w"] e c1 by simp
    then show ?thesis
      using False quiet(1) c1(3)
        write_and_commit_quiet [of "id_taken w" "?c1\<lparr>ctx_transaction := opened d' w\<rparr>" P "db_outbox d'" keep]
      by (simp add: billing_run_def run and_then_io_def insert_rows_def)
  qed
qed

section \<open>The service\<close>

text \<open>
  A state of the service: the database's world, the envelopes the broker has, and the ids
  \<open>MessageId::new\<close> made for them. A step places an order, puts the envelope of some outbox row on
  the broker (what the dispatcher does, once or more for a row), changes the marks of outbox rows
  or drops rows (the dispatcher and the maintenance), delivers any envelope of the broker to billing
  once more, or is the passing of time with new faults and ids in store.
\<close>

record service =
  sv_world :: shop_world
  sv_published :: "envelope list"
  sv_ids :: "message_id list"

inductive service_step ::
    "pg_api \<Rightarrow> order_placed message_impl \<Rightarrow> bool \<Rightarrow> source \<Rightarrow> service \<Rightarrow> service \<Rightarrow> bool"
  for P M keep source where
  place: "place_order P M source (i, t) identity customer cents (sv_world s) = (r, w) \<Longrightarrow>
    pg_time_range (iw_now (sv_world s)) \<Longrightarrow> i \<notin> set (sv_ids s) \<Longrightarrow> timestamp_ok t \<Longrightarrow>
    pg_timestamptz P (timestamp_text t) \<noteq> None \<Longrightarrow>
    service_step P M keep source s (s\<lparr>sv_world := w, sv_ids := i # sv_ids s\<rparr>)"
| publish: "row \<in> set (db_outbox (iw_db (sv_world s))) \<Longrightarrow> row_envelope P row = Inr e \<Longrightarrow>
    service_step P M keep source s (s\<lparr>sv_published := e # sv_published s\<rparr>)"
| rows: "\<forall>row \<in> set rows. \<exists>old \<in> set (db_outbox (iw_db (sv_world s))). row_content row = row_content old \<Longrightarrow>
    service_step P M keep source s (s\<lparr>sv_world := (sv_world s)\<lparr>iw_db :=
      (iw_db (sv_world s))\<lparr>db_outbox := rows\<rparr>\<rparr>\<rparr>)"
| deliver: "e \<in> set (sv_published s) \<Longrightarrow> ids_fresh (sv_world s) \<Longrightarrow>
    billing_run P M keep source e n (sv_world s) = (r, w) \<Longrightarrow>
    service_step P M keep source s (s\<lparr>sv_world := w\<rparr>)"
| pass: "iw_db w = iw_db (sv_world s) \<Longrightarrow>
    service_step P M keep source s (s\<lparr>sv_world := w\<rparr>)"

abbreviation service_steps ::
    "pg_api \<Rightarrow> order_placed message_impl \<Rightarrow> bool \<Rightarrow> source \<Rightarrow> service \<Rightarrow> service \<Rightarrow> bool" where
  "service_steps P M keep source \<equiv> (service_step P M keep source)\<^sup>*\<^sup>*"

text \<open>
  The invariant pairs every order with the one envelope that was made for it: the outbox and the
  broker hold only such envelopes, and billing has a receipt of one exactly when its order has an
  invoice.
\<close>

definition paired :: "pg_api \<Rightarrow> order_placed message_impl \<Rightarrow> service \<Rightarrow> (order_placed \<times> envelope) list \<Rightarrow> bool" where
  "paired P M s ps \<longleftrightarrow>
     map fst ps = sh_orders (db_app (iw_db (sv_world s)))
     \<and> distinct (map (op_id \<circ> fst) ps) \<and> distinct (map (env_id \<circ> snd) ps)
     \<and> (\<forall>(order, e) \<in> set ps. is_order M order e \<and> env_id e \<in> set (sv_ids s)
          \<and> pg_timestamptz P (timestamp_text (env_time e)) \<noteq> None)
     \<and> (\<forall>row \<in> set (db_outbox (iw_db (sv_world s))). \<exists>e \<in> snd ` set ps. row_envelope P row = Inr e)
     \<and> set (sv_published s) \<subseteq> snd ` set ps
     \<and> (\<forall>row \<in> set (db_inbox (iw_db (sv_world s))). MessageId (ir_message_id row) \<in> set (sv_ids s))"

definition billed :: "pg_api \<Rightarrow> shop pg_database \<Rightarrow> (order_placed \<times> envelope) list \<Rightarrow> bool" where
  "billed P d ps \<longleftrightarrow>
     distinct (map fst (sh_invoices (db_app d)))
     \<and> (\<forall>(order, e) \<in> set ps. has_receipt P d (receipt_key ''billing'' e)
          \<longleftrightarrow> op_id order \<in> fst ` set (sh_invoices (db_app d)))
     \<and> (\<forall>(i, cents) \<in> set (sh_invoices (db_app d)).
          \<exists>order \<in> fst ` set ps. op_id order = i \<and> op_total_cents order = cents)"

definition service_ok :: "pg_api \<Rightarrow> order_placed message_impl \<Rightarrow> service \<Rightarrow> bool" where
  "service_ok P M s \<longleftrightarrow> (\<exists>ps. paired P M s ps \<and> billed P (iw_db (sv_world s)) ps)"

lemma pairedD:
  assumes "paired P M s ps"
  shows "sh_orders (db_app (iw_db (sv_world s))) = map fst ps"
    and "(order, e) \<in> set ps \<Longrightarrow> is_order M order e"
    and "(order, e) \<in> set ps \<Longrightarrow> \<exists>mt. pg_timestamptz P (timestamp_text (env_time e)) = Some mt"
    and "row \<in> set (db_outbox (iw_db (sv_world s))) \<Longrightarrow> \<exists>e \<in> snd ` set ps. row_envelope P row = Inr e"
    and "e \<in> set (sv_published s) \<Longrightarrow> \<exists>order. (order, e) \<in> set ps"
  using assms unfolding paired_def by (simp, blast, blast, blast, force)

lemma row_envelope_of:
  assumes "pg_api_ok P" and "envelope_ok e" and "pg_time_range now"
  shows "row_envelope P (outbox_row_of (pg_uuid P) now e) = Inr e"
  using read_row_of [OF assms] by (auto simp: read_record_Inr row_envelope_def outbox_record_new_def)

lemma encode_order:
  assumes "encode (i, t) source M order = Some (Inr e)" and "serde_ok M" and "msg_type M = ORDER_PLACED"
  shows "is_order M order e \<and> env_id e = i \<and> env_time e = t"
proof -
  obtain mt d where "message_type_new (msg_type M) = Inr mt" "json_encode M order = Inr d"
      "e = envelope_new i t mt source (ContentType json_content_type) d"
    using assms(1) by (auto simp: encode_Inr)
  then show ?thesis
    using json_round_trip [OF assms(2)] assms(3)
    by (auto simp: is_order_def envelope_new_def message_type_new_iff)
qed

lemma has_receipt_billed:
  "ir_endpoint row = ''billing'' \<Longrightarrow> has_receipt P (billed_db row order d) (receipt_key ''billing'' e) \<longleftrightarrow>
    has_receipt P d (receipt_key ''billing'' e)
    \<or> ir_message_id row = as_uuid (env_id e)
      \<and> pg_timestamptz P (timestamp_text (env_time e)) = Some (ir_message_time row)"
  by (auto simp: has_receipt_def receipt_key_def billed_db_def)

lemma has_receipt_known:
  "has_receipt P d (receipt_key n e) \<Longrightarrow> \<exists>row \<in> set (db_inbox d). MessageId (ir_message_id row) = env_id e"
  by (cases "env_id e") (auto simp: has_receipt_def receipt_key_def list_ex_iff)

lemma pair_unique:
  assumes "distinct (map (f \<circ> fst) ps)" and "distinct (map (g \<circ> snd) ps)"
    and "(a, b) \<in> set ps" and "(a', b') \<in> set ps" and "f a = f a' \<or> g b = g b'"
  shows "a = a' \<and> b = b'"
proof -
  have "inj_on (f \<circ> fst) (set ps)" "inj_on (g \<circ> snd) (set ps)"
    using assms(1,2) by (simp_all add: distinct_map)
  then show ?thesis
    using inj_onD [of "f \<circ> fst" "set ps" "(a, b)" "(a', b')"]
      inj_onD [of "g \<circ> snd" "set ps" "(a, b)" "(a', b')"] assms(3-5) by auto
qed

lemma service_placed:
  assumes ok: "paired P M s ps" "billed P (iw_db (sv_world s)) ps"
    and db: "iw_db w = placed_db P now e order (iw_db (sv_world s))"
    and e: "is_order M order e" "env_id e = i" "pg_timestamptz P (timestamp_text (env_time e)) \<noteq> None"
    and row: "row_envelope P (outbox_row_of (pg_uuid P) now e) = Inr e"
    and i: "i \<notin> set (sv_ids s)"
    and new: "op_id order \<notin> op_id ` set (sh_orders (db_app (iw_db (sv_world s))))"
  shows "paired P M (s\<lparr>sv_world := w, sv_ids := i # sv_ids s\<rparr>) (ps @ [(order, e)])
    \<and> billed P (iw_db w) (ps @ [(order, e)])"
proof
  have "sh_orders (db_app (iw_db (sv_world s))) = map fst ps" using ok(1) by (simp add: paired_def)
  then have o: "op_id order \<notin> set (map (op_id \<circ> fst) ps)" using new by (simp add: image_comp)
  have fresh: "i \<notin> set (map (env_id \<circ> snd) ps)" using ok(1) i by (fastforce simp: paired_def)
  then show "paired P M (s\<lparr>sv_world := w, sv_ids := i # sv_ids s\<rparr>) (ps @ [(order, e)])"
    using ok(1) e row o by (auto simp: paired_def db placed_db_def)
  have r: "has_receipt P (iw_db w) k = has_receipt P (iw_db (sv_world s)) k" for k
    by (simp add: db placed_db_def has_receipt_def)
  have "\<not> has_receipt P (iw_db (sv_world s)) (receipt_key ''billing'' e)"
    using has_receipt_known ok(1) i e(2) by (fastforce simp: paired_def)
  moreover have "op_id order \<notin> fst ` set (sh_invoices (db_app (iw_db (sv_world s))))"
    using ok o by (fastforce simp: billed_def)
  ultimately show "billed P (iw_db w) (ps @ [(order, e)])"
    using ok(2) unfolding billed_def r by (auto simp: db placed_db_def)
qed

lemma service_billed:
  assumes ok: "paired P M s ps" "billed P (iw_db (sv_world s)) ps" and pair: "(order, e) \<in> set ps"
    and row: "ir_endpoint row = ''billing''" "ir_message_id row = as_uuid (env_id e)"
      "pg_timestamptz P (timestamp_text (env_time e)) = Some (ir_message_time row)"
    and new: "op_id order \<notin> fst ` set (sh_invoices (db_app (iw_db (sv_world s))))"
    and db: "iw_db w = billed_db row order (iw_db (sv_world s))"
  shows "paired P M (s\<lparr>sv_world := w\<rparr>) ps \<and> billed P (iw_db w) ps"
proof
  have "MessageId (ir_message_id row) \<in> set (sv_ids s)"
    using ok(1) pair row(2) by (cases "env_id e") (fastforce simp: paired_def)
  then show "paired P M (s\<lparr>sv_world := w\<rparr>) ps"
    using ok(1) by (auto simp: paired_def db billed_db_def)
  have u: "order' = order \<and> e' = e"
    if "(order', e') \<in> set ps" "env_id e' = env_id e \<or> op_id order' = op_id order" for order' e'
    using pair_unique [OF _ _ that(1) pair] ok(1) that(2) by (auto simp: paired_def)
  have "has_receipt P (iw_db w) (receipt_key ''billing'' e')
      \<longleftrightarrow> op_id order' \<in> fst ` set (sh_invoices (db_app (iw_db w)))"
    if p: "(order', e') \<in> set ps" for order' e'
  proof -
    have "ir_message_id row = as_uuid (env_id e') \<longleftrightarrow> e' = e"
      using u [OF p] row(2) by (cases "env_id e'"; cases "env_id e") auto
    moreover have "op_id order' = op_id order \<longleftrightarrow> e' = e"
      using u [OF p] by auto
    moreover have "has_receipt P (iw_db (sv_world s)) (receipt_key ''billing'' e')
        \<longleftrightarrow> op_id order' \<in> fst ` set (sh_invoices (db_app (iw_db (sv_world s))))"
      using ok(2) p by (auto simp: billed_def)
    ultimately show ?thesis
      using row(3) unfolding db has_receipt_billed [OF row(1)] by (auto simp: billed_db_def)
  qed
  moreover have "order \<in> fst ` set ps" using pair by force
  ultimately show "billed P (iw_db w) ps"
    using ok(2) new by (auto simp: billed_def db billed_db_def)
qed

lemma service_place_ok:
  assumes api: "pg_api_ok P" and M: "serde_ok M" "msg_type M = ORDER_PLACED"
    and src: "source_new (source_str source) = Inr source" and ok: "service_ok P M s"
    and run: "place_order P M source (i, t) identity customer cents (sv_world s) = (r, w)"
    and range: "pg_time_range (iw_now (sv_world s))" and i: "i \<notin> set (sv_ids s)"
    and t: "timestamp_ok t" "pg_timestamptz P (timestamp_text t) \<noteq> None"
  shows "service_ok P M (s\<lparr>sv_world := w, sv_ids := i # sv_ids s\<rparr>)"
proof -
  obtain ps where ps: "paired P M s ps" "billed P (iw_db (sv_world s)) ps"
    using ok by (auto simp: service_ok_def)
  let ?order = "\<lparr>op_id = identity, op_customer = customer, op_total_cents = cents\<rparr>"
  from place_order_cases [OF run] consider "iw_db w = iw_db (sv_world s)"
    | e where "encode (i, t) source M ?order = Some (Inr e)"
      "identity \<notin> op_id ` set (sh_orders (db_app (iw_db (sv_world s))))"
      "iw_db w = placed_db P (iw_now (sv_world s)) e ?order (iw_db (sv_world s))"
    by blast
  then show ?thesis
  proof cases
    case 1
    then show ?thesis using ps by (auto simp: service_ok_def paired_def)
  next
    case 2
    note o = encode_order [OF 2(1) M]
    have "envelope_ok e" using encode_ok [OF 2(1)] t(1) src by simp
    then have row: "row_envelope P (outbox_row_of (pg_uuid P) (iw_now (sv_world s)) e) = Inr e"
      by (rule row_envelope_of [OF api _ range])
    have "paired P M (s\<lparr>sv_world := w, sv_ids := i # sv_ids s\<rparr>) (ps @ [(?order, e)])
        \<and> billed P (iw_db w) (ps @ [(?order, e)])"
      by (rule service_placed [OF ps 2(3) _ _ _ row i]) (use o 2(2) t in simp_all)
    then show ?thesis by (auto simp: service_ok_def)
  qed
qed

lemma service_rows_ok:
  assumes ok: "service_ok P M s"
    and rows: "\<forall>row \<in> set new. \<exists>old \<in> set (db_outbox (iw_db (sv_world s))). row_content row = row_content old"
  shows "service_ok P M (s\<lparr>sv_world := (sv_world s)\<lparr>iw_db := (iw_db (sv_world s))\<lparr>db_outbox := new\<rparr>\<rparr>\<rparr>)"
proof -
  obtain ps where ps: "paired P M s ps" "billed P (iw_db (sv_world s)) ps"
    using ok by (auto simp: service_ok_def)
  let ?d = "(iw_db (sv_world s))\<lparr>db_outbox := new\<rparr>"
  have "\<exists>e \<in> snd ` set ps. row_envelope P row = Inr e" if row: "row \<in> set new" for row
  proof -
    obtain old where "old \<in> set (db_outbox (iw_db (sv_world s)))" "row_content row = row_content old"
      using rows row by blast
    then show ?thesis using ps(1) row_content_fields(3) unfolding paired_def by metis
  qed
  then have "paired P M (s\<lparr>sv_world := (sv_world s)\<lparr>iw_db := ?d\<rparr>\<rparr>) ps"
    using ps(1) by (simp add: paired_def)
  moreover have "billed P ?d ps" using ps(2) by (simp add: billed_def has_receipt_def)
  ultimately show ?thesis by (auto simp: service_ok_def)
qed

lemma service_deliver_ok:
  assumes ok: "service_ok P M s" and e: "e \<in> set (sv_published s)"
    and run: "billing_run P M keep source e n (sv_world s) = (r, w)" and ids: "ids_fresh (sv_world s)"
  shows "service_ok P M (s\<lparr>sv_world := w\<rparr>)"
proof -
  obtain ps where ps: "paired P M s ps" "billed P (iw_db (sv_world s)) ps"
    using ok by (auto simp: service_ok_def)
  then obtain order where pair: "(order, e) \<in> set ps" using pairedD(5) e by blast
  then have "is_order M order e" using pairedD(2) [OF ps(1)] by blast
  from billing_run_cases [OF run ids this]
  consider "iw_db w = iw_db (sv_world s)"
    | row where "op_id order \<notin> fst ` set (sh_invoices (db_app (iw_db (sv_world s))))"
      "ir_endpoint row = ''billing''" "ir_message_id row = as_uuid (env_id e)"
      "pg_timestamptz P (timestamp_text (env_time e)) = Some (ir_message_time row)"
      "iw_db w = billed_db row order (iw_db (sv_world s))"
    by blast
  then show ?thesis
  proof cases
    case 1
    then show ?thesis using ps by (auto simp: service_ok_def paired_def)
  next
    case 2
    then show ?thesis using service_billed [OF ps pair 2(2-4,1,5)] by (auto simp: service_ok_def)
  qed
qed

lemma service_step_ok:
  assumes "pg_api_ok P" and "serde_ok M" and "msg_type M = ORDER_PLACED"
    and "source_new (source_str source) = Inr source"
  shows "service_step P M keep source s s' \<Longrightarrow> service_ok P M s \<Longrightarrow> service_ok P M s'"
proof (induction rule: service_step.induct)
  case place
  then show ?case using service_place_ok [OF assms] by blast
next
  case (publish row s e)
  then obtain ps where ps: "paired P M s ps" "billed P (iw_db (sv_world s)) ps"
    by (auto simp: service_ok_def)
  have "e \<in> snd ` set ps" using pairedD(4) [OF ps(1) publish.hyps(1)] publish.hyps(2) by auto
  then have "paired P M (s\<lparr>sv_published := e # sv_published s\<rparr>) ps"
    using ps(1) by (simp add: paired_def)
  then show ?case using ps(2) by (auto simp: service_ok_def)
next
  case rows
  then show ?case using service_rows_ok by blast
next
  case deliver
  then show ?case using service_deliver_ok by blast
next
  case (pass w s)
  then show ?case by (auto simp: service_ok_def paired_def)
qed

lemma service_steps_ok:
  assumes "pg_api_ok P" and "serde_ok M" and "msg_type M = ORDER_PLACED"
    and "source_new (source_str source) = Inr source"
  shows "service_steps P M keep source s s' \<Longrightarrow> service_ok P M s \<Longrightarrow> service_ok P M s'"
  by (induction rule: rtranclp_induct) (use service_step_ok [OF assms] in blast)+

definition shop_empty :: "shop pg_database" where
  "shop_empty = \<lparr>db_outbox = [], db_inbox = [], db_app = \<lparr>sh_orders = [], sh_invoices = []\<rparr>\<rparr>"

lemma service_empty_ok:
  "iw_db (sv_world s) = shop_empty \<Longrightarrow> sv_published s = [] \<Longrightarrow> service_ok P M s"
  unfolding service_ok_def
  by (rule exI [of _ "[]"]) (simp add: paired_def billed_def shop_empty_def)

text \<open>In a good state every published envelope can be delivered, now or again.\<close>

lemma billing_succeeds:
  assumes ok: "service_ok P M s" and e: "e \<in> set (sv_published s)"
    and w: "iw_db w = iw_db (sv_world s)" "iw_faults w = []" "iw_tx_faults w = []" "ids_fresh w"
  shows "\<exists>order w'. order \<in> set (sh_orders (db_app (iw_db w))) \<and> is_order M order e
    \<and> billing_run P M keep source e n w = (Inr [], w')
    \<and> (op_id order, op_total_cents order) \<in> set (sh_invoices (db_app (iw_db w')))"
proof -
  obtain ps where ps: "paired P M s ps" "billed P (iw_db w) ps" using ok w(1) by (auto simp: service_ok_def)
  have orders: "sh_orders (db_app (iw_db w)) = map fst ps" using pairedD(1) [OF ps(1)] w(1) by simp
  obtain order where pair: "(order, e) \<in> set ps" using pairedD(5) [OF ps(1) e] by blast
  have o: "is_order M order e" "order \<in> set (sh_orders (db_app (iw_db w)))"
    using pairedD(2) [OF ps(1) pair] pair unfolding orders by force+
  obtain mt where mt: "pg_timestamptz P (timestamp_text (env_time e)) = Some mt"
    using pairedD(3) [OF ps(1) pair] by blast
  have iff: "has_receipt P (iw_db w) (receipt_key ''billing'' e)
      \<longleftrightarrow> op_id order \<in> fst ` set (sh_invoices (db_app (iw_db w)))"
    using ps(2) pair by (auto simp: billed_def)
  then obtain w' where run: "billing_run P M keep source e n w = (Inr [], w')"
    using billing_run_quiet [OF w(2-4) o(1) mt] o(2) by blast
  have inv: "(op_id order, op_total_cents order) \<in> set (sh_invoices (db_app (iw_db w)))"
    if paid: "op_id order \<in> fst ` set (sh_invoices (db_app (iw_db w)))"
  proof -
    obtain cents where c: "(op_id order, cents) \<in> set (sh_invoices (db_app (iw_db w)))"
      using paid by auto
    then obtain order' e' where o': "(order', e') \<in> set ps" "op_id order' = op_id order"
        "op_total_cents order' = cents"
      using ps(2) by (fastforce simp: billed_def)
    have "order' = order"
      using pair_unique [OF _ _ o'(1) pair] ps(1) o'(2) by (auto simp: paired_def)
    then show ?thesis using c o'(3) by simp
  qed
  have "(op_id order, op_total_cents order) \<in> set (sh_invoices (db_app (iw_db w')))"
  proof (rule disjE [OF billing_run_cases [OF run w(4) o(1)]], goal_cases)
    case 1
    then have "has_receipt P (iw_db w) (receipt_key ''billing'' e)" "iw_db w' = iw_db w" by simp_all
    then show ?case using inv iff by simp
  next
    case 2
    then show ?case by (auto simp: billed_db_def)
  qed
  then show ?thesis using o run by blast
qed

section \<open>Properties\<close>

text \<open>A JSON of the examples: it knows one order.\<close>

definition first_order :: order_placed where
  "first_order = \<lparr>op_id = 1, op_customer = ''Ada'', op_total_cents = 4200\<rparr>"

definition first_order_impl :: "order_placed message_impl" where
  "first_order_impl = order_impl
     (\<lambda>order. if order = first_order then Inr ''{}'' else Inl ''unknown'')
     (\<lambda>data. if data = ''{}'' then Inr first_order
        else Inl \<lparr>json_category = JsonSyntax, json_line = 1, json_column = 1, json_quote = ''''\<rparr>)"

lemma first_order_impl_ok: "serde_ok first_order_impl" "msg_type first_order_impl = ORDER_PLACED"
  by (auto simp: serde_ok_def first_order_impl_def order_impl_def split: if_splits)

lemma order_type: "message_type_new ORDER_PLACED = Inr (MessageType ORDER_PLACED)"
  by (simp add: ORDER_PLACED_def message_type_new_def check_message_type_def
      MAX_MESSAGE_TYPE_LENGTH_def allowed_byte_def is_lower_def is_digit_def)

definition shop_start :: shop_world where
  "shop_start =
     \<lparr>iw_db = shop_empty, iw_now = 1000, iw_faults = [], iw_tx_faults = [], iw_ids = [5, 6]\<rparr>"

definition first_envelope :: envelope where
  "first_envelope = envelope_new (MessageId 9) (Timestamp 1709245800 250000000)
     (MessageType ORDER_PLACED) (Source ''/orders'') (ContentType json_content_type) ''{}''"

lemma first_order_encode:
  "encode (MessageId 9, Timestamp 1709245800 250000000) (Source ''/orders'') first_order_impl first_order
    = Some (Inr first_envelope)"
  by (simp add: encode_Inr first_envelope_def json_encode_def first_order_impl_def order_impl_def order_type)

definition first_place :: "(place_error, int) result option \<times> shop_world" where
  "first_place = place_order plain_api first_order_impl (Source ''/orders'')
     (MessageId 9, Timestamp 1709245800 250000000) 1 ''Ada'' 4200 shop_start"

lemma first_place_done:
  "\<exists>w. first_place = (Some (Inr 1), w)
    \<and> iw_db w = placed_db plain_api 1000 first_envelope first_order shop_empty"
  unfolding first_place_def
  by (simp add: place_order_def pool_begin_def pop_def shop_start_def sqlx_statement_def
      tx_statement_def insert_order_def shop_empty_def outbox_publish_def first_order_encode
      [unfolded first_order_def] tx_outbox_def and_then_io_def insert_row_def Let_def pool_commit_def
      placed_db_def first_order_def)

text \<open>
  C10: placing an order is all or nothing: whatever fails, the database is the one before, or it has
  the order and exactly one new outbox row, with the order's message; an id is returned only then.
\<close>

theorem place_order_atomic:
  assumes "place_order P M source fresh identity customer cents w = (r, w')"
  shows "r \<noteq> None \<and> (iw_db w' = iw_db w \<and> (\<forall>i. r \<noteq> Some (Inr i))
    \<or> (\<exists>e. encode fresh source M \<lparr>op_id = identity, op_customer = customer, op_total_cents = cents\<rparr>
          = Some (Inr e)
        \<and> iw_db w' = (iw_db w)
            \<lparr>db_outbox := db_outbox (iw_db w) @ [outbox_row_of (pg_uuid P) (iw_now w) e],
             db_app := (db_app (iw_db w))\<lparr>sh_orders := sh_orders (db_app (iw_db w))
               @ [\<lparr>op_id = identity, op_customer = customer, op_total_cents = cents\<rparr>]\<rparr>\<rparr>
        \<and> (\<forall>i. r = Some (Inr i) \<longrightarrow> i = identity)))"
  using place_order_cases [OF assms] unfolding placed_db_def by blast

theorem place_order_atomic_witness:
  "\<exists>w. first_place = (Some (Inr 1), w) \<and> length (sh_orders (db_app (iw_db w))) = 1
    \<and> length (db_outbox (iw_db w)) = 1"
proof -
  obtain w where w: "first_place = (Some (Inr 1), w)" using first_place_done by blast
  have "iw_db shop_start = shop_empty" by (simp add: shop_start_def)
  then show ?thesis
    using place_order_atomic [OF w [unfolded first_place_def]] w by (auto simp: shop_empty_def)
qed

text \<open>
  C4: in every state the service reaches from empty tables, with any faults, redeliveries and
  duplicates from the broker, no order has two invoices and each invoice is of an order, with its
  total; and any published message can be delivered to billing then: without a new fault the
  delivery succeeds, whether it is the first or a repeated one, its order is invoiced, and the wait
  for that invoice returns.
\<close>

theorem orders_billed_exactly_once:
  assumes "pg_api_ok P" and "serde_ok M" and "msg_type M = ORDER_PLACED"
    and "source_new (source_str source) = Inr source"
    and "iw_db (sv_world s0) = shop_empty" and "sv_published s0 = []"
    and "service_steps P M keep source s0 s"
  shows "distinct (map fst (sh_invoices (db_app (iw_db (sv_world s)))))
    \<and> (\<forall>(i, cents) \<in> set (sh_invoices (db_app (iw_db (sv_world s)))).
        \<exists>order \<in> set (sh_orders (db_app (iw_db (sv_world s)))). op_id order = i \<and> op_total_cents order = cents)
    \<and> (\<forall>e \<in> set (sv_published s). \<forall>w n. iw_db w = iw_db (sv_world s) \<and> iw_faults w = []
        \<and> iw_tx_faults w = [] \<and> ids_fresh w \<longrightarrow>
        (\<exists>order w'. order \<in> set (sh_orders (db_app (iw_db w))) \<and> is_order M order e
          \<and> billing_run P M keep source e n w = (Inr [], w')
          \<and> (op_id order, op_total_cents order) \<in> set (sh_invoices (db_app (iw_db w')))
          \<and> (\<forall>sleep v. iw_db v = iw_db w' \<and> iw_faults v = [] \<longrightarrow>
              (\<exists>v'. invoiced select_invoice sleep (op_id order) v = Some (Inr (), v')))))"
proof -
  have ok: "service_ok P M s"
    using service_steps_ok [OF assms(1-4,7)] service_empty_ok [OF assms(5,6)] by blast
  then obtain ps where ps: "paired P M s ps" "billed P (iw_db (sv_world s)) ps"
    by (auto simp: service_ok_def)
  have "\<forall>(i, cents) \<in> set (sh_invoices (db_app (iw_db (sv_world s)))).
      \<exists>order \<in> set (sh_orders (db_app (iw_db (sv_world s)))). op_id order = i \<and> op_total_cents order = cents"
    using ps(2) by (simp add: billed_def pairedD(1) [OF ps(1)])
  moreover have "distinct (map fst (sh_invoices (db_app (iw_db (sv_world s)))))"
    using ps(2) by (simp add: billed_def)
  moreover have "\<exists>order w'. order \<in> set (sh_orders (db_app (iw_db w))) \<and> is_order M order e
      \<and> billing_run P M keep source e n w = (Inr [], w')
      \<and> (op_id order, op_total_cents order) \<in> set (sh_invoices (db_app (iw_db w')))
      \<and> (\<forall>sleep v. iw_db v = iw_db w' \<and> iw_faults v = [] \<longrightarrow>
          (\<exists>v'. invoiced select_invoice sleep (op_id order) v = Some (Inr (), v')))"
    if e: "e \<in> set (sv_published s)" and w: "iw_db w = iw_db (sv_world s)" "iw_faults w = []"
      "iw_tx_faults w = []" "ids_fresh w" for e w n
  proof -
    obtain order w' where o: "order \<in> set (sh_orders (db_app (iw_db w)))" "is_order M order e"
        "billing_run P M keep source e n w = (Inr [], w')"
        and i: "(op_id order, op_total_cents order) \<in> set (sh_invoices (db_app (iw_db w')))"
      using billing_succeeds [OF ok e w] by blast
    have "op_id order \<in> fst ` set (sh_invoices (db_app (iw_db w')))" using i by force
    then show ?thesis using o i invoiced_at_once by metis
  qed
  ultimately show ?thesis by blast
qed

text \<open>The service places one order and publishes its message, and its faults are over.\<close>

lemma orders_source: "source_new (source_str (Source ''/orders'')) = Inr (Source ''/orders'')"
  by (simp add: source_new_def has_control_or_space_def utf8_chars_ascii is_ascii_def is_control_def
      is_whitespace_def)

lemma first_service_steps:
  "\<exists>w. service_steps plain_api first_order_impl False (Source ''/orders'')
        \<lparr>sv_world = shop_start, sv_published = [], sv_ids = []\<rparr>
        \<lparr>sv_world = w, sv_published = [first_envelope], sv_ids = [MessageId 9]\<rparr>
    \<and> iw_db w = placed_db plain_api 1000 first_envelope first_order shop_empty
    \<and> iw_faults w = [] \<and> iw_tx_faults w = [] \<and> iw_ids w = [5]"
proof -
  let ?steps = "service_steps plain_api first_order_impl False (Source ''/orders'')"
  let ?s0 = "\<lparr>sv_world = shop_start, sv_published = [], sv_ids = []\<rparr>"
  obtain w where w: "first_place = (Some (Inr 1), w)"
      "iw_db w = placed_db plain_api 1000 first_envelope first_order shop_empty"
    using first_place_done by blast
  define w1 where "w1 = w\<lparr>iw_faults := [], iw_tx_faults := [], iw_ids := [5]\<rparr>"
  let ?s1 = "\<lparr>sv_world = w1, sv_published = [first_envelope], sv_ids = [MessageId 9]\<rparr>"
  have range: "pg_time_range 1000" by (simp add: pg_time_range_def second_consts)
  have time: "timestamp_ok (Timestamp 1709245800 250000000)" using sample_time by simp
  have cast: "pg_timestamptz plain_api (timestamp_text (Timestamp 1709245800 250000000)) \<noteq> None"
    using time by (simp add: plain_api_def timestamp_from_text)
  have "envelope_ok first_envelope" using encode_ok [OF first_order_encode _ orders_source] time by simp
  note row = row_envelope_of [OF plain_api_ok this range]
  let ?step = "service_step plain_api first_order_impl False (Source ''/orders'')"
  let ?t0 = "?s0\<lparr>sv_world := w, sv_ids := MessageId 9 # sv_ids ?s0\<rparr>"
  let ?t1 = "?t0\<lparr>sv_published := first_envelope # sv_published ?t0\<rparr>"
  have pl: "place_order plain_api first_order_impl (Source ''/orders'')
      (MessageId 9, Timestamp 1709245800 250000000) 1 ''Ada'' 4200 (sv_world ?s0) = (Some (Inr 1), w)"
    using w(1) by (simp add: first_place_def)
  have "?step ?s0 ?t0" by (rule place [OF pl _ _ time cast]) (simp_all add: shop_start_def range)
  moreover have "?step ?t0 ?t1"
    by (rule publish [OF _ row]) (simp add: w(2) placed_db_def shop_empty_def)
  moreover have "?step ?t1 (?t1\<lparr>sv_world := w1\<rparr>)" by (rule pass) (simp add: w1_def)
  ultimately have steps: "?steps ?s0 ?s1" by (simp add: rtranclp.rtrancl_into_rtrancl)
  have "iw_db w1 = iw_db w \<and> iw_faults w1 = [] \<and> iw_tx_faults w1 = [] \<and> iw_ids w1 = [5]"
    by (simp add: w1_def)
  then show ?thesis using steps w(2) by (intro exI [of _ w1]) simp
qed

theorem orders_billed_exactly_once_witness:
  "\<exists>s w'. service_steps plain_api first_order_impl False (Source ''/orders'')
        \<lparr>sv_world = shop_start, sv_published = [], sv_ids = []\<rparr> s
    \<and> sv_published s = [first_envelope]
    \<and> billing_run plain_api first_order_impl False (Source ''/orders'') first_envelope 1 (sv_world s)
        = (Inr [], w')
    \<and> (1, 4200) \<in> set (sh_invoices (db_app (iw_db w')))
    \<and> invoiced select_invoice id 1 (w'\<lparr>iw_faults := []\<rparr>) \<noteq> None"
proof -
  let ?s0 = "\<lparr>sv_world = shop_start, sv_published = [], sv_ids = []\<rparr>"
  obtain w where steps: "service_steps plain_api first_order_impl False (Source ''/orders'') ?s0
        \<lparr>sv_world = w, sv_published = [first_envelope], sv_ids = [MessageId 9]\<rparr>"
      and w: "iw_db w = placed_db plain_api 1000 first_envelope first_order shop_empty"
        "iw_faults w = []" "iw_tx_faults w = []" "iw_ids w = [5]"
    using first_service_steps by blast
  let ?s1 = "\<lparr>sv_world = w, sv_published = [first_envelope], sv_ids = [MessageId 9]\<rparr>"
  have e0: "iw_db (sv_world ?s0) = shop_empty" "sv_published ?s0 = []" by (simp_all add: shop_start_def)
  have orders: "sh_orders (db_app (iw_db w)) = [first_order]"
    by (simp add: w placed_db_def shop_empty_def)
  have "ids_fresh w" by (simp add: ids_fresh_def w placed_db_def shop_empty_def pop_def)
  then have q: "iw_db w = iw_db (sv_world ?s1) \<and> iw_faults w = [] \<and> iw_tx_faults w = [] \<and> ids_fresh w"
    using w by simp
  have pub: "first_envelope \<in> set (sv_published ?s1)" by simp
  from orders_billed_exactly_once [OF plain_api_ok first_order_impl_ok orders_source e0 steps] pub q
  obtain order w' where o: "order \<in> set (sh_orders (db_app (iw_db w)))"
      "billing_run plain_api first_order_impl False (Source ''/orders'') first_envelope 1 w = (Inr [], w')"
      "(op_id order, op_total_cents order) \<in> set (sh_invoices (db_app (iw_db w')))"
      "\<forall>sleep v. iw_db v = iw_db w' \<and> iw_faults v = [] \<longrightarrow>
        (\<exists>v'. invoiced select_invoice sleep (op_id order) v = Some (Inr (), v'))"
    by blast
  have "order = first_order" using o(1) orders by simp
  then have "(1, 4200) \<in> set (sh_invoices (db_app (iw_db w')))"
    and "invoiced select_invoice id 1 (w'\<lparr>iw_faults := []\<rparr>) \<noteq> None"
    using o(3) o(4) [rule_format, of "w'\<lparr>iw_faults := []\<rparr>" id] by (auto simp: first_order_def)
  then show ?thesis using o(2) steps by (intro exI [of _ ?s1] exI [of _ w']) simp
qed

lemma billing_built:
  assumes "msg_type M = ORDER_PLACED"
  shows "build write (billing_endpoint P M (endpoint_builder_new ''billing'')) =
    Inr \<lparr>ep_name = ''billing'', ep_retry = retry_default, ep_message_types = [MessageType ORDER_PLACED],
         ep_transactional = True,
         ep_pipeline = transactional_run ''billing'' (orders_handlers M) (pg_inbox P False) write\<rparr>"
  using assms order_type
  by (simp add: build_def billing_endpoint_def builder_handle_def builder_inbox_def inbox_of_def
      endpoint_builder_new_def add_handler_def om_contains_def om_get_def orders_handlers_def)

text \<open>
  The bus of the example starts exactly when billing's subscription succeeds, and then runs
  billing's worker, whose pipeline is the one above, a maintenance worker for each of the two tables,
  and the dispatcher of the outbox.
\<close>

lemma orders_bus_runs_billing:
  assumes "msg_type M = ORDER_PLACED"
    and "start (orders_bus P M T outbox_partitions inbox_partitions) s = (r, s')"
  shows "is_ok r = is_ok (fst (tr_subscribe T (endpoint_spec_new ''billing'' [MessageType ORDER_PLACED]) s))
    \<and> (\<forall>bus. r = Inr bus \<longrightarrow> bus_source bus = Source ''/orders'' \<and> (\<exists>ep q. bus_workers bus =
          [EndpointWorker ep q, MaintenanceWorker outbox_partitions partition_settings_default,
           MaintenanceWorker inbox_partitions partition_settings_default, DispatchWorker dispatch_default]
        \<and> ep_name ep = ''billing'' \<and> (\<forall>e n. ep_pipeline ep (handler_context_new (bus_source bus) ''billing'' e n)
            = billing_run P M False (bus_source bus) e n)))"
proof -
  have src: "source_new ''/orders'' = Inr (Source ''/orders'')" using orders_source by simp
  show ?thesis
    using assms(2) src dispatch_default_valid billing_built [OF assms(1), of "store_write (tx_outbox P)" P]
    by (auto simp: orders_bus_def with_endpoint_def with_partitions_def with_outbox_def bus_builder_new_def
        partition_settings_default_def start_def and_then_io_def lift_io_def return_io_def
        collect_endpoint_def billing_run_def billing_endpoint_def builder_handle_def builder_inbox_def endpoint_builder_new_def split: prod.splits sum.splits)
qed

definition quiet_transport :: "bool \<Rightarrow> (shop_world, unit) transport" where
  "quiet_transport up =
     \<lparr>tr_publish = (\<lambda>_ s. (Inr (), s)),
      tr_subscribe = (\<lambda>_ s. (if up then Inr () else Inl Closed, s)),
      tr_publish_error = (\<lambda>_ _ s. (Inr (), s))\<rparr>"

definition quiet_partitions :: "shop_world partition_store" where
  "quiet_partitions =
     \<lparr>ps_try_lock = (\<lambda>s. (Inr True, s)), ps_unlock = id, ps_ensure_partitions = (\<lambda>_ _ _ s. (Inr (), s)),
      ps_default_rows = (\<lambda>s. (Inr 0, s)), ps_expirable = (\<lambda>_ s. (Inr [], s)),
      ps_expire = (\<lambda>_ _ s. (Inr (), s))\<rparr>"

lemma orders_bus_runs_billing_example:
  "\<forall>up. is_ok (fst (start (orders_bus plain_api first_order_impl (quiet_transport up)
      quiet_partitions quiet_partitions) shop_start)) = up"
proof
  fix up
  obtain r s' where st: "start (orders_bus plain_api first_order_impl (quiet_transport up)
      quiet_partitions quiet_partitions) shop_start = (r, s')" by fastforce
  show "is_ok (fst (start (orders_bus plain_api first_order_impl (quiet_transport up)
      quiet_partitions quiet_partitions) shop_start)) = up"
    using orders_bus_runs_billing [OF first_order_impl_ok(2) st] st by (simp add: quiet_transport_def)
qed

end
