(* ===== verification/Consumers.thy ===== *)
theory Consumers
  imports Pg_Inbox
begin

text \<open>
  Consumers that handle copies of messages at the same time (\<open>runtime/src/inbox.rs\<close> over
  \<open>postgres/src/inbox.rs\<close>). The pipeline of \<open>Inbox_Step\<close> is taken apart at its awaits: \<open>run_step\<close> is one
  of them, and run to its end it is \<open>transactional_run\<close>. Any number of runs, of any endpoints and
  messages, interleave their steps, with other sessions in between. The database decides two things
  of it, which are the locale \<open>competing_inbox\<close> and the premises of the relation: the insert of a
  receipt waits while another open transaction holds an uncommitted one of the same key, and an open
  transaction sees what others commit (\<open>READ COMMITTED\<close>). A handler is one step, and no other wait is
  modelled: nothing is said of the locks that the handlers' own statements take.
\<close>

section \<open>The pipeline, one await at a time\<close>

datatype ('s, 't) run_state =
    Starting
  | Begun "('s, 't) erased_handler" 't
  | Handling "('s, 't) erased_handler" 't   \<comment> \<open>the receipt is recorded\<close>
  | Writing "'t handler_context"
  | Committing bool 't "envelope list"   \<comment> \<open>whether this run recorded the receipt\<close>
  | Finished "(failure, envelope list) result"

fun run_step ::
    "string \<Rightarrow> ('s, 't) handlers \<Rightarrow> ('s, 't) inbox_store \<Rightarrow> 't handler_outbox \<Rightarrow> unit handler_context
      \<Rightarrow> ('s, 't) run_state \<Rightarrow> 's \<Rightarrow> ('s, 't) run_state \<times> 's" where
  "run_step endpoint handlers inbox write context Starting s =
     (case find_handler handlers endpoint (ctx_envelope context) of
        Inl e \<Rightarrow> (Finished (Inl e), s)
      | Inr handler \<Rightarrow>
          (case ib_begin inbox s of
             (Inl e, s) \<Rightarrow> (Finished (Inl (failure_from_store e)), s)
           | (Inr transaction, s) \<Rightarrow> (Begun handler transaction, s)))"
| "run_step endpoint handlers inbox write context (Begun handler transaction) s =
     (case ib_record inbox endpoint (ctx_envelope context) transaction of
        (Inl e, _) \<Rightarrow> (Finished (Inl (failure_from_store e)), s)
      | (Inr recorded, transaction) \<Rightarrow>
          (if recorded then Handling handler transaction else Committing False transaction [], s))"
| "run_step endpoint handlers inbox write context (Handling handler transaction) s =
     (case call handler (fst (with_transaction context transaction)) s of
        (Inl e, s) \<Rightarrow> (Finished (Inl e), s)
      | (Inr handled, s) \<Rightarrow> (Writing handled, s))"
| "run_step endpoint handlers inbox write context (Writing handled) s =
     (case write (ctx_transaction handled) (ctx_held handled) of
        (Inl e, _) \<Rightarrow> (Finished (Inl (failure_from_store e)), s)
      | (Inr held, transaction) \<Rightarrow> (Committing True transaction held, s))"
| "run_step endpoint handlers inbox write context (Committing recorded transaction held) s =
     (case ib_commit inbox transaction s of
        (Inl e, s) \<Rightarrow> (Finished (Inl (failure_from_store e)), s)
      | (Inr _, s) \<Rightarrow> (Finished (Inr held), s))"
| "run_step endpoint handlers inbox write context (Finished r) s = (Finished r, s)"

definition run_steps ::
    "string \<Rightarrow> ('s, 't) handlers \<Rightarrow> ('s, 't) inbox_store \<Rightarrow> 't handler_outbox \<Rightarrow> unit handler_context
      \<Rightarrow> nat \<Rightarrow> ('s, 't) run_state \<times> 's \<Rightarrow> ('s, 't) run_state \<times> 's" where
  "run_steps endpoint handlers inbox write context n =
     (\<lambda>(st, s). run_step endpoint handlers inbox write context st s) ^^ n"

lemma run_steps_simps:
  "run_steps n hs I w c 0 (st, s) = (st, s)"
  "run_steps n hs I w c (Suc k) (st, s) = run_steps n hs I w c k (run_step n hs I w c st s)"
  by (simp_all add: run_steps_def funpow_swap1)

lemma run_steps_finished: "run_steps n hs I w c k (Finished r, s) = (Finished r, s)"
  by (induction k) (simp_all add: run_steps_simps)

lemma run_alone:
  "run_steps n hs I w c 5 (Starting, s) =
    (Finished (fst (transactional_run n hs I w c s)), snd (transactional_run n hs I w c s))"
proof -
  have five: "5 = Suc (Suc (Suc (Suc (Suc 0))))" by simp
  show ?thesis
    unfolding five transactional_run_def write_and_commit_def commit_with_def and_then_io_def
      map_err_io_def lift_io_def throw_io_def return_io_def
    by (simp add: run_steps_simps run_steps_finished split: sum.splits prod.splits)
qed

section \<open>Interleaved runs\<close>

type_synonym ('s, 't) consumer = "string \<times> unit handler_context \<times> ('s, 't) run_state"

definition consumer_key :: "('s, 't) consumer \<Rightarrow> receipt_key" where
  "consumer_key r = receipt_key (fst r) (ctx_envelope (fst (snd r)))"

text \<open>Whether the run's open transaction holds the receipt it inserted.\<close>

fun holds_receipt :: "('s, 't) run_state \<Rightarrow> bool" where
  "holds_receipt (Handling handler t) = True"
| "holds_receipt (Writing handled) = True"
| "holds_receipt (Committing recorded t held) = recorded"
| "holds_receipt st = False"

text \<open>What another commit, from \<open>old\<close> to \<open>new\<close>, changes in an open transaction.\<close>

fun rebase_state :: "('d \<Rightarrow> 'd \<Rightarrow> 't \<Rightarrow> 't) \<Rightarrow> 'd \<Rightarrow> 'd \<Rightarrow> ('s, 't) run_state \<Rightarrow> ('s, 't) run_state" where
  "rebase_state f old new (Begun handler t) = Begun handler (f old new t)"
| "rebase_state f old new (Handling handler t) = Handling handler (f old new t)"
| "rebase_state f old new (Writing handled) =
     Writing (handled\<lparr>ctx_transaction := f old new (ctx_transaction handled)\<rparr>)"
| "rebase_state f old new (Committing recorded t held) = Committing recorded (f old new t) held"
| "rebase_state f old new st = st"

definition rebase_all ::
    "('d \<Rightarrow> 'd \<Rightarrow> 't \<Rightarrow> 't) \<Rightarrow> 'd \<Rightarrow> 'd \<Rightarrow> ('s, 't) consumer list \<Rightarrow> ('s, 't) consumer list" where
  "rebase_all f old new runs =
     (if old = new then runs else map (\<lambda>(n, c, st). (n, c, rebase_state f old new st)) runs)"

text \<open>
  A run may take its step when the id it needs next is a new one, and, where it inserts its receipt,
  no other run holds one of the same key.
\<close>

definition may_step ::
    "(receipt_key \<Rightarrow> receipt_key \<Rightarrow> bool) \<Rightarrow> ('s \<Rightarrow> bool) \<Rightarrow> ('t \<Rightarrow> bool) \<Rightarrow> ('s, 't) consumer list
      \<Rightarrow> nat \<Rightarrow> 's \<Rightarrow> bool" where
  "may_step same ok fresh runs i s \<longleftrightarrow>
     (case snd (snd (runs ! i)) of
        Starting \<Rightarrow> ok s
      | Begun handler t \<Rightarrow> fresh t
          \<and> (\<forall>j < length runs. holds_receipt (snd (snd (runs ! j))) \<longrightarrow>
               \<not> same (consumer_key (runs ! j)) (consumer_key (runs ! i)))
      | _ \<Rightarrow> True)"

text \<open>The log has the key of every step of a run that changed the database.\<close>

inductive consume ::
    "('s, 't) inbox_store \<Rightarrow> ('s \<Rightarrow> 'd) \<Rightarrow> ('d \<Rightarrow> receipt_key \<Rightarrow> bool) \<Rightarrow> (receipt_key \<Rightarrow> receipt_key \<Rightarrow> bool)
      \<Rightarrow> ('s \<Rightarrow> bool) \<Rightarrow> ('t \<Rightarrow> bool) \<Rightarrow> ('d \<Rightarrow> 'd \<Rightarrow> 't \<Rightarrow> 't) \<Rightarrow> (string \<Rightarrow> ('s, 't) handlers) \<Rightarrow> 't handler_outbox
      \<Rightarrow> 's \<times> ('s, 't) consumer list \<times> receipt_key list
      \<Rightarrow> 's \<times> ('s, 't) consumer list \<times> receipt_key list \<Rightarrow> bool"
  for I db has same ok fresh f H w where
  arrive: "consume I db has same ok fresh f H w (s, runs, log) (s, runs @ [(n, c, Starting)], log)"
| go: "i < length runs \<Longrightarrow> runs ! i = (n, c, st) \<Longrightarrow> may_step same ok fresh runs i s \<Longrightarrow>
    run_step n (H n) I w c st s = (st', s') \<Longrightarrow>
    consume I db has same ok fresh f H w (s, runs, log)
      (s', rebase_all f (db s) (db s') (runs[i := (n, c, st')]),
       log @ (if db s' = db s then [] else [receipt_key n (ctx_envelope c)]))"
| lost: "i < length runs \<Longrightarrow> runs ! i = (n, c, st) \<Longrightarrow>
    consume I db has same ok fresh f H w (s, runs, log) (s, runs[i := (n, c, Finished r)], log)"
| other: "\<forall>k. has (db s') k \<longleftrightarrow> has (db s) k \<Longrightarrow>
    consume I db has same ok fresh f H w (s, runs, log) (s', rebase_all f (db s) (db s') runs, log)"

lemma consume_step:
  assumes "i < length runs" and "runs ! i = (n, c, st)" and "may_step same ok fresh runs i s"
    and "hs = H n" and "run_step n hs I w c st s = (st', s')"
  shows "consume I db has same ok fresh f H w (s, runs, log)
    (s', rebase_all f (db s) (db s') (runs[i := (n, c, st')]),
     log @ (if db s' = db s then [] else [receipt_key n (ctx_envelope c)]))"
  using assms(1-3,5) unfolding assms(4) by (rule consume.go)

definition handler_keeps_receipts ::
    "('s \<Rightarrow> 'd) \<Rightarrow> ('t \<Rightarrow> 'd) \<Rightarrow> ('d \<Rightarrow> receipt_key \<Rightarrow> bool) \<Rightarrow> ('s, 't) erased_handler \<Rightarrow> bool" where
  "handler_keeps_receipts db view has h \<longleftrightarrow>
     (\<forall>c s r s'. call h c s = (r, s') \<longrightarrow> db s' = db s
        \<and> (\<forall>c'. r = Inr c' \<longrightarrow>
             (\<forall>k. has (view (ctx_transaction c')) k \<longleftrightarrow> has (view (ctx_transaction c)) k)))"

definition write_keeps_receipts :: "('t \<Rightarrow> 'd) \<Rightarrow> ('d \<Rightarrow> receipt_key \<Rightarrow> bool) \<Rightarrow> 't handler_outbox \<Rightarrow> bool" where
  "write_keeps_receipts view has w \<longleftrightarrow>
     (\<forall>t held held' t'. w t held = (Inr held', t') \<longrightarrow> (\<forall>k. has (view t') k \<longleftrightarrow> has (view t) k))"

locale competing_inbox = inbox_contract I db view has ok fresh
  for I :: "('s, 't) inbox_store" and db :: "'s \<Rightarrow> 'd" and view :: "'t \<Rightarrow> 'd"
    and has :: "'d \<Rightarrow> receipt_key \<Rightarrow> bool" and ok :: "'s \<Rightarrow> bool" and fresh :: "'t \<Rightarrow> bool" +
  fixes same :: "receipt_key \<Rightarrow> receipt_key \<Rightarrow> bool"
    and rebase :: "'d \<Rightarrow> 'd \<Rightarrow> 't \<Rightarrow> 't"
  assumes same_refl: "same k k" and same_sym: "same k k' \<Longrightarrow> same k' k"
    and same_trans: "same a b \<Longrightarrow> same b k \<Longrightarrow> same a k"
    and same_has: "same k k' \<Longrightarrow> has d k = has d k'"
    and rebase_unchanged: "view t = old \<Longrightarrow> view (rebase old new t) = new"
    and rebase_has: "(\<forall>k. has old k \<longrightarrow> has new k) \<Longrightarrow>
      has (view (rebase old new t)) k \<longleftrightarrow> has new k \<or> has (view t) k"
    and record_adds: "ib_record I n env t = (Inr True, t') \<Longrightarrow>
      has (view t') k \<longleftrightarrow> has (view t) k \<or> same k (receipt_key n env)"
begin

text \<open>What the open transaction of a run sees, against the database \<open>d\<close>.\<close>

fun run_ok :: "'d \<Rightarrow> receipt_key \<Rightarrow> ('s, 't) run_state \<Rightarrow> bool" where
  "run_ok d k (Begun h t) = (handler_keeps_receipts db view has h \<and> view t = d)"
| "run_ok d k (Handling h t) = (handler_keeps_receipts db view has h \<and> \<not> has d k \<and> (\<forall>k'. has (view t) k' \<longleftrightarrow> has d k' \<or> same k' k))"
| "run_ok d k (Writing c) =
     (\<not> has d k \<and> (\<forall>k'. has (view (ctx_transaction c)) k' \<longleftrightarrow> has d k' \<or> same k' k))"
| "run_ok d k (Committing recorded t held) =
     (if recorded then \<not> has d k \<and> (\<forall>k'. has (view t) k' \<longleftrightarrow> has d k' \<or> same k' k) else view t = d \<and> has d k)"
| "run_ok d k st = True"

lemma rebase_ok:
  assumes "run_ok old k st" and "\<forall>k'. has old k' \<longrightarrow> has new k'" and "holds_receipt st \<Longrightarrow> \<not> has new k"
  shows "run_ok new k (rebase_state rebase old new st)" and "holds_receipt (rebase_state rebase old new st) = holds_receipt st"
proof -
  show "run_ok new k (rebase_state rebase old new st)"
  proof (cases st)
    case (Committing recorded t held)
    then show ?thesis
      using assms rebase_unchanged [of t old new] rebase_has [OF assms(2), of t]
      by (cases recorded) (simp_all del: split_paired_All, blast+)
  qed (use assms rebase_unchanged rebase_has [OF assms(2)] in auto)
  show "holds_receipt (rebase_state rebase old new st) = holds_receipt st" by (cases st) simp_all
qed

lemma commit_cases:
  assumes "ib_commit I t s = (r, s')"
  shows "db s' = view t \<or> \<not> is_ok r \<and> db s' = db s"
  using assms commit_ok commit_error by (cases r) fastforce+

text \<open>A step leaves the database as it is, or it commits the transaction with the run's receipt.\<close>

definition stays :: "receipt_key \<Rightarrow> 's \<Rightarrow> ('s, 't) run_state \<Rightarrow> ('s, 't) run_state \<times> 's \<Rightarrow> bool" where
  "stays k s st = (\<lambda>(st', s'). db s' = db s \<and> run_ok (db s) k st'
     \<and> (holds_receipt st' \<longrightarrow> holds_receipt st \<or> (\<exists>h t. st = Begun h t)))"

definition commits :: "receipt_key \<Rightarrow> 's \<Rightarrow> ('s, 't) run_state \<Rightarrow> ('s, 't) run_state \<times> 's \<Rightarrow> bool" where
  "commits k s st = (\<lambda>(st', s'). holds_receipt st \<and> (\<exists>r. st' = Finished r) \<and> \<not> has (db s) k
     \<and> (\<forall>k'. has (db s') k' \<longleftrightarrow> has (db s) k' \<or> same k' k))"

lemma begin_stays:
  assumes "\<forall>t h. om_get hs t = Some h \<longrightarrow> handler_keeps_receipts db view has h" and "ok s"
  shows "stays k s Starting (run_step n hs I w c Starting s)"
proof (cases "find_handler hs n (ctx_envelope c)")
  case (Inl e)
  then show ?thesis by (simp add: stays_def)
next
  case (Inr h)
  then have h: "handler_keeps_receipts db view has h"
    using assms(1) by (auto simp: find_handler_def result_simps)
  obtain b u where b: "ib_begin I s = (b, u)" by fastforce
  then show ?thesis
    using Inr h assms(2) begin_ok [of s] begin_error [of s] by (cases b) (auto simp: stays_def)
qed

lemma record_stays:
  assumes st: "run_ok (db s) (receipt_key n (ctx_envelope c)) (Begun h t)" and new: "fresh t"
  shows "stays (receipt_key n (ctx_envelope c)) s (Begun h t) (run_step n hs I w c (Begun h t) s)"
proof -
  obtain q t1 where q: "ib_record I n (ctx_envelope c) t = (q, t1)" by fastforce
  consider (err) e where "q = Inl e" | (old) "q = Inr False" | (added) "q = Inr True"
    by (cases q) auto
  then show ?thesis
  proof cases
    case err
    then show ?thesis using q by (simp add: stays_def)
  next
    case old
    then have "view t1 = db s \<and> has (db s) (receipt_key n (ctx_envelope c))"
      using record_old [of t n "ctx_envelope c" t1] q new st by simp
    then show ?thesis using q old by (simp add: stays_def)
  next
    case added
    then have r: "ib_record I n (ctx_envelope c) t = (Inr True, t1)" using q by simp
    show ?thesis using q added st record_new [OF r] record_adds [OF r] by (simp add: stays_def)
  qed
qed

lemma commit_step:
  assumes st: "run_ok (db s) k (Committing recorded t held)"
    and step: "run_step n hs I w c (Committing recorded t held) s = (st', s')"
  shows "stays k s (Committing recorded t held) (st', s') \<or> commits k s (Committing recorded t held) (st', s')"
proof -
  obtain p where p: "ib_commit I t s = (p, s')" and fin: "\<exists>r. st' = Finished r"
    using step by (auto split: prod.splits sum.splits)
  consider "db s' = db s" | "db s' = view t" using commit_cases [OF p] by blast
  then show ?thesis
  proof cases
    case 1
    then show ?thesis using fin by (auto simp: stays_def)
  next
    case 2
    then show ?thesis using st fin by (cases recorded) (auto simp: stays_def commits_def)
  qed
qed

lemma run_step_cases:
  assumes step: "run_step n hs I w c st s = (st', s')"
    and st: "run_ok (db s) (receipt_key n (ctx_envelope c)) st"
    and start: "st = Starting \<Longrightarrow> ok s" and new: "\<And>h t. st = Begun h t \<Longrightarrow> fresh t"
    and hs: "\<forall>t h. om_get hs t = Some h \<longrightarrow> handler_keeps_receipts db view has h"
    and w: "write_keeps_receipts view has w"
  shows "stays (receipt_key n (ctx_envelope c)) s st (st', s')
    \<or> commits (receipt_key n (ctx_envelope c)) s st (st', s')"
proof (cases st)
  case Starting
  then show ?thesis using begin_stays [OF hs start] step by metis
next
  case (Begun h t)
  then show ?thesis using record_stays [OF st [unfolded Begun] new] step by metis
next
  case (Handling h t)
  obtain p u where p: "call h (fst (with_transaction c t)) s = (p, u)" by fastforce
  then show ?thesis
    using step Handling st by (cases p) (auto simp: stays_def handler_keeps_receipts_def with_transaction_def)
next
  case (Writing c')
  obtain p t where p: "w (ctx_transaction c') (ctx_held c') = (p, t)" by fastforce
  then show ?thesis using step Writing st w by (cases p) (auto simp: stays_def write_keeps_receipts_def)
next
  case (Committing recorded t held)
  then show ?thesis using commit_step st step by metis
next
  case (Finished r)
  then show ?thesis using step by (auto simp: stays_def)
qed

definition consumers_ok :: "'s \<times> ('s, 't) consumer list \<times> receipt_key list \<Rightarrow> bool" where
  "consumers_ok = (\<lambda>(s, runs, log).
     (\<forall>i < length runs. run_ok (db s) (consumer_key (runs ! i)) (snd (snd (runs ! i))))
     \<and> (\<forall>i < length runs. \<forall>j < length runs. i \<noteq> j \<and> holds_receipt (snd (snd (runs ! i)))
          \<and> holds_receipt (snd (snd (runs ! j))) \<longrightarrow> \<not> same (consumer_key (runs ! i)) (consumer_key (runs ! j)))
     \<and> sorted_wrt (\<lambda>a b. \<not> same a b) log \<and> (\<forall>k \<in> set log. has (db s) k))"

lemma holds_not_committed: "run_ok d k st \<Longrightarrow> holds_receipt st \<Longrightarrow> \<not> has d k"
  by (cases st) auto

lemma consumers_okD:
  assumes "consumers_ok (s, runs, log)" and "i < length runs"
  shows "run_ok (db s) (consumer_key (runs ! i)) (snd (snd (runs ! i)))"
    and "holds_receipt (snd (snd (runs ! i))) \<Longrightarrow> \<not> has (db s) (consumer_key (runs ! i))"
    and "holds_receipt (snd (snd (runs ! i))) \<Longrightarrow> j < length runs \<Longrightarrow> i \<noteq> j \<Longrightarrow>
      holds_receipt (snd (snd (runs ! j))) \<Longrightarrow> \<not> same (consumer_key (runs ! i)) (consumer_key (runs ! j))"
proof -
  show run: "run_ok (db s) (consumer_key (runs ! i)) (snd (snd (runs ! i)))"
    using assms by (simp add: consumers_ok_def)
  show "\<not> has (db s) (consumer_key (runs ! i))" if "holds_receipt (snd (snd (runs ! i)))"
    by (rule holds_not_committed [OF run that])
  show "holds_receipt (snd (snd (runs ! i))) \<Longrightarrow> j < length runs \<Longrightarrow> i \<noteq> j \<Longrightarrow>
      holds_receipt (snd (snd (runs ! j))) \<Longrightarrow> \<not> same (consumer_key (runs ! i)) (consumer_key (runs ! j))"
    using assms by (simp add: consumers_ok_def)
qed

lemma rebase_all_ok:
  assumes runs: "\<forall>i < length runs. run_ok d (consumer_key (runs ! i)) (snd (snd (runs ! i)))"
    and keeps: "\<forall>k. has d k \<longrightarrow> has d' k"
    and held: "\<forall>i < length runs. holds_receipt (snd (snd (runs ! i))) \<longrightarrow> \<not> has d' (consumer_key (runs ! i))"
  shows "length (rebase_all rebase d d' runs) = length runs"
    and "i < length runs \<Longrightarrow> run_ok d' (consumer_key (runs ! i))
      (snd (snd (rebase_all rebase d d' runs ! i)))
      \<and> consumer_key (rebase_all rebase d d' runs ! i) = consumer_key (runs ! i)
      \<and> holds_receipt (snd (snd (rebase_all rebase d d' runs ! i))) = holds_receipt (snd (snd (runs ! i)))"
proof -
  show "length (rebase_all rebase d d' runs) = length runs" by (simp add: rebase_all_def)
  assume i: "i < length runs"
  obtain n c st where r: "runs ! i = (n, c, st)" by (cases "runs ! i")
  have "run_ok d (consumer_key (n, c, st)) st" "holds_receipt st \<Longrightarrow> \<not> has d' (consumer_key (n, c, st))"
    using runs held i r by fastforce+
  then show "run_ok d' (consumer_key (runs ! i))
      (snd (snd (rebase_all rebase d d' runs ! i)))
      \<and> consumer_key (rebase_all rebase d d' runs ! i) = consumer_key (runs ! i)
      \<and> holds_receipt (snd (snd (rebase_all rebase d d' runs ! i))) = holds_receipt (snd (snd (runs ! i)))"
    using rebase_ok [of d "consumer_key (n, c, st)" st d'] keeps i r
    by (cases "d = d'") (simp_all add: rebase_all_def consumer_key_def)
qed

text \<open>Changing one run: the others keep what they have.\<close>

lemma consumers_ok_update:
  assumes ok: "consumers_ok (s, runs, log)" and i: "i < length runs" "runs ! i = (n, c, st)"
    and st': "run_ok (db s) (receipt_key n (ctx_envelope c)) st'"
    and held: "holds_receipt st' \<Longrightarrow> holds_receipt st \<or> (\<forall>j < length runs.
      holds_receipt (snd (snd (runs ! j))) \<longrightarrow> \<not> same (consumer_key (runs ! j)) (receipt_key n (ctx_envelope c)))"
    and db: "db s' = db s"
  shows "consumers_ok (s', runs[i := (n, c, st')], log)"
proof -
  have key: "consumer_key (runs[i := (n, c, st')] ! j) = consumer_key (runs ! j)" if "j < length runs" for j
    using that i by (cases "j = i") (simp_all add: consumer_key_def)
  have "run_ok (db s) (consumer_key (runs ! j)) (snd (snd (runs[i := (n, c, st')] ! j)))"
    if "j < length runs" for j
    using that ok i st' by (cases "j = i") (simp_all add: consumers_ok_def consumer_key_def)
  moreover have "\<not> same (consumer_key (runs ! j)) (consumer_key (runs ! l))"
    if "j < length runs" "l < length runs" "j \<noteq> l" "holds_receipt (snd (snd (runs[i := (n, c, st')] ! j)))"
      "holds_receipt (snd (snd (runs[i := (n, c, st')] ! l)))" for j l
  proof -
    have two: "\<not> same (consumer_key (runs ! j)) (consumer_key (runs ! l))"
      if "j < length runs" "l < length runs" "j \<noteq> l" "holds_receipt (snd (snd (runs ! j)))"
        "holds_receipt (snd (snd (runs ! l)))" for j l
      using ok that by (simp add: consumers_ok_def)
    have one: "\<not> same (consumer_key (runs ! l)) (consumer_key (runs ! i))"
      if "l < length runs" "l \<noteq> i" "holds_receipt (snd (snd (runs ! l)))" "holds_receipt st'" for l
      using two [OF that(1) i(1) that(2,3)] held [OF that(4)] that i by (auto simp: consumer_key_def)
    then have one': "\<not> same (consumer_key (runs ! i)) (consumer_key (runs ! l))"
      if "l < length runs" "l \<noteq> i" "holds_receipt (snd (snd (runs ! l)))" "holds_receipt st'" for l
      using that same_sym by blast
    show ?thesis
      using that two [of j l] one [of j] one' [of l] i by (cases "j = i"; cases "l = i") auto
  qed
  ultimately show ?thesis using ok key db by (simp add: consumers_ok_def)
qed

lemma consumers_ok_rebase:
  assumes ok: "consumers_ok (s, runs, log)" and keeps: "\<forall>k. has (db s) k \<longrightarrow> has (db s') k"
    and held: "\<forall>i < length runs. holds_receipt (snd (snd (runs ! i))) \<longrightarrow> \<not> has (db s') (consumer_key (runs ! i))"
    and log: "sorted_wrt (\<lambda>a b. \<not> same a b) log'" "\<forall>k \<in> set log'. has (db s') k"
  shows "consumers_ok (s', rebase_all rebase (db s) (db s') runs, log')"
proof -
  have runs: "\<forall>i < length runs. run_ok (db s) (consumer_key (runs ! i)) (snd (snd (runs ! i)))"
    using ok by (simp add: consumers_ok_def)
  note r = rebase_all_ok [OF runs keeps held]
  show ?thesis using ok log r by (simp add: consumers_ok_def)
qed

lemma consumers_ok_commit:
  assumes ok: "consumers_ok (s, runs, log)" and i: "i < length runs" "runs ! i = (n, c, st)"
    and commit: "commits (receipt_key n (ctx_envelope c)) s st (st', s')"
  shows "consumers_ok (s', rebase_all rebase (db s) (db s') (runs[i := (n, c, st')]),
    log @ [receipt_key n (ctx_envelope c)])" and "db s' \<noteq> db s"
proof -
  let ?k = "receipt_key n (ctx_envelope c)"
  have key: "consumer_key (runs ! i) = ?k" using i(2) by (simp add: consumer_key_def)
  obtain r where r: "holds_receipt st" "st' = Finished r" "\<not> has (db s) ?k"
      "\<forall>k. has (db s') k \<longleftrightarrow> has (db s) k \<or> same k ?k"
    using commit unfolding commits_def by blast
  show "db s' \<noteq> db s" using r(3,4) same_refl by metis
  have u: "consumers_ok (s, runs[i := (n, c, st')], log)"
    using consumers_ok_update [OF ok i, of st' s] r(2) by simp
  have "\<not> has (db s') (consumer_key (runs[i := (n, c, st')] ! j))"
    if "j < length (runs[i := (n, c, st')])" "holds_receipt (snd (snd (runs[i := (n, c, st')] ! j)))" for j
  proof -
    have j: "j \<noteq> i" "j < length runs" using that r(2) i(1) by auto
    then have "\<not> same (consumer_key (runs ! j)) ?k" "\<not> has (db s) (consumer_key (runs ! j))"
      using consumers_okD(2,3) [OF ok j(2)] i that r(1) key j by force+
    then show ?thesis using r(4) j by (simp del: split_paired_All)
  qed
  moreover have "\<not> same k ?k \<and> has (db s') k" if "k \<in> set log" for k
    using that ok r(3,4) same_has [of k ?k "db s"]
    by (auto simp: consumers_ok_def simp del: split_paired_All)
  then have "sorted_wrt (\<lambda>a b. \<not> same a b) (log @ [?k])" "\<forall>k \<in> set (log @ [?k]). has (db s') k"
    using ok r(4) same_refl [of ?k]
    by (auto simp: consumers_ok_def sorted_wrt_append simp del: split_paired_All)
  moreover have "\<forall>k. has (db s) k \<longrightarrow> has (db s') k" using r(4) by blast
  ultimately show "consumers_ok (s', rebase_all rebase (db s) (db s') (runs[i := (n, c, st')]), log @ [?k])"
    using consumers_ok_rebase [OF u] by blast
qed

lemma go_cases:
  assumes "\<forall>n t h. om_get (H n) t = Some h \<longrightarrow> handler_keeps_receipts db view has h"
    and w: "write_keeps_receipts view has w" and ok: "consumers_ok (s, runs, log)"
    and i: "i < length runs" "runs ! i = (n, c, st)" and may: "may_step same ok fresh runs i s"
    and step: "run_step n (H n) I w c st s = (st', s')"
  shows "stays (receipt_key n (ctx_envelope c)) s st (st', s') \<or> commits (receipt_key n (ctx_envelope c)) s st (st', s')"
proof -
  have hs: "\<forall>t h. om_get (H n) t = Some h \<longrightarrow> handler_keeps_receipts db view has h" using assms(1) by blast
  have "run_ok (db s) (receipt_key n (ctx_envelope c)) st"
    using consumers_okD(1) [OF ok i(1)] i(2) by (simp add: consumer_key_def)
  moreover have "st = Starting \<Longrightarrow> ok s" "\<And>h t. st = Begun h t \<Longrightarrow> fresh t"
    using i(2) may by (simp_all add: may_step_def)
  ultimately show ?thesis using run_step_cases [OF step _ _ _ hs w] by blast
qed

lemma consume_keeps:
  assumes hs: "\<forall>n t h. om_get (H n) t = Some h \<longrightarrow> handler_keeps_receipts db view has h"
    and w: "write_keeps_receipts view has w"
    and step: "consume I db has same ok fresh rebase H w x y" and x: "consumers_ok x"
  shows "consumers_ok y"
  using step x
proof (induction rule: consume.induct)
  case (arrive s runs log n c)
  then show ?case
    by (auto simp: consumers_ok_def nth_append less_Suc_eq)
next
  case (go i runs n c st s st' s' log)
  let ?k = "receipt_key n (ctx_envelope c)"
  have key: "consumer_key (runs ! i) = ?k" using go.hyps(2) by (simp add: consumer_key_def)
  have may: "\<forall>j < length runs. holds_receipt (snd (snd (runs ! j))) \<longrightarrow>
      \<not> same (consumer_key (runs ! j)) ?k" if "st = Begun h t" for h t
    using go.hyps(2,3) key that by (simp add: may_step_def)
  consider "stays ?k s st (st', s')" | "commits ?k s st (st', s')"
    using go_cases [OF hs w go.prems go.hyps] by blast
  then show ?case
  proof cases
    case 1
    then have s: "db s' = db s" "run_ok (db s) ?k st'"
        "holds_receipt st' \<longrightarrow> holds_receipt st \<or> (\<exists>h t. st = Begun h t)"
      by (simp_all add: stays_def)
    then show ?thesis
      using consumers_ok_update [OF go.prems go.hyps(1,2) s(2) _ s(1)] may by (auto simp: rebase_all_def)
  next
    case 2
    then show ?thesis using consumers_ok_commit [OF go.prems go.hyps(1,2) 2] by simp
  qed
next
  case lost
  show ?case by (rule consumers_ok_update [OF lost.prems lost.hyps]) simp_all
next
  case (other s' s runs log)
  have "\<forall>i < length runs. holds_receipt (snd (snd (runs ! i))) \<longrightarrow> \<not> has (db s') (consumer_key (runs ! i))"
    using other.hyps consumers_okD(2) [OF other.prems] by blast
  moreover have "sorted_wrt (\<lambda>a b. \<not> same a b) log" "\<forall>k \<in> set log. has (db s') k"
    using other.prems other.hyps by (auto simp: consumers_ok_def)
  ultimately show ?case using consumers_ok_rebase [OF other.prems] other.hyps by blast
qed

lemma consume_steps_ok:
  assumes "\<forall>n t h. om_get (H n) t = Some h \<longrightarrow> handler_keeps_receipts db view has h"
    and "write_keeps_receipts view has w" and "(consume I db has same ok fresh rebase H w)\<^sup>*\<^sup>* (s, [], []) (s', runs, log)"
  shows "consumers_ok (s', runs, log)"
  using assms(3)
proof (induction rule: rtranclp_induct [of _ "(s, [], [])" "(s', runs, log)", consumes 1])
  case base
  show ?case by (simp add: consumers_ok_def)
next
  case (step y z)
  then show ?case using consume_keeps [OF assms(1,2)] by blast
qed

text \<open>
  The receipts of the database are those it had at first and those of the runs in the log, none of
  which it had.
\<close>

definition receipts_of :: "'d \<Rightarrow> 's \<times> ('s, 't) consumer list \<times> receipt_key list \<Rightarrow> bool" where
  "receipts_of d0 = (\<lambda>(s, runs, log).
     (\<forall>k. has (db s) k \<longleftrightarrow> has d0 k \<or> (\<exists>l \<in> set log. same k l)) \<and> (\<forall>l \<in> set log. \<not> has d0 l))"

lemma receipts_commit:
  assumes "receipts_of d0 (s, runs, log)" and "commits k s st (st', s')"
  shows "receipts_of d0 (s', runs', log @ [k])"
  using assms unfolding receipts_of_def commits_def by (simp del: split_paired_All split_paired_Ex) blast

lemma consume_receipts:
  assumes hs: "\<forall>n t h. om_get (H n) t = Some h \<longrightarrow> handler_keeps_receipts db view has h"
    and w: "write_keeps_receipts view has w"
    and step: "consume I db has same ok fresh rebase H w x y" and x: "consumers_ok x" "receipts_of d0 x"
  shows "receipts_of d0 y"
  using step x
proof (induction rule: consume.induct)
  case (go i runs n c st s st' s' log)
  let ?k = "receipt_key n (ctx_envelope c)"
  consider "stays ?k s st (st', s')" | "commits ?k s st (st', s')"
    using go_cases [OF hs w go.prems(1) go.hyps] by blast
  then show ?case
  proof cases
    case 1
    then show ?thesis using go.prems(2) by (simp add: stays_def receipts_of_def)
  next
    case 2
    then show ?thesis
      using receipts_commit [OF go.prems(2) 2] consumers_ok_commit(2) [OF go.prems(1) go.hyps(1,2) 2] by simp
  qed
qed (simp_all add: receipts_of_def)

lemma consume_steps_receipts:
  assumes "\<forall>n t h. om_get (H n) t = Some h \<longrightarrow> handler_keeps_receipts db view has h"
    and "write_keeps_receipts view has w" and "(consume I db has same ok fresh rebase H w)\<^sup>*\<^sup>* (s, [], []) y"
  shows "consumers_ok y \<and> receipts_of (db s) y"
  using assms(3)
proof (induction rule: rtranclp_induct)
  case base
  show ?case by (simp add: consumers_ok_def receipts_of_def)
next
  case (step y z)
  then show ?case using consume_keeps [OF assms(1,2)] consume_receipts [OF assms(1,2)] by blast
qed

lemma log_once:
  assumes "sorted_wrt (\<lambda>a b. \<not> same a b) log"
  shows "length (filter (same k) log) \<le> 1"
  using assms
proof (induction log)
  case (Cons a log)
  have "filter (same k) log = []" if "same k a"
    using Cons.prems same_trans [OF same_sym [OF that]] by (auto simp: filter_empty_conv)
  then show ?case using Cons by auto
qed simp

text \<open>A run that succeeds leaves the receipt, whoever recorded it.\<close>

lemma success_recorded:
  assumes "run_ok (db s) (receipt_key n (ctx_envelope c)) st" and "\<forall>r. st \<noteq> Finished r"
    and "run_step n hs I w c st s = (Finished (Inr held), s')"
  shows "has (db s') (receipt_key n (ctx_envelope c))"
proof -
  obtain recorded t h where st: "st = Committing recorded t h"
    using assms(2,3) by (cases st) (auto split: sum.splits prod.splits if_splits)
  then obtain u where "ib_commit I t s = (Inr u, s')"
    using assms(3) by (auto split: sum.splits prod.splits)
  then have "db s' = view t" by (rule commit_ok)
  then show ?thesis using assms(1) st same_refl by (cases recorded) (simp_all del: split_paired_All)
qed

lemma success_once:
  assumes hs: "\<forall>n t h. om_get (H n) t = Some h \<longrightarrow> handler_keeps_receipts db view has h"
    and w: "write_keeps_receipts view has w"
    and steps: "(consume I db has same ok fresh rebase H w)\<^sup>*\<^sup>* (s0, [], []) (s, runs, log)"
    and i: "i < length runs" "runs ! i = (n, c, st)" "\<forall>r. st \<noteq> Finished r" and may: "may_step same ok fresh runs i s"
    and run: "run_step n (H n) I w c st s = (Finished (Inr held), s')"
  shows "has (db s') (receipt_key n (ctx_envelope c))
    \<and> length (filter (same (receipt_key n (ctx_envelope c)))
        (log @ (if db s' = db s then [] else [receipt_key n (ctx_envelope c)])))
      = (if has (db s0) (receipt_key n (ctx_envelope c)) then 0 else 1)"
    (is "has _ ?k \<and> length (filter _ ?log) = _")
proof -
  have ok: "consumers_ok (s, runs, log)" using consume_steps_receipts [OF hs w steps] by blast
  have "run_ok (db s) ?k st" using consumers_okD(1) [OF ok i(1)] i(2) by (simp add: consumer_key_def)
  from success_recorded [OF this i(3) run] have has: "has (db s') ?k" .
  have "(consume I db has same ok fresh rebase H w)\<^sup>*\<^sup>* (s0, [], [])
      (s', rebase_all rebase (db s) (db s') (runs[i := (n, c, Finished (Inr held))]), ?log)"
    using steps consume_step [where H = H, OF i(1,2) may refl run] by (rule rtranclp.rtrancl_into_rtrancl)
  from consume_steps_receipts [OF hs w this]
  have log: "sorted_wrt (\<lambda>a b. \<not> same a b) ?log" "has (db s0) ?k \<or> (\<exists>l \<in> set ?log. same ?k l)"
      "\<forall>l \<in> set ?log. \<not> has (db s0) l"
    using has unfolding consumers_ok_def receipts_of_def prod.case by blast+
  show ?thesis
  proof (cases "has (db s0) ?k")
    case True
    have "\<not> same ?k l" if "l \<in> set ?log" for l using True log(3) that same_has [of ?k l "db s0"] by blast
    then have "filter (same ?k) ?log = []" by (simp add: filter_empty_conv del: split_paired_All)
    then show ?thesis using has True by simp
  next
    case False
    then have "filter (same ?k) ?log \<noteq> []" using log(2) by (auto simp: filter_empty_conv)
    then have "0 < length (filter (same ?k) ?log)" by (simp only: length_greater_0_conv not_False_eq_True)
    with log_once [OF log(1), of ?k] have "length (filter (same ?k) ?log) = 1" by linarith
    then show ?thesis using has False by (simp only: if_False simp_thms)
  qed
qed

end

section \<open>Competing consumers on PostgreSQL\<close>

text \<open>
  An open transaction at another commit: one that changed nothing sees the new database; else it
  keeps the rows it inserted into the outbox and the inbox, and \<open>merge\<close> is what becomes of its view
  of the application's tables.
\<close>

definition pg_rebase ::
    "('a \<Rightarrow> 'a \<Rightarrow> 'a \<Rightarrow> 'a) \<Rightarrow> 'a pg_database \<Rightarrow> 'a pg_database \<Rightarrow> 'a pg_transaction \<Rightarrow> 'a pg_transaction" where
  "pg_rebase merge old new t =
     (let own = tx_db t in
      t\<lparr>tx_db := if own = old then new
         else \<lparr>db_outbox = db_outbox new
                 @ filter (\<lambda>row. row_key row \<notin> row_key ` set (db_outbox new)) (db_outbox own),
               db_inbox = db_inbox new @ filter (\<lambda>row. row \<notin> set (db_inbox new)) (db_inbox own),
               db_app = merge (db_app old) (db_app new) (db_app own)\<rparr>\<rparr>)"

text \<open>The keys that the unique index on the receipts takes for one: times are microseconds there.\<close>

definition same_key :: "pg_api \<Rightarrow> receipt_key \<Rightarrow> receipt_key \<Rightarrow> bool" where
  "same_key P a b \<longleftrightarrow> (case (a, b) of ((n, i, t), (n', i', t')) \<Rightarrow>
     n = n' \<and> i = i' \<and> pg_timestamptz P (timestamp_text t) = pg_timestamptz P (timestamp_text t'))"

interpretation competing: competing_inbox "pg_inbox P keep" iw_db tx_db "has_receipt P" ids_fresh id_fresh
    "same_key P" "pg_rebase merge"
  for P keep merge
proof unfold_locales
  fix k k' :: receipt_key
  show "same_key P k k" by (simp add: same_key_def split: prod.splits)
  show "same_key P k' k" if "same_key P k k'" using that by (auto simp: same_key_def split: prod.splits)
  show "same_key P k l" if "same_key P k k'" "same_key P k' l" for l
    using that by (auto simp: same_key_def split: prod.splits)
  show "has_receipt P d k = has_receipt P d k'" if "same_key P k k'" for d :: "'a pg_database"
    using that by (auto simp: same_key_def has_receipt_def split: prod.splits)
next
  fix old new :: "'a pg_database" and t t' :: "'a pg_transaction" and k n env
  show "tx_db (pg_rebase merge old new t) = new" if "tx_db t = old"
    using that by (simp add: pg_rebase_def)
  show "has_receipt P (tx_db (pg_rebase merge old new t)) k
      \<longleftrightarrow> has_receipt P new k \<or> has_receipt P (tx_db t) k"
    if grows: "\<forall>k. has_receipt P old k \<longrightarrow> has_receipt P new k"
  proof (cases "tx_db t = old")
    case True
    then show ?thesis using grows by (cases k) (auto simp: pg_rebase_def)
  next
    case False
    then show ?thesis
      by (auto simp: pg_rebase_def Let_def has_receipt_def list_ex_iff split: prod.splits)
  qed
  show "has_receipt P (tx_db t') k \<longleftrightarrow> has_receipt P (tx_db t) k \<or> same_key P k (receipt_key n env)"
    if r: "ib_record (pg_inbox P keep) n env t = (Inr True, t')"
  proof -
    have "pg_record P keep n env t = (Inr True, t')" using r by (simp add: pg_inbox_def)
    from pg_record_Inr [OF this] show ?thesis
      by (auto simp: insert_receipt_def has_receipt_def same_key_def receipt_key_def receipt_row_def
          intro: message_id.expand split: if_splits prod.splits)
  qed
qed

text \<open>The outbox of the handlers keeps the receipts.\<close>

lemma store_write_keeps: "write_keeps_receipts tx_db (has_receipt P) (store_write (tx_outbox P))"
  unfolding write_keeps_receipts_def
  by (auto simp: store_write_def tx_outbox_def has_receipt_def dest!: tx_insert_Inr
      split: if_splits prod.splits sum.splits)

lemma no_write_keeps: "write_keeps_receipts tx_db (has_receipt P) no_outbox_write"
  by (simp add: write_keeps_receipts_def no_outbox_write_def)

section \<open>A schedule\<close>

text \<open>Running a schedule: which of the runs takes its step next.\<close>

definition consume_go ::
    "('s, 't) inbox_store \<Rightarrow> ('s \<Rightarrow> 'd) \<Rightarrow> ('d \<Rightarrow> 'd \<Rightarrow> 't \<Rightarrow> 't) \<Rightarrow> (string \<Rightarrow> ('s, 't) handlers)
      \<Rightarrow> 't handler_outbox \<Rightarrow> nat \<Rightarrow> 's \<times> ('s, 't) consumer list \<times> receipt_key list
      \<Rightarrow> 's \<times> ('s, 't) consumer list \<times> receipt_key list" where
  "consume_go I db f H w i = (\<lambda>(s, runs, log).
     case runs ! i of (n, c, st) \<Rightarrow>
       (case run_step n (H n) I w c st s of (st', s') \<Rightarrow>
          (s', rebase_all f (db s) (db s') (runs[i := (n, c, st')]),
           log @ (if db s' = db s then [] else [receipt_key n (ctx_envelope c)]))))"

fun scheduled ::
    "('s, 't) inbox_store \<Rightarrow> ('s \<Rightarrow> 'd) \<Rightarrow> (receipt_key \<Rightarrow> receipt_key \<Rightarrow> bool) \<Rightarrow> ('s \<Rightarrow> bool) \<Rightarrow> ('t \<Rightarrow> bool)
      \<Rightarrow> ('d \<Rightarrow> 'd \<Rightarrow> 't \<Rightarrow> 't) \<Rightarrow> (string \<Rightarrow> ('s, 't) handlers) \<Rightarrow> 't handler_outbox
      \<Rightarrow> nat list \<Rightarrow> 's \<times> ('s, 't) consumer list \<times> receipt_key list
      \<Rightarrow> ('s \<times> ('s, 't) consumer list \<times> receipt_key list) option" where
  "scheduled I db same ok fresh f H w [] x = Some x"
| "scheduled I db same ok fresh f H w (i # is) x =
     (if i < length (fst (snd x)) \<and> may_step same ok fresh (fst (snd x)) i (fst x)
      then scheduled I db same ok fresh f H w is (consume_go I db f H w i x) else None)"

lemma scheduled_consume:
  "scheduled I db same ok fresh f H w is x = Some y \<Longrightarrow> (consume I db has same ok fresh f H w)\<^sup>*\<^sup>* x y"
proof (induction "is" arbitrary: x)
  case Nil
  then show ?case by simp
next
  case (Cons i "is")
  obtain s runs log where x: "x = (s, runs, log)" by (cases x)
  have may: "i < length runs" "may_step same ok fresh runs i s"
      and rest: "scheduled I db same ok fresh f H w is (consume_go I db f H w i x) = Some y"
    using Cons.prems by (auto simp: x split: if_splits)
  obtain n c st where r: "runs ! i = (n, c, st)" by (cases "runs ! i")
  obtain st' s' where step: "run_step n (H n) I w c st s = (st', s')" by fastforce
  have go: "consume_go I db f H w i x = (s', rebase_all f (db s) (db s') (runs[i := (n, c, st')]),
      log @ (if db s' = db s then [] else [receipt_key n (ctx_envelope c)]))"
    by (simp add: x consume_go_def r step)
  have "consume I db has same ok fresh f H w x (consume_go I db f H w i x)"
    unfolding go unfolding x by (rule consume_step [where H = H, OF may(1) r may(2) refl step])
  then show ?case using Cons.IH [OF rest] by (rule converse_rtranclp_into_rtranclp)
qed

lemma same_receipt_row:
  "same_receipt (receipt_row U keep n e i mt now) (receipt_row U keep n e i' mt now')"
  by (simp add: same_receipt_def receipt_row_def)

text \<open>
  Two consumers with copies of one message: both begin, the first records the receipt, handles the
  message and commits, and only then the second finds its receipt.
\<close>

definition two_consumers :: "(nat iworld, nat pg_transaction) consumer list" where
  "two_consumers = [(''billing'', billing_context, Starting), (''billing'', billing_context, Starting)]"

definition two_consumed ::
    "(nat iworld \<times> (nat iworld, nat pg_transaction) consumer list \<times> receipt_key list) option" where
  "two_consumed = scheduled (pg_inbox plain_api False) iw_db (same_key plain_api) ids_fresh id_fresh
     (pg_rebase (\<lambda>old new own. new)) (\<lambda>n. counting) (store_write (tx_outbox plain_api))
     [0, 1, 0, 0, 0, 0, 1, 1] (fresh_world, two_consumers, [])"

declare scheduled.simps [simp del]

lemma scheduled_commit:
  assumes "i < length runs" and "runs ! i = (n, c, st)" and "may_step same ok fresh runs i s"
    and "run_step n (H n) I w c st s = (st', s')" and "db s' \<noteq> db s"
  shows "scheduled I db same ok fresh f H w (i # is) (s, runs, log)
    = scheduled I db same ok fresh f H w is (s', rebase_all f (db s) (db s') (runs[i := (n, c, st')]),
        log @ [receipt_key n (ctx_envelope c)])"
  using assms by (simp add: scheduled.simps consume_go_def)

lemma scheduled_quiet:
  assumes "i < length runs" and "runs ! i = (n, c, st)" and "may_step same ok fresh runs i s"
    and "run_step n (H n) I w c st s = (st', s')" and "db s' = db s"
  shows "scheduled I db same ok fresh f H w (i # is) (s, runs, log)
    = scheduled I db same ok fresh f H w is (s', runs[i := (n, c, st')], log)"
  using assms by (simp add: scheduled.simps consume_go_def rebase_all_def)

text \<open>A transaction with no faults, in the world of the example.\<close>

definition calm :: "uuid \<Rightarrow> 'a pg_database \<Rightarrow> 'a pg_transaction" where
  "calm i d = \<lparr>tx_db = d, tx_now = 1000, tx_aborted = False, tx_faults = [], tx_receipt_id = i\<rparr>"

lemma calm_simps [simp]:
  "tx_db (calm i d) = d" "tx_now (calm i d) = 1000" "tx_receipt_id (calm i d) = i"
  "(calm i d)\<lparr>tx_db := d'\<rparr> = calm i d'"
  by (simp_all add: calm_def)

lemma calm_statement:
  "f (calm i d) = Inr (x, d') \<Longrightarrow> tx_statement context f (calm i d) = (Inr x, calm i d')"
  by (simp add: tx_statement_def pop_def calm_def)

definition two_row :: inbox_row where
  "two_row = receipt_row (pg_uuid plain_api) False ''billing'' order_placed 5
     (unix_nanos (env_time order_placed) div 1000) 1000"

definition calm_world :: "uuid list \<Rightarrow> 'a pg_database \<Rightarrow> 'a iworld" where
  "calm_world ids d = \<lparr>iw_db = d, iw_now = 1000, iw_faults = [], iw_tx_faults = [], iw_ids = ids\<rparr>"

lemma calm_world_simps [simp]: "iw_db (calm_world ids d) = d" "iw_ids (calm_world ids d) = ids"
  by (simp_all add: calm_world_def)

abbreviation billing_step where
  "billing_step \<equiv> run_step ''billing'' counting (pg_inbox plain_api False) (store_write (tx_outbox plain_api))
     billing_context"

lemma billing_begins:
  "billing_step Starting (calm_world (i # ids) d) = (Begun count_handler (calm i d), calm_world ids d)"
  by (simp add: find_counting pg_inbox_def pg_begin_def pop_def calm_world_def calm_def)

lemma billing_records:
  assumes "db_inbox d = []"
  shows "billing_step (Begun h (calm 5 d)) s = (Handling h (calm 5 (d\<lparr>db_inbox := [two_row]\<rparr>)), s)"
proof -
  have "ctx_envelope billing_context = order_placed"
    by (simp add: billing_context_def handler_context_new_def)
  then have "ib_record (pg_inbox plain_api False) ''billing'' (ctx_envelope billing_context) (calm 5 d)
      = (Inr True, calm 5 (d\<lparr>db_inbox := [two_row]\<rparr>))"
    using assms by (simp add: pg_inbox_def pg_record_def)
      (rule calm_statement, simp add: order_time insert_receipt_def two_row_def)
  then show ?thesis by simp
qed

lemma billing_sees:
  assumes "db_inbox d = [two_row]"
  shows "billing_step (Begun h (calm 6 d)) s = (Committing False (calm 6 d) [], s)"
proof -
  have "ctx_envelope billing_context = order_placed"
    by (simp add: billing_context_def handler_context_new_def)
  then have "ib_record (pg_inbox plain_api False) ''billing'' (ctx_envelope billing_context) (calm 6 d)
      = (Inr False, calm 6 d)"
    using assms by (simp add: pg_inbox_def pg_record_def)
      (rule calm_statement, simp add: order_time insert_receipt_def two_row_def same_receipt_row)
  then show ?thesis by simp
qed

definition billing_handled :: "uuid \<Rightarrow> nat pg_database \<Rightarrow> nat pg_transaction handler_context" where
  "billing_handled i d = (fst (with_transaction billing_context (calm i d)))\<lparr>ctx_held := [order_placed]\<rparr>"

lemma billing_handles:
  "billing_step (Handling count_handler (calm i d)) s
    = (Writing (billing_handled i (d\<lparr>db_app := Suc (db_app d)\<rparr>)), s)"
  by (simp add: call_def count_handler_def billing_handled_def with_transaction_def billing_context_def
      handler_context_new_def)

lemma billing_writes:
  assumes "db_outbox d = []"
  shows "billing_step (Writing (billing_handled i d)) s
    = (Committing True (calm i (d\<lparr>db_outbox := [outbox_row_of (pg_uuid plain_api) 1000 order_placed]\<rparr>)) [], s)"
proof -
  let ?d = "d\<lparr>db_outbox := [outbox_row_of (pg_uuid plain_api) 1000 order_placed]\<rparr>"
  have "tx_insert plain_api [order_placed] (calm i d) = (Inr (), calm i ?d)"
    unfolding tx_insert.simps
    by (subst and_then_io_def, subst calm_statement [where x = "()" and d' = ?d])
      (simp_all add: insert_row_def assms)
  then show ?thesis
    by (simp add: billing_handled_def with_transaction_def store_write_def tx_outbox_def)
qed

lemma billing_commits:
  "billing_step (Committing b (calm i d) held) (calm_world ids old) = (Finished (Inr held), calm_world ids d)"
proof -
  have "ib_commit (pg_inbox plain_api False) (calm i d) (calm_world ids old) = (Inr (), calm_world ids d)"
    by (simp add: pg_inbox_def pg_commit_def calm_statement pop_def) (simp add: calm_world_def)
  then show ?thesis by simp
qed

abbreviation two_go where
  "two_go \<equiv> scheduled (pg_inbox plain_api False) iw_db (same_key plain_api) ids_fresh id_fresh
     (pg_rebase (\<lambda>old new own. new)) (\<lambda>n. counting) (store_write (tx_outbox plain_api))"

abbreviation billing_run where
  "billing_run st \<equiv> (''billing'', billing_context, st)"

lemma empty_tables: "db_inbox empty_db = []" "db_app empty_db = 0" "db_outbox empty_db = []"
  by (simp_all add: empty_db_def)

lemma two_begun:
  "two_go (0 # 1 # is) (fresh_world, two_consumers, []) = two_go is (calm_world [] empty_db,
      [billing_run (Begun count_handler (calm 5 empty_db)), billing_run (Begun count_handler (calm 6 empty_db))], [])"
proof -
  have "two_go (0 # 1 # is) (fresh_world, two_consumers, []) = two_go (0 # 1 # is)
      (calm_world [5, 6] empty_db, [billing_run Starting, billing_run Starting], [])"
    by (simp add: two_consumers_def fresh_world_def calm_world_def)
  also have "\<dots> = two_go (1 # is)
      (calm_world [6] empty_db, [billing_run (Begun count_handler (calm 5 empty_db)), billing_run Starting], [])"
    by (subst scheduled_quiet [OF _ _ _ billing_begins]) (simp_all add: may_step_def ids_fresh_def pop_def empty_tables)
  also have "\<dots> = two_go is (calm_world [] empty_db,
      [billing_run (Begun count_handler (calm 5 empty_db)), billing_run (Begun count_handler (calm 6 empty_db))], [])"
    by (subst scheduled_quiet [OF _ _ _ billing_begins]) (simp_all add: may_step_def ids_fresh_def pop_def empty_tables)
  finally show ?thesis .
qed

definition two_db :: "nat pg_database" where
  "two_db = empty_db\<lparr>db_inbox := [two_row], db_app := 1,
     db_outbox := [outbox_row_of (pg_uuid plain_api) 1000 order_placed]\<rparr>"

lemma two_seen:
  "two_go (0 # 1 # 0 # 0 # 0 # 0 # 1 # is) (fresh_world, two_consumers, []) = two_go is (calm_world [] two_db,
      [billing_run (Finished (Inr [])), billing_run (Committing False (calm 6 two_db) [])],
      [receipt_key ''billing'' order_placed])"
proof -
  let ?d1 = "empty_db\<lparr>db_inbox := [two_row]\<rparr>"
  let ?d2 = "?d1\<lparr>db_app := 1\<rparr>"
  let ?d3 = "?d2\<lparr>db_outbox := [outbox_row_of (pg_uuid plain_api) 1000 order_placed]\<rparr>"
  have one: "Suc (db_app ?d1) = 1" by (simp add: empty_db_def)
  have "two_go (0 # 1 # 0 # 0 # 0 # 0 # 1 # is) (fresh_world, two_consumers, []) = two_go (0 # 0 # 0 # 1 # is) (calm_world [] empty_db,
      [billing_run (Handling count_handler (calm 5 ?d1)), billing_run (Begun count_handler (calm 6 empty_db))], [])"
    unfolding two_begun
    by (subst scheduled_quiet [OF _ _ _ billing_records])
      (auto simp: may_step_def id_fresh_def empty_tables less_Suc_eq)
  also have "\<dots> = two_go (0 # 0 # 1 # is) (calm_world [] empty_db,
      [billing_run (Writing (billing_handled 5 ?d2)), billing_run (Begun count_handler (calm 6 empty_db))], [])"
    by (subst scheduled_quiet [OF _ _ _ billing_handles [of 5 ?d1, unfolded one]]) (simp_all add: may_step_def)
  also have "\<dots> = two_go (0 # 1 # is) (calm_world [] empty_db,
      [billing_run (Committing True (calm 5 ?d3) []), billing_run (Begun count_handler (calm 6 empty_db))], [])"
    by (subst scheduled_quiet [OF _ _ _ billing_writes]) (simp_all add: may_step_def empty_tables)
  also have "\<dots> = two_go (1 # is) (calm_world [] ?d3,
      [billing_run (Finished (Inr [])), billing_run (Begun count_handler (calm 6 ?d3))], [receipt_key ''billing'' order_placed])"
  proof (subst scheduled_commit [OF _ _ _ billing_commits])
    have c: "ctx_envelope billing_context = order_placed"
      by (simp add: billing_context_def handler_context_new_def)
    have "empty_db \<noteq> ?d3" by (simp add: empty_db_def)
    then show "two_go (1 # is) (calm_world [] ?d3, rebase_all (pg_rebase (\<lambda>old new own. new))
          (iw_db (calm_world [] empty_db)) (iw_db (calm_world [] ?d3))
          ([billing_run (Committing True (calm 5 ?d3) []), billing_run (Begun count_handler (calm 6 empty_db))]
             [0 := billing_run (Finished (Inr []))]), [] @ [receipt_key ''billing'' (ctx_envelope billing_context)])
      = two_go (1 # is) (calm_world [] ?d3, [billing_run (Finished (Inr [])), billing_run (Begun count_handler (calm 6 ?d3))],
          [receipt_key ''billing'' order_placed])"
      by (simp add: rebase_all_def pg_rebase_def c)
  qed (simp_all add: may_step_def empty_db_def)
  also have "\<dots> = two_go is (calm_world [] ?d3,
      [billing_run (Finished (Inr [])), billing_run (Committing False (calm 6 ?d3) [])], [receipt_key ''billing'' order_placed])"
    by (subst scheduled_quiet [OF _ _ _ billing_sees])
      (auto simp: may_step_def id_fresh_def less_Suc_eq two_row_def receipt_row_def)
  finally show ?thesis by (simp add: two_db_def)
qed

lemma two_consumed_result:
  "\<exists>d. two_consumed = Some (calm_world [] d,
      [(''billing'', billing_context, Finished (Inr [])), (''billing'', billing_context, Finished (Inr []))],
      [receipt_key ''billing'' order_placed]) \<and> db_app d = 1"
proof -
  have "two_consumed = two_go [] (calm_world [] two_db,
      [billing_run (Finished (Inr [])), billing_run (Finished (Inr []))], [receipt_key ''billing'' order_placed])"
    unfolding two_consumed_def two_seen
    by (subst scheduled_quiet [OF _ _ _ billing_commits [where b = False and i = 6]])
      (simp_all add: may_step_def)
  then show ?thesis by (intro exI [of _ two_db]) (simp add: scheduled.simps two_db_def)
qed

section \<open>Properties\<close>

text \<open>The two consumers of the example arrive, and go on as the schedule says.\<close>

lemma two_steps:
  assumes "two_go is (fresh_world, two_consumers, []) = Some y"
  shows "(consume (pg_inbox plain_api False) iw_db (has_receipt plain_api) (same_key plain_api)
    ids_fresh id_fresh (pg_rebase (\<lambda>old new own. new)) (\<lambda>n. counting)
    (store_write (tx_outbox plain_api)))\<^sup>*\<^sup>* (fresh_world, [], []) y"
    (is "?consume\<^sup>*\<^sup>* _ _")
proof -
  have "?consume (fresh_world, [], []) (fresh_world, [] @ [(''billing'', billing_context, Starting)], [])"
    by (rule consume.arrive)
  moreover have "?consume (fresh_world, [] @ [(''billing'', billing_context, Starting)], [])
      (fresh_world, two_consumers, [])"
    using consume.arrive [where runs = "[(''billing'', billing_context, Starting)]" and n = "''billing''"
        and c = billing_context and log = "[]" and s = fresh_world]
    unfolding two_consumers_def append.simps .
  ultimately show ?thesis
    using scheduled_consume [OF assms]
    by (meson converse_rtranclp_into_rtranclp)
qed

lemma counting_keeps:
  "\<forall>n t h. om_get ((\<lambda>n :: string. counting) n) t = Some h \<longrightarrow> handler_keeps_receipts iw_db tx_db (has_receipt P) h"
proof -
  have "handler_keeps_receipts iw_db tx_db (has_receipt P) count_handler"
    by (auto simp: handler_keeps_receipts_def call_def count_handler_def has_receipt_def)
  then show ?thesis by (auto simp: counting_def om_get_def split: if_splits)
qed



text \<open>
  C3: consumers that handle copies of messages at the same time, any number of them and in any
  interleaving of their steps, with faults, lost consumers and other sessions in between, change
  the database at most once for each message: no two changes in the log have one receipt key, and a
  message that changed it has its receipt.
\<close>

theorem competing_consumers_once:
  assumes "\<forall>n t h. om_get (H n) t = Some h \<longrightarrow> handler_keeps_receipts iw_db tx_db (has_receipt P) h"
    and "w \<in> {store_write (tx_outbox P), no_outbox_write}"
    and "(consume (pg_inbox P keep) iw_db (has_receipt P) (same_key P) ids_fresh id_fresh (pg_rebase merge) H w)\<^sup>*\<^sup>*
      (s, [], []) (s', runs, log)"
  shows "sorted_wrt (\<lambda>a b. \<not> same_key P a b) log \<and> (\<forall>k \<in> set log. has_receipt P (iw_db s') k)"
proof -
  have "write_keeps_receipts tx_db (has_receipt P) w"
    using assms(2) store_write_keeps no_write_keeps by blast
  from competing.consume_steps_ok [OF assms(1) this assms(3)] show ?thesis
    by (simp add: competing.consumers_ok_def)
qed

theorem competing_consumers_once_witness:
  "\<exists>s runs log. two_consumed = Some (s, runs, log) \<and> length runs = 2
    \<and> db_app (iw_db s) = 1 \<and> has_receipt plain_api (iw_db s) (receipt_key ''billing'' order_placed)"
proof -
  obtain s runs log where r: "two_consumed = Some (s, runs, log)" "length runs = 2" "db_app (iw_db s) = 1"
      "log = [receipt_key ''billing'' order_placed]"
    using two_consumed_result by fastforce
  from competing_consumers_once [OF counting_keeps _ two_steps [OF r(1) [unfolded two_consumed_def]]] r
  show ?thesis by auto
qed

end
