(* ===== verification/Retention.thy ===== *)
theory Retention
  imports Pg_Inbox Pg_Partitions
begin

text \<open>
  The maintenance worker (\<open>runtime/src/maintenance.rs\<close>) on the two tables that the other components work
  on. The partitions of \<open>inbox_receipts\<close> are ranges of the messages' times: a receipt that expired is gone,
  and its message would be handled again; what is shown is that this needs a message older than the
  retention. Those of \<open>outbox_messages\<close> are ranges of the rows' creation: what the dispatcher has to send
  stays. A pass is one step here.
\<close>

section \<open>The receipts since a day\<close>

definition rows_since :: "date \<Rightarrow> pworld \<Rightarrow> stored_row set" where
  "rows_since D w = {row \<in> set (pw_rows w). day_start D \<le> sr_time row}"

definition ends_by :: "date \<Rightarrow> pworld \<Rightarrow> partition_info \<Rightarrow> bool" where
  "ends_by D w p \<longleftrightarrow> (\<forall>q \<in> set (pw_parts w). pp_name q = partition_name p \<longrightarrow> pp_to q \<le> D)"

text \<open>The inbox table, whose partitions have dates PostgreSQL can write and names of their own.\<close>

definition inbox_catalog :: "pworld \<Rightarrow> bool" where
  "inbox_catalog w \<longleftrightarrow> pw_table w = InboxTable \<and> parts_ok w \<and> distinct (map pp_name (pw_parts w))"

lemma day_start_mono: "d \<le> e \<Longrightarrow> day_start d \<le> day_start e"
  by (simp add: day_start_def date_order SECONDS_PER_DAY_def)

lemma same_tables_since:
  assumes "same_tables w w'"
  shows "rows_since D w' = rows_since D w" and "inbox_catalog w' = inbox_catalog w"
    and "ends_by D w' p = ends_by D w p"
  using same_tables_fields [OF assms]
  by (simp_all add: rows_since_def inbox_catalog_def ends_by_def parts_ok_def)

lemma create_partition_catalog:
  assumes "create_partition a b s = (r, s')" and "inbox_catalog s" and "date_ok a" and "date_ok b"
  shows "inbox_catalog s' \<and> rows_since D s' = rows_since D s"
  using assms(1)
proof (rule create_partition_cases)
  fix u
  assume u: "same_tables s u" and c: "s' = u \<or> create_effect a b u = Inr ((), s')"
  have ok: "inbox_catalog u" "rows_since D u = rows_since D s"
    using same_tables_since [OF u] assms(2) by simp_all
  show ?thesis
    using c
  proof
    assume "create_effect a b u = Inr ((), s')"
    then show ?thesis
      using ok assms(3,4)
      by (auto simp: create_effect_def Let_def inbox_catalog_def parts_ok_def rows_since_def split: if_splits)
  qed (use ok in simp)
qed

text \<open>The partitions that \<open>fill_gaps\<close> knows have dates that can be written, too.\<close>

definition known_ok :: "date \<Rightarrow> pworld \<Rightarrow> partition_info list \<Rightarrow> pworld \<Rightarrow> bool" where
  "known_ok D w existing u \<longleftrightarrow> (\<forall>p \<in> set existing. date_ok (from_day p) \<and> date_ok (to_day p))
     \<and> inbox_catalog u \<and> rows_since D u = rows_since D w"

lemma ensure_loop_catalog:
  "ensure_loop create_partition i n start existing err s = (err', s') \<Longrightarrow> known_ok D w existing s \<Longrightarrow>
    date_ok start \<Longrightarrow> inbox_catalog s' \<and> rows_since D s' = rows_since D w"
proof (induction n arbitrary: start existing err s)
  case 0
  then show ?case by (simp add: known_ok_def)
next
  case (Suc n)
  let ?stop = "interval_end i start"
  obtain ex e t where f: "fill_gaps create_partition ?stop start existing err s = (ex, e, t)"
    by (cases "fill_gaps create_partition ?stop start existing err s")
  have stop: "date_ok ?stop" using interval_ok [OF Suc.prems(3)] by simp
  have "known_ok D w ex t"
  proof (rule fill_gaps_invariant_on [where D = date_ok and Q = "known_ok D w", OF _ _ stop f Suc.prems(2,3)])
    fix cur gap existing s r s'
    assume k: "known_ok D w existing s" and d: "date_ok cur" "date_ok gap"
      and c: "create_partition cur gap s = (r, s')"
    have "inbox_catalog s" "rows_since D s = rows_since D w" using k by (simp_all add: known_ok_def)
    with create_partition_catalog [OF c _ d, of D]
    have "inbox_catalog s' \<and> rows_since D s' = rows_since D w" by simp
    then show "known_ok D w (if is_ok r then existing @ [partition_info_new [] cur gap] else existing) s'"
      using k d by (auto simp: known_ok_def partition_info_new_def)
  qed (simp add: known_ok_def)
  then show ?case using Suc.IH Suc.prems(1) f stop by simp
qed

lemma ensure_partitions_catalog:
  assumes "ensure_partitions i first n w = (r, w')" and "inbox_catalog w" and "date_ok first"
  shows "rows_since D w' = rows_since D w \<and> inbox_catalog w'"
proof -
  obtain l u where l: "list_partitions w = (l, u)" by (cases "list_partitions w")
  note u = same_tables_since [OF list_partitions_same [OF l]]
  show ?thesis
  proof (cases l)
    case (Inl e)
    then show ?thesis using assms l u by (simp add: ensure_partitions_def and_then_io_def)
  next
    case (Inr existing)
    have ok: "parts_ok w" using assms(2) by (simp add: inbox_catalog_def)
    have "known_ok D w existing u"
      using list_partitions_Inr(2) [OF ok l [unfolded Inr]] ok assms(2) u
      by (auto simp: known_ok_def parts_ok_def list_all_iff partition_info_new_def)
    moreover obtain e t where
      e: "ensure_loop create_partition i n (interval_start i first) existing None u = (e, t)"
      by (cases "ensure_loop create_partition i n (interval_start i first) existing None u")
    moreover have "w' = t"
      using assms(1) l Inr e by (simp add: ensure_partitions_def and_then_io_def split: option.splits)
    ultimately show ?thesis
      using ensure_loop_catalog [OF e] interval_ok [OF assms(3)] by blast
  qed
qed

lemma expirable_ends:
  assumes "inbox_catalog s" and "d \<le> D" and "expirable d s = (Inr ps, t)" and "p \<in> set ps"
  shows "ends_by D t p"
proof -
  obtain existing u where l: "list_partitions s = (Inr existing, u)"
      and f: "(let found = filter (\<lambda>p. to_day p \<le> d) existing in
        if pw_table u = OutboxTable then count_all found u else (Inr found, u)) = (Inr ps, t)"
    using assms(3) unfolding expirable_def and_then_io_Inr by blast
  have ok: "parts_ok s" "distinct (map pp_name (pw_parts s))" "pw_table s = InboxTable"
    using assms(1) by (simp_all add: inbox_catalog_def)
  note lp = list_partitions_Inr [OF ok(1) l]
  have parts: "pw_parts u = pw_parts s" "pw_table u = InboxTable"
    using same_tables_fields [OF lp(1)] ok(3) by simp_all
  then have t: "t = u" "ps = filter (\<lambda>p. to_day p \<le> d) existing" using f by (simp_all add: Let_def)
  then obtain q where q: "q \<in> set (pw_parts s)" "partition_name p = pp_name q" "pp_to q \<le> D"
    using assms(2,4) lp(2) by (auto simp: partition_info_new_def)
  have "q' = q" if "q' \<in> set (pw_parts s)" "pp_name q' = pp_name q" for q'
    using ok(2) that q(1) by (auto simp: distinct_map inj_on_def)
  then show ?thesis using q t parts by (auto simp: ends_by_def)
qed

lemma expire_ends:
  assumes "expire p m s = (r, t)" and "ends_by D s q"
  shows "ends_by D t q"
proof -
  have "set (pw_parts t) \<subseteq> set (pw_parts s)"
    using assms(1) [unfolded expire_def]
  proof (rule pw_statement_cases)
    fix u
    assume u: "same_tables s u" and c: "t = u \<or> (\<exists>x. expire_effect p m u = Inr (x, t))"
    have "set (pw_parts t) \<subseteq> set (pw_parts u)" using c expire_effect_Inr(2) by fastforce
    then show ?thesis using same_tables_fields(2) [OF u] by simp
  qed
  then show ?thesis using assms(2) by (auto simp: ends_by_def)
qed

lemma expire_since:
  assumes "expire p m s = (r, t)" and "inbox_catalog s" and "ends_by D s p"
  shows "rows_since D t = rows_since D s \<and> inbox_catalog t"
  using assms(1) [unfolded expire_def]
proof (rule pw_statement_cases)
  fix u
  assume u: "same_tables s u" and c: "t = u \<or> (\<exists>x. expire_effect p m u = Inr (x, t))"
  note su = same_tables_since [OF u]
  show ?thesis
    using c
  proof (elim disjE exE)
    fix x
    assume "expire_effect p m u = Inr (x, t)"
    note e = expire_effect_Inr [OF this]
    have "day_start D \<le> sr_time row \<Longrightarrow> row \<notin> set (rows_of (partition_name p) u)" for row
      using assms(3) day_start_mono [of _ D] su(3) [of D p]
      by (fastforce simp: rows_of_def list_ex_iff part_holds_def ends_by_def)
    then have "rows_since D t = rows_since D u" by (auto simp: rows_since_def e(3))
    moreover have "inbox_catalog t"
      using assms(2) su(2) e
      by (auto simp: inbox_catalog_def parts_ok_def list_all_iff distinct_map_filter)
    ultimately show ?thesis using su by simp
  qed (use su assms(2) in simp)
qed

interpretation receipts: partition_contract pg_partitions "rows_since D" "ends_by D" inbox_catalog "\<lambda>d. d \<le> D"
  for D
proof unfold_locales
  fix s t :: pworld
  assume ok: "inbox_catalog s"
  show "rows_since D t = rows_since D s \<and> inbox_catalog t" if "ps_try_lock pg_partitions s = (r, t)" for r
    using same_tables_since [OF try_lock_same] that ok by (simp add: pg_partitions_def)
  show "rows_since D (ps_unlock pg_partitions s) = rows_since D s \<and> inbox_catalog (ps_unlock pg_partitions s)"
    using ok by (simp add: pg_partitions_def)
  show "rows_since D t = rows_since D s \<and> inbox_catalog t"
    if "date_ok d" "ps_ensure_partitions pg_partitions i d n s = (r, t)" for i d n r
    using ensure_partitions_catalog ok that by (simp add: pg_partitions_def)
  show "rows_since D t = rows_since D s \<and> inbox_catalog t" if "ps_default_rows pg_partitions s = (r, t)" for r
    using same_tables_since [OF default_rows_same] that ok by (simp add: pg_partitions_def)
  show "rows_since D t = rows_since D s \<and> inbox_catalog t" if "ps_expirable pg_partitions d s = (r, t)" for d r
    using same_tables_since [OF expirable_cases(1)] that ok by (simp add: pg_partitions_def)
  show "ends_by D t p" if "d \<le> D" "ps_expirable pg_partitions d s = (Inr ps, t)" "p \<in> set ps" for d ps p
    using expirable_ends ok that by (simp add: pg_partitions_def)
  show "rows_since D t = rows_since D s \<and> inbox_catalog t"
    if "ends_by D s p" "ps_expire pg_partitions p m s = (r, t)" for p m r
    using expire_since ok that by (simp add: pg_partitions_def)
next
  fix s t :: pworld and p q m r
  show "ends_by D t q" if "ends_by D s q" "ps_expire pg_partitions p m s = (r, t)"
    using that expire_ends by (simp add: pg_partitions_def)
qed

section \<open>Maintenance of the inbox table\<close>

definition stored_receipt :: "inbox_row \<Rightarrow> stored_row" where
  "stored_receipt row = \<lparr>sr_time = ir_message_time row, sr_status = None, sr_id = ir_id row\<rparr>"

text \<open>
  A maintenance pass on the partitions of the table that the inbox works on: the catalog \<open>w\<close> sees the
  receipts by their key, and those that expire with their partition leave the table.
\<close>

definition maintain_inbox ::
    "partition_settings \<Rightarrow> date \<Rightarrow> 'a pg_database \<times> pworld \<Rightarrow> 'a pg_database \<times> pworld" where
  "maintain_inbox settings today = (\<lambda>(d, w).
     let w' = snd (maintain pg_partitions settings today (w\<lparr>pw_rows := map stored_receipt (db_inbox d)\<rparr>))
     in (d\<lparr>db_inbox := filter (\<lambda>row. stored_receipt row \<in> set (pw_rows w')) (db_inbox d)\<rparr>, w'))"

text \<open>The message of a receipt is within the retention on a day.\<close>

definition within_retention :: "pg_api \<Rightarrow> partition_settings \<Rightarrow> date \<Rightarrow> timestamp \<Rightarrow> bool" where
  "within_retention P settings today time \<longleftrightarrow>
     (\<forall>days mt. pn_retention_days settings = Some days \<longrightarrow> pg_timestamptz P (timestamp_text time) = Some mt \<longrightarrow>
        day_start (add_days today (- int days)) \<le> mt)"

definition day_of :: "int \<Rightarrow> date" where
  "day_of t = Date (t div (SECONDS_PER_DAY * 1000000))"

lemma day_of_le: "d \<le> day_of t \<longleftrightarrow> day_start d \<le> t"
proof -
  let ?c = "86400000000 :: int"
  have "?c * (t div ?c) + t mod ?c = t" "0 \<le> t mod ?c" "t mod ?c < ?c" by simp_all
  then have "date_days d \<le> t div ?c \<longleftrightarrow> ?c * date_days d \<le> t" by linarith
  then show ?thesis by (simp add: day_of_def day_start_def date_order SECONDS_PER_DAY_def)
qed

lemma maintain_inbox_keeps:
  assumes "inbox_catalog w" and "date_ok today" and in_time: "within_retention P settings today time"
  shows "inbox_catalog (snd (maintain_inbox settings today (d, w)))"
    and "has_receipt P (fst (maintain_inbox settings today (d, w))) (n, i, time) = has_receipt P d (n, i, time)"
proof -
  let ?w = "w\<lparr>pw_rows := map stored_receipt (db_inbox d)\<rparr>"
  have ok: "inbox_catalog ?w" using assms(1) by (simp add: inbox_catalog_def parts_ok_def)
  have keeps: "rows_since D (snd (maintain pg_partitions settings today ?w)) = rows_since D ?w
      \<and> inbox_catalog (snd (maintain pg_partitions settings today ?w))"
    if "\<forall>days. pn_retention_days settings = Some days \<longrightarrow> add_days today (- int days) \<le> D" for D
    by (rule receipts.maintain_keeps [OF ok assms(2)]) (simp add: receipts.retains_def that)
  show "inbox_catalog (snd (maintain_inbox settings today (d, w)))"
    using keeps [of "case pn_retention_days settings of None \<Rightarrow> today | Some days \<Rightarrow> add_days today (- int days)"]
    by (simp add: maintain_inbox_def Let_def)
  show "has_receipt P (fst (maintain_inbox settings today (d, w))) (n, i, time) = has_receipt P d (n, i, time)"
  proof (cases "pg_timestamptz P (timestamp_text time)")
    case None
    then show ?thesis by (simp add: has_receipt_def list_ex_iff)
  next
    case (Some mt)
    have "stored_receipt row \<in> set (pw_rows (snd (maintain pg_partitions settings today ?w)))"
      if "row \<in> set (db_inbox d)" "ir_message_time row = mt" for row
    proof -
      have "stored_receipt row \<in> rows_since (day_of mt) ?w"
        using that day_of_le [of "day_of mt" mt] by (auto simp: rows_since_def stored_receipt_def)
      then have "stored_receipt row \<in> rows_since (day_of mt) (snd (maintain pg_partitions settings today ?w))"
        using keeps [of "day_of mt"] in_time Some by (simp add: within_retention_def day_of_le)
      then show ?thesis by (simp add: rows_since_def)
    qed
    then show ?thesis
      using Some by (auto simp: has_receipt_def maintain_inbox_def Let_def list_ex_iff)
  qed
qed

section \<open>Maintenance of the outbox table\<close>

definition stored_outbox :: "outbox_row \<Rightarrow> stored_row" where
  "stored_outbox row = \<lparr>sr_time = or_created_at row, sr_status = Some (or_status row), sr_id = or_id row\<rparr>"

definition maintain_outbox ::
    "partition_settings \<Rightarrow> date \<Rightarrow> outbox_row list \<times> pworld \<Rightarrow> outbox_row list \<times> pworld" where
  "maintain_outbox settings today = (\<lambda>(rows, w).
     let w' = snd (maintain pg_partitions settings today (w\<lparr>pw_rows := map stored_outbox rows\<rparr>))
     in (filter (\<lambda>row. stored_outbox row \<in> set (pw_rows w')) rows, w'))"

lemma maintain_outbox_keeps:
  assumes "pw_table w = OutboxTable" and "date_ok today" and "row \<in> set rows" and "or_status row \<noteq> Dispatched"
  shows "row \<in> set (fst (maintain_outbox settings today (rows, w)))"
proof -
  let ?w = "w\<lparr>pw_rows := map stored_outbox rows\<rparr>"
  have "is_unsent (stored_outbox row)"
    using assms(4) by (cases "or_status row") (simp_all add: is_unsent_def stored_outbox_def)
  then have "stored_outbox row \<in> unsent_rows ?w" using assms(1,3) by (simp add: unsent_rows_def)
  moreover have "unsent_rows (snd (maintain pg_partitions settings today ?w)) = unsent_rows ?w"
    using partitions.maintain_keeps [OF _ assms(2)] by (simp add: partitions.retains_def)
  ultimately have "stored_outbox row \<in> unsent_rows (snd (maintain pg_partitions settings today ?w))" by simp
  then have "stored_outbox row \<in> set (pw_rows (snd (maintain pg_partitions settings today ?w)))"
    by (simp add: unsent_rows_def split: if_splits)
  then show ?thesis using assms(3) by (simp add: maintain_outbox_def Let_def)
qed

lemma maintain_outbox_filter:
  assumes "pw_table w = OutboxTable" and "date_ok today" and "\<And>row. keep row \<Longrightarrow> or_status row \<noteq> Dispatched"
  shows "filter keep (fst (maintain_outbox settings today (rows, w))) = filter keep rows"
  using maintain_outbox_keeps [OF assms(1,2), of _ rows settings] assms(3)
  by (auto simp: maintain_outbox_def Let_def intro!: filter_cong)

section \<open>Redeliveries within the retention\<close>

text \<open>
  A history of one transactional endpoint and the maintenance of its inbox table: deliveries of any
  messages, others that keep the receipt of \<open>key\<close>, and passes of the maintenance worker on days on which
  the message of \<open>key\<close> is within the retention.
\<close>

inductive retained_history ::
    "pg_api \<Rightarrow> (unit handler_context \<Rightarrow> ('a iworld, failure, envelope list) io) \<Rightarrow> string
      \<Rightarrow> partition_settings \<Rightarrow> receipt_key \<Rightarrow> 'a iworld \<times> pworld \<Rightarrow> (receipt_key \<times> bool) list
      \<Rightarrow> 'a iworld \<times> pworld \<Rightarrow> bool"
  for P run n settings key where
  begins: "retained_history P run n settings key x [] x"
| delivers: "retained_history P run n settings key x log (u, w) \<Longrightarrow> ids_fresh u \<Longrightarrow> run c u = (r, v) \<Longrightarrow>
    retained_history P run n settings key x
      (log @ [(receipt_key n (ctx_envelope c), iw_db v \<noteq> iw_db u)]) (v, w)"
| others: "retained_history P run n settings key x log (u, w) \<Longrightarrow>
    (has_receipt P (iw_db u) key \<longrightarrow> has_receipt P (iw_db v) key) \<Longrightarrow>
    retained_history P run n settings key x log (v, w)"
| maintains: "retained_history P run n settings key x log (u, w) \<Longrightarrow>
    within_retention P settings (timestamp_date now) (snd (snd key)) \<Longrightarrow>
    maintain_inbox settings (timestamp_date now) (iw_db u, w) = (d, w') \<Longrightarrow>
    retained_history P run n settings key x log (u\<lparr>iw_db := d\<rparr>, w')"

lemma retained_delivery:
  "retained_history P run n settings key x log y \<Longrightarrow> inbox_catalog (snd x) \<Longrightarrow>
    delivery_history run n iw_db (has_receipt P) ids_fresh {key} (fst x) log (fst y) \<and> inbox_catalog (snd y)"
proof (induction rule: retained_history.induct)
  case (begins x)
  then show ?case by (simp add: delivery_history.start)
next
  case (delivers x log u w c r v)
  then show ?case using delivery_history.deliver by fastforce
next
  case (others x log u w v)
  then show ?case using delivery_history.other [of run n iw_db "has_receipt P" ids_fresh "{key}" "fst x" log u v]
    by simp
next
  case (maintains x log u w now d w')
  obtain m i t where key: "key = (m, i, t)" by (cases key)
  have "date_ok (timestamp_date now)" by (simp add: timestamp_date_def)
  note keeps = maintain_inbox_keeps [OF _ this maintains.hyps(2), of w "iw_db u"]
  have "inbox_catalog w'" "has_receipt P d key = has_receipt P (iw_db u) key"
    using keeps(1) keeps(2) [of m i] maintains by (simp_all add: key)
  then show ?case
    using maintains delivery_history.other [of run n iw_db "has_receipt P" ids_fresh "{key}" "fst x" log u
        "u\<lparr>iw_db := d\<rparr>"] by simp
qed

section \<open>Properties\<close>

text \<open>
  A maintenance pass on the inbox table never takes the receipt of a message whose time is within
  the retention, whatever the interval, the expiry mode and the faults of the connection; and it
  keeps the catalog in order for the next pass.
\<close>

lemma receipts_kept_within_retention:
  assumes "inbox_catalog w" and "within_retention P settings (timestamp_date now) time"
  shows "inbox_catalog (snd (maintain_inbox settings (timestamp_date now) (d, w)))
    \<and> has_receipt P (fst (maintain_inbox settings (timestamp_date now) (d, w))) (n, i, time)
        = has_receipt P d (n, i, time)"
proof -
  have "date_ok (timestamp_date now)" by (simp add: timestamp_date_def)
  from maintain_inbox_keeps [OF assms(1) this assms(2)] show ?thesis by blast
qed

text \<open>
  C16: a maintenance pass on the outbox table is invisible to the dispatcher: what it may claim afterwards,
  at any time and whatever others hold, is what it could claim before, in the same order; and the rows
  that failed for good stay for the operator.
\<close>

theorem maintenance_leaves_claims:
  assumes "pw_table w = OutboxTable"
  shows "claimable t locked n (fst (maintain_outbox settings (timestamp_date now) (rows, w)))
      = claimable t locked n rows
    \<and> filter (\<lambda>row. or_status row = Failed) (fst (maintain_outbox settings (timestamp_date now) (rows, w)))
      = filter (\<lambda>row. or_status row = Failed) rows"
proof -
  have "date_ok (timestamp_date now)" by (simp add: timestamp_date_def)
  note keeps = maintain_outbox_filter [OF assms this]
  show ?thesis
    unfolding claimable_def by (subst (1 2) keeps) (simp_all add: due_def)
qed

text \<open>
  C15: a transactional endpoint handles a message at most once also where the maintenance worker expires
  receipts: in any history of deliveries and maintenance passes, the deliveries of a message change the
  database at most once, as long as each pass finds the message within the retention.
\<close>

theorem handled_once_within_retention:
  assumes "retained_history P (transactional_run n hs (pg_inbox P keep) (store_write (tx_outbox P))) n
      settings key (s, w) log (s', w')"
    and "inbox_catalog w" and "\<forall>t h. om_get hs t = Some h \<longrightarrow> handler_ok iw_db tx_db (has_receipt P) h"
  shows "length (filter (\<lambda>(k, effect). k = key \<and> effect) log) \<le> (if has_receipt P (iw_db s') key then 1 else 0)"
proof -
  have "delivery_history (transactional_run n hs (pg_inbox P keep) (store_write (tx_outbox P))) n iw_db
      (has_receipt P) ids_fresh {key} s log s'"
    using retained_delivery [OF assms(1)] assms(2) by simp
  then show ?thesis
    using assms(3) by (intro inbox.effect_at_most_once [OF _ store_write_ok]) auto
qed

text \<open>A month's receipts are kept; the table has a partition for the day of the message and an old one.\<close>

definition month_of_receipts :: partition_settings where
  "month_of_receipts = partition_settings_default\<lparr>pn_retention_days := Some 30, pn_on_expiry := Drop\<rparr>"

definition receipt_catalog :: pworld where
  "receipt_catalog =
     \<lparr>pw_table = InboxTable,
      pw_parts = [\<lparr>pp_name = ''inbox_receipts_p20240101'', pp_from = Date 19723, pp_to = Date 19724\<rparr>,
                  \<lparr>pp_name = ''inbox_receipts_p20240229'', pp_from = Date 19782, pp_to = Date 19783\<rparr>],
      pw_relations = [''inbox_receipts''], pw_rows = [], pw_detached = [], pw_default = None,
      pw_lock_taken = False, pw_faults = []\<rparr>"

lemma receipt_catalog_ok: "inbox_catalog receipt_catalog"
  by code_simp

text \<open>What an expired partition takes with it: the receipts of its day.\<close>

lemma receipt_expires:
  "pw_rows (snd (expire (partition_info_new ''inbox_receipts_p20240229'' (Date 19782) (Date 19783)) Drop
      (receipt_catalog\<lparr>pw_rows := [\<lparr>sr_time = 1709245800250000, sr_status = None, sr_id = 5\<rparr>,
        \<lparr>sr_time = 1704067200000000, sr_status = None, sr_id = 6\<rparr>]\<rparr>)))
    = [\<lparr>sr_time = 1704067200000000, sr_status = None, sr_id = 6\<rparr>]"
  by code_simp

lemma order_in_month:
  "within_retention plain_api month_of_receipts (timestamp_date (Timestamp 1711000000 0)) (env_time order_placed)"
proof -
  have "day_start (add_days (timestamp_date (Timestamp 1711000000 0)) (- 30)) = 1708387200000000"
    by code_simp
  then show ?thesis
    by (simp add: within_retention_def month_of_receipts_def partition_settings_default_def order_time)
      (simp add: order_placed_def unix_nanos_def second_consts)
qed

lemma receipts_kept_within_retention_example:
  "\<exists>s1. first_delivery = (Inr [], s1)
    \<and> has_receipt plain_api (fst (maintain_inbox month_of_receipts (timestamp_date (Timestamp 1711000000 0))
        (iw_db s1, receipt_catalog))) (receipt_key ''billing'' order_placed)"
proof -
  obtain s1 where s1: "first_delivery = (Inr [], s1)" using first_delivery_handled by blast
  have "has_receipt plain_api (iw_db s1) (receipt_key ''billing'' (ctx_envelope billing_context))"
    using inbox.run_atomic(2) [OF s1 [unfolded first_delivery_def] _ store_write_ok fresh_ids refl]
      count_handler_ok by (simp add: counting_get)
  then have "has_receipt plain_api (iw_db s1) (receipt_key ''billing'' order_placed)"
    by (simp add: billing_context_def handler_context_new_def)
  with receipts_kept_within_retention [OF receipt_catalog_ok order_in_month, of "iw_db s1" "''billing''"
      "env_id order_placed"]
  have "has_receipt plain_api (fst (maintain_inbox month_of_receipts (timestamp_date (Timestamp 1711000000 0))
        (iw_db s1, receipt_catalog))) (receipt_key ''billing'' order_placed)"
    unfolding receipt_key_def by blast
  then show ?thesis using s1 by blast
qed

theorem handled_once_within_retention_witness:
  "\<exists>y. retained_history plain_api (transactional_run ''billing'' counting (pg_inbox plain_api False)
        (store_write (tx_outbox plain_api))) ''billing'' month_of_receipts (receipt_key ''billing'' order_placed)
      (fresh_world, receipt_catalog)
      [(receipt_key ''billing'' order_placed, True), (receipt_key ''billing'' order_placed, False)] y"
proof -
  let ?run = "transactional_run ''billing'' counting (pg_inbox plain_api False) (store_write (tx_outbox plain_api))"
  let ?k = "receipt_key ''billing'' order_placed"
  let ?h = "retained_history plain_api ?run ''billing'' month_of_receipts ?k (fresh_world, receipt_catalog)"
  obtain s1 where s1: "first_delivery = (Inr [], s1)" "ids_fresh s1" "db_app (iw_db s1) = 1"
    using first_delivery_handled by blast
  have c: "ctx_envelope billing_context = order_placed"
    by (simp add: billing_context_def handler_context_new_def)
  have effect: "(iw_db s1 \<noteq> iw_db fresh_world) = True"
    using s1(3) by (auto simp: fresh_world_def empty_db_def)
  obtain d w where m: "maintain_inbox month_of_receipts (timestamp_date (Timestamp 1711000000 0))
      (iw_db s1, receipt_catalog) = (d, w)" by fastforce
  let ?s2 = "s1\<lparr>iw_db := d\<rparr>"
  have "set (db_inbox d) \<subseteq> set (db_inbox (iw_db s1))" using m by (auto simp: maintain_inbox_def Let_def)
  then have fresh: "ids_fresh ?s2" using s1(2) by (auto simp: ids_fresh_def)
  obtain r s3 where s3: "?run billing_context ?s2 = (r, s3)" by fastforce
  have "?h [(?k, True)] (s1, receipt_catalog)"
    using retained_history.delivers [where run = ?run and c = billing_context, OF retained_history.begins fresh_ids
        s1(1) [unfolded first_delivery_def]]
    unfolding c effect by simp
  moreover have "within_retention plain_api month_of_receipts (timestamp_date (Timestamp 1711000000 0)) (snd (snd ?k))"
    using order_in_month by (simp add: receipt_key_def)
  ultimately have "?h [(?k, True)] (?s2, w)" using m by (rule retained_history.maintains)
  from retained_history.delivers [where run = ?run and c = billing_context, OF this fresh s3]
  have log: "?h [(?k, True), (?k, iw_db s3 \<noteq> iw_db ?s2)] (s3, w)" unfolding c by simp
  have h: "\<forall>t h. om_get counting t = Some h \<longrightarrow> handler_ok iw_db tx_db (has_receipt plain_api) h"
    using count_handler_ok by (auto simp: counting_def om_get_def split: if_splits)
  from handled_once_within_retention [OF log receipt_catalog_ok h] have "iw_db s3 = iw_db ?s2"
    by (auto split: if_splits)
  then show ?thesis using log by auto
qed

text \<open>An outbox whose two rows are of January: one waits, one was dispatched.\<close>

definition january_outbox :: "outbox_row list" where
  "january_outbox =
     [outbox_row_of decimal_uuid 1704100000000000 order_placed,
      (outbox_row_of decimal_uuid 1704100000000001 order_placed)\<lparr>or_status := Dispatched\<rparr>]"

theorem maintenance_leaves_claims_witness:
  "claimable 1711000000000000 [] 10 (fst (maintain_outbox month_of_receipts (timestamp_date (Timestamp 1711000000 0))
      (january_outbox, receipt_catalog\<lparr>pw_table := OutboxTable\<rparr>)))
    = [outbox_row_of decimal_uuid 1704100000000000 order_placed]"
proof -
  have "claimable 1711000000000000 [] 10 january_outbox = [outbox_row_of decimal_uuid 1704100000000000 order_placed]"
    by (simp add: claimable_def january_outbox_def due_def outbox_row_of_def I64_MAX_def)
  moreover have "pw_table (receipt_catalog\<lparr>pw_table := OutboxTable\<rparr>) = OutboxTable" by simp
  ultimately show ?thesis
    using maintenance_leaves_claims [of "receipt_catalog\<lparr>pw_table := OutboxTable\<rparr>"] by simp
qed

end
