(* ===== verification/Nats_Broker.thy ===== *)
theory Nats_Broker
  imports Nats Settlement
begin

text \<open>
  The NATS transport (\<open>nats/src/transport.rs\<close>, \<open>subscribe.rs\<close>) with a JetStream that keeps what its
  documentation promises: \<open>jetstream_ok\<close> says what a stream has and what a consumer delivers again. Then
  a failed delivery is never lost, whichever of the calls fails, and an error copy is never taken for
  a duplicate of the message it copies.
\<close>

section \<open>What JetStream promises\<close>

text \<open>The next delivery of a message.\<close>

definition next_delivery :: "'h nats_message \<Rightarrow> 'h nats_message" where
  "next_delivery m = m\<lparr>nm_delivered := map_sum id (\<lambda>n. n + 1) (nm_delivered m)\<rparr>"

definition message_ids :: "'h header_api \<Rightarrow> 'h \<Rightarrow> string list option" where
  "message_ids H h = map_of (hm_entries H h) MSG_ID"

text \<open>
  \<open>pending s\<close> are the messages that the consumer will deliver, \<open>stored s\<close> those the stream has, by
  subject, headers and payload. Documented: a publish whose acknowledgement came is in the stream, unless its
  \<open>Nats-Msg-Id\<close> is one that the stream has seen, so that it counts as a duplicate; settling a message takes
  nothing from the stream; and a message that is naked, or whose settlement did not reach the server, is
  delivered again.
\<close>

definition jetstream_ok ::
    "'h header_api \<Rightarrow> ('s, 'h, 'a, 'q) jetstream \<Rightarrow> ('s \<Rightarrow> 'h nats_message multiset)
      \<Rightarrow> ('s \<Rightarrow> (string \<times> 'h \<times> string) set) \<Rightarrow> bool" where
  "jetstream_ok H J pending stored \<longleftrightarrow>
     (\<forall>dest h data a s u t. js_publish J dest h data s = (Inr a, u) \<longrightarrow> js_await_ack J a u = (Inr (), t) \<longrightarrow>
        (dest, h, data) \<in> stored t
        \<or> message_ids H h \<noteq> None \<and> (\<exists>(d', h', p') \<in> stored t. message_ids H h' = message_ids H h))
     \<and> (\<forall>m kind s r t. js_double_ack J m kind s = (r, t) \<longrightarrow> stored s \<subseteq> stored t)
     \<and> (\<forall>m delay s r t. js_double_ack J m (Nak delay) s = (r, t) \<longrightarrow> next_delivery m \<in># pending t)"

section \<open>Error copies\<close>

lemma error_headers_ids:
  assumes H: "header_api_ok H"
  shows "message_ids H (error_headers H U e) = None"
proof -
  have "CE @ n \<noteq> MSG_ID" "MSG_ID \<noteq> CE @ n" for n using msg_id_no_attribute(3) [of n] by simp_all
  then have "map_of (hm_entries H (foldl (\<lambda>h (n, v). hm_insert H (CE @ n) (hv_from H (one_line v)) h) h kvs)) MSG_ID
      = map_of (hm_entries H h) MSG_ID" for h kvs
    by (induction kvs arbitrary: h) (auto simp: header_api_laws(3) [OF H])
  then show ?thesis by (simp add: message_ids_def error_headers_def header_api_laws(2) [OF H])
qed

lemma publish_to_stored:
  assumes J: "jetstream_ok H J pending stored" and none: "message_ids H h = None"
    and run: "nats_publish_to J dest h data s = (Inr (), t)"
  shows "(dest, h, data) \<in> stored t"
proof -
  obtain a u where "js_publish J dest h data s = (Inr a, u)" "js_await_ack J a u = (Inr (), t)"
    using run unfolding nats_publish_to_def by (auto simp: io_simps)
  then show ?thesis using J none unfolding jetstream_ok_def by blast
qed

definition error_copy ::
    "'h header_api \<Rightarrow> uuid_api \<Rightarrow> nats_settings \<Rightarrow> string \<Rightarrow> envelope \<Rightarrow> string \<times> 'h \<times> string" where
  "error_copy H U settings endpoint g = (error_subject settings endpoint, error_headers H U g, env_data g)"

lemma settle_sent: "settle J m kind s = (r, t) \<Longrightarrow> \<exists>q. js_double_ack J m kind s = (q, t)"
  by (cases "js_double_ack J m kind s") (auto simp: settle_def map_err_io_def split: sum.splits)

lemma nats_lossless:
  assumes H: "header_api_ok H" and J: "jetstream_ok H J pending stored"
  shows "lossless_delivery (nats_transport H U J settings) (nats_delivery J m e a) n (\<lambda>_. True)
    (\<lambda>s. next_delivery m \<in># pending s) (\<lambda>g s. error_copy H U settings n g \<in> stored s)"
proof
  fix s t w r
  assume r: "dl_retry (nats_delivery J m e a) w s = (r, t)"
  obtain q where "js_double_ack J m (Nak (Some w)) s = (q, t)"
    using settle_sent [of J m "Nak (Some w)" s r t] r by (auto simp: nats_delivery_def)
  then show "next_delivery m \<in># pending t" using J unfolding jetstream_ok_def by blast
next
  fix s t g r
  assume c: "error_copy H U settings n g \<in> stored s" and r: "dl_reject (nats_delivery J m e a) s = (r, t)"
  obtain q where "js_double_ack J m Term s = (q, t)"
    using settle_sent [of J m Term s r t] r by (auto simp: nats_delivery_def)
  then have "stored s \<subseteq> stored t" using J unfolding jetstream_ok_def by blast
  then show "error_copy H U settings n g \<in> stored t" using c by blast
next
  fix s t g
  assume "tr_publish_error (nats_transport H U J settings) n g s = (Inr (), t)"
  then show "error_copy H U settings n g \<in> stored t"
    using publish_to_stored [OF J error_headers_ids [OF H]]
    by (simp add: nats_transport_def nats_publish_error_def error_copy_def)
qed simp

section \<open>Properties\<close>

text \<open>
  C12: over a JetStream that keeps its promises, no message is lost: one whose handling failed is delivered
  again or has its copy with the error in the endpoint's error subject, whichever calls fail on the way
  (the copy carries no message id, so it is no duplicate of the message); and one that is no envelope leaves
  the stream of deliveries only when its copy is there.
\<close>

theorem nats_loses_nothing:
  assumes "header_api_ok H" and "jetstream_ok H J pending stored"
  shows "(handle_delivery ep (nats_transport H U J settings) source (nats_delivery J m e a) s = (Inl f, u)
      \<and> process ep (nats_transport H U J settings) source (nats_delivery J m e a) s = Some (out, t) \<longrightarrow>
        next_delivery m \<in># pending t
        \<or> (\<exists>x g. f \<in> {HandlerFailure x, Undecodable x} \<and> error_envelope e (ep_name ep) x a = Inr g
            \<and> error_copy H U settings (ep_name ep) g \<in> stored t))
    \<and> (read_message H U debug m = Inl error \<and> (\<forall>(n, vs) \<in> set (message_entries H m). vs \<noteq> [])
        \<and> nats_item H U debug J settings endpoint (Inr m) s = (None, t) \<longrightarrow>
          (\<exists>h. (error_subject settings endpoint, h, nm_payload m) \<in> stored t))"
proof (intro conjI impI; elim conjE)
  assume run: "handle_delivery ep (nats_transport H U J settings) source (nats_delivery J m e a) s = (Inl f, u)"
    and fin: "process ep (nats_transport H U J settings) source (nats_delivery J m e a) s = Some (out, t)"
  have d: "dl_envelope (nats_delivery J m e a) = e" "dl_attempt (nats_delivery J m e a) = a"
    by (simp_all add: nats_delivery_def)
  show "next_delivery m \<in># pending t
      \<or> (\<exists>x g. f \<in> {HandlerFailure x, Undecodable x} \<and> error_envelope e (ep_name ep) x a = Inr g
          \<and> error_copy H U settings (ep_name ep) g \<in> stored t)"
    using lossless_delivery.never_lost [OF nats_lossless [OF assms] refl run _ fin] unfolding d by simp
next
  assume bad: "read_message H U debug m = Inl error" and full: "\<forall>(n, vs) \<in> set (message_entries H m). vs \<noteq> []"
    and item: "nats_item H U debug J settings endpoint (Inr m) s = (None, t)"
  obtain x where x: "set_aside H J settings endpoint m error s = (Inr x, t)"
    using item bad by (auto simp: nats_item_def split: sum.splits prod.splits)
  obtain h q u where p: "nats_publish_to J (error_subject settings endpoint) h (nm_payload m) s = (q, u)"
      and names: "\<forall>n. map_of (hm_entries H h) n =
        (if n = CE @ ''errormessage'' then Some [hv_from H (one_line error)]
         else if n = CE @ ''errortype'' then Some [hv_from H ''invalid_envelope'']
         else if n = CE @ ''errorendpoint'' then Some [hv_from H endpoint]
         else if n = MSG_ID then None else map_of (message_entries H m) n)"
      and c: "case q of Inl e \<Rightarrow> Inr x = Inl e \<and> t = u | Inr _ \<Rightarrow> (Inr x, t) = settle J m Term u"
    using set_aside_headers [OF assms(1) full x] by (elim exE conjE)
  have none: "message_ids H h = None"
    using names [rule_format, of MSG_ID] msg_id_no_attribute(3) [symmetric] by (simp add: message_ids_def)
  obtain y where q: "q = Inr y" "(Inr x, t) = settle J m Term u" using c by (cases q) auto
  then have "(error_subject settings endpoint, h, nm_payload m) \<in> stored u"
    using publish_to_stored [OF assms(2) none] p by simp
  moreover have "js_double_ack J m Term u = (Inr x, t)" using q(2) [symmetric] by (simp add: settle_def io_simps)
  then have "stored u \<subseteq> stored t" using assms(2) unfolding jetstream_ok_def by blast
  ultimately show "\<exists>h. (error_subject settings endpoint, h, nm_payload m) \<in> stored t" by blast
qed

text \<open>A JetStream that keeps the promises: the messages to deliver, and the stream.\<close>

type_synonym list_stream = "(string \<times> string list) list nats_message list
  \<times> (string \<times> (string \<times> string list) list \<times> string) list"

definition list_jetstream :: "(list_stream, (string \<times> string list) list, unit, string) jetstream" where
  "list_jetstream =
     \<lparr>js_publish = (\<lambda>dest h data (p, st). (Inr (), (p, st @ [(dest, h, data)]))),
      js_await_ack = (\<lambda>_ s. (Inr (), s)), js_get_stream = (\<lambda>_ s. (Inr (), s)),
      js_consumer_info = (\<lambda>_ s. (Inl NotFound, s)),
      js_create_consumer = (\<lambda>config s. (Inr (cc_durable_name config), s)), js_messages = (\<lambda>q s. (Inr q, s)),
      js_double_ack = (\<lambda>m kind (p, st). case kind of
         Nak _ \<Rightarrow> (Inl ''the connection was lost'', (p @ [next_delivery m], st)) | _ \<Rightarrow> (Inr (), (p, st)))\<rparr>"

lemma list_jetstream_ok: "jetstream_ok H list_jetstream (\<lambda>s. mset (fst s)) (\<lambda>s. set (snd s))"
  by (auto simp: jetstream_ok_def list_jetstream_def split: ack_kind.splits)

definition refusing_endpoint :: "list_stream endpoint" where
  "refusing_endpoint =
     \<lparr>ep_name = ''billing'', ep_retry = retry_default, ep_message_types = [MessageType ''order.placed.v1''],
      ep_transactional = False,
      ep_pipeline = (\<lambda>_ s. (Inl (HandlerFailure (handler_error_new ''db'' ''down'')), s))\<rparr>"

theorem nats_loses_nothing_witness:
  "(\<exists>x t. process refusing_endpoint (nats_transport list_headers decimal_uuid list_jetstream nats_settings_default)
        (Source ''shop'') (nats_delivery list_jetstream no_envelope order_placed 1) ([], []) = Some (Inl x, t)
      \<and> next_delivery no_envelope \<in># mset (fst t))
    \<and> (\<exists>t h. nats_item list_headers decimal_uuid (\<lambda>s. s) list_jetstream nats_settings_default ''billing''
          (Inr no_envelope) ([], []) = (None, t)
      \<and> (''sisa._error.billing'', h, ''hello'') \<in> set (snd t))"
proof -
  let ?T = "nats_transport list_headers decimal_uuid list_jetstream nats_settings_default"
  let ?d = "nats_delivery list_jetstream no_envelope order_placed 1"
  note keeps = nats_loses_nothing [OF list_headers_ok list_jetstream_ok]
  have run: "handle_delivery refusing_endpoint ?T (Source ''shop'') ?d ([], [])
      = (Inl (HandlerFailure (handler_error_new ''db'' ''down'')), ([], []))"
    by (simp add: handle_delivery_def refusing_endpoint_def Let_def)
  have "\<not> is_last (ep_retry refusing_endpoint) 1"
    by (simp add: is_last_def refusing_endpoint_def retry_default_def)
  then obtain x t where p: "process refusing_endpoint ?T (Source ''shop'') ?d ([], []) = Some (Inl x, t)"
      "set (snd t) = {}"
    unfolding process_def run
    by (simp add: nats_delivery_def settle_def map_err_io_def list_jetstream_def)
  have "next_delivery no_envelope \<in># mset (fst t)"
    using keeps [THEN conjunct1, THEN mp, OF conjI [OF run p(1)]] p(2) by simp
  moreover obtain error where e: "read_message list_headers decimal_uuid (\<lambda>s. s) no_envelope = Inl error"
    by (simp add: read_message_def no_envelope_def message_entries_def from_attributes_def
        required_def om_collect_def om_get_def ok_or_def List.map_filter_def)
  moreover obtain t' where i: "nats_item list_headers decimal_uuid (\<lambda>s. s) list_jetstream nats_settings_default
      ''billing'' (Inr no_envelope) ([], []) = (None, t')"
    using e by (simp add: nats_item_def set_aside_def nats_publish_to_def list_jetstream_def and_then_io_def
        map_err_io_def Let_def)
  moreover have "\<forall>(n, vs) \<in> set (message_entries list_headers no_envelope). vs \<noteq> []"
    by (simp add: message_entries_def no_envelope_def)
  ultimately show ?thesis
    using keeps [THEN conjunct2, THEN mp, OF conjI [OF e conjI [OF _ i]]] p(1)
    by (auto simp: no_envelope_def error_subject_def nats_settings_default_def)
qed

end
