(* ===== verification/Spec2Isabelle.thy ===== *)
theory Spec2Isabelle
  imports Prelude Decimal Ordered_Map Errors Civil_Date Date_Time Partition Message Envelope Codec
    Retry Store Handler Endpoint Settlement In_Memory Inbox_Step Dispatch Maintenance Bus
    Pg_Outbox Delivery Pg_Inbox Pg_Partitions Nats Progress Unreadable Clock Publish_Order Debug_Text
    Inbox_Delivery Orders Consumers Retention Nats_Broker
begin

text \<open>
  A model of sisa-messaging-rs, a messaging library for services that share a PostgreSQL database
  and a NATS JetStream broker. An application publishes typed messages as CloudEvents envelopes:
  directly on a bus, or into an outbox table in the transaction of its own work. A dispatcher
  claims rows of the outbox under a lease, publishes their envelopes and marks them. On the other
  side an endpoint subscribes to the types of its handlers; its worker handles each delivery, acks
  it, has it retried with a backoff, or sends a copy with the error to the endpoint's error
  destination and rejects it. A transactional endpoint records a receipt in an inbox table in the
  transaction its handler works and publishes in. Both tables are partitioned by day, and a
  maintenance worker makes the coming partitions and expires old ones.

  Paths below are under \<open>src/crates/\<close> unless they say otherwise; each theory names the file it models in its own header, and
  a definition has the name of its Rust item where HOL allows it.

  \<^bold>\<open>The program and its theories\<close>

  \<^item> \<open>Prelude\<close>, \<open>Decimal\<close>, \<open>Ordered_Map\<close>: what the code uses of Rust's library. A \<open>Result\<close> is a sum
    with the error on the left and \<open>?\<close> is \<open>and_then\<close>; strings are lists of UTF-8 bytes; decimal
    text; \<open>BTreeMap\<close> as a sorted association list. Its laws are the locale \<open>ordered_map\<close>,
    interpreted as \<open>om\<close>.
  \<^item> \<open>Errors\<close>, \<open>Civil_Date\<close>, \<open>Date_Time\<close>, \<open>Partition\<close>, \<open>Message\<close>, \<open>Envelope\<close>, \<open>Codec\<close>, \<open>Store\<close>: the
    crate \<open>core\<close> (\<open>error.rs\<close>, \<open>time.rs\<close>, \<open>partition.rs\<close>, \<open>message.rs\<close>, \<open>envelope.rs\<close>, \<open>codec.rs\<close>,
    \<open>store.rs\<close>, \<open>transport.rs\<close>). The traits of stores and transports are records of functions over
    an explicit state, in the type \<open>io\<close>: a function from the state to a result and the next state.
  \<^item> \<open>Retry\<close>, \<open>Handler\<close>, \<open>Endpoint\<close>, \<open>Settlement\<close>, \<open>In_Memory\<close>, \<open>Inbox_Step\<close>, \<open>Dispatch\<close>,
    \<open>Maintenance\<close>, \<open>Bus\<close>: the crate \<open>runtime\<close>. A future that may panic returns an \<open>outcome\<close>, and
    \<open>call\<close> is \<open>catch_unwind\<close>. A worker's \<open>select!\<close> loop takes the list of events it receives.
  \<^item> \<open>Pg_Outbox\<close>, \<open>Delivery\<close>, \<open>Pg_Inbox\<close>, \<open>Pg_Partitions\<close>: the crate \<open>postgres\<close>. Each SQL statement is
    a function on the table's rows, its text where the code builds it from data. \<open>Delivery\<close> puts the
    outbox in a world with the broker, a clock, a script of faults (a statement refused, or done
    with its answer lost) and other sessions that act between any two statements.
  \<^item> \<open>Progress\<close>, \<open>Unreadable\<close>: the dispatcher's round over that world, and claims that meet rows
    which are no envelopes.
  \<^item> \<open>Nats\<close>: the crate \<open>nats\<close>: headers, subjects, consumers, reading messages, setting aside what
    is no envelope. \<open>Nats_Broker\<close> is that transport over a JetStream that keeps its documented promises.
  \<^item> \<open>Clock\<close>, \<open>Publish_Order\<close>: \<open>core/src/clock.rs\<close> and what reads it, a new id, the current time and a
    new envelope; then the order of a process's messages through the outbox. Elsewhere the fresh id and
    the time of an envelope are arguments.
  \<^item> \<open>Inbox_Delivery\<close>: a delivery to an endpoint with an inbox, from the handler to what is settled.
  \<^item> \<open>Consumers\<close>: the inbox pipeline one await at a time, and any number of its runs interleaved on one
    database.
  \<^item> \<open>Retention\<close>: the maintenance worker on the tables that the inbox and the dispatcher work on.
  \<^item> \<open>Debug_Text\<close>: the \<open>Debug\<close> impls of all crates, as the texts that logs show.
  \<^item> \<open>Orders\<close>: the application of \<open>src/examples/orders/src/main.rs\<close>: placing an order with its message in
    one transaction, billing it once, the bus it runs and the wait for the invoice. Its service is a
    step relation \<open>service_step\<close>: orders placed, messages published from committed outbox rows, any
    published message delivered any number of times, and time passing with new faults.

  \<^bold>\<open>How they interact\<close>

  \<open>Bus.start\<close> builds the endpoints, subscribes each and starts one worker per endpoint, per
  maintained store and for the dispatcher. An endpoint's worker is \<open>Endpoint.receive\<close>; it runs the
  endpoint's pipeline, \<open>plain_run\<close> or \<open>Inbox_Step.transactional_run\<close>, and settles the delivery. The
  interfaces between them are locales, each interpreted on the model of the code that provides it:

  \<^item> \<open>delivery_contract\<close> (\<open>Settlement\<close>): what settling a delivery does to the copies of a transport,
    interpreted on the in-memory transport as \<open>im\<close>;
  \<^item> \<open>lossless_delivery\<close> (\<open>Settlement\<close>): what remains of it where settling may fail, interpreted on the
    in-memory transport as \<open>im_lossless\<close> and shown of the NATS transport in \<open>nats_lossless\<close>;
  \<^item> \<open>inbox_contract\<close> (\<open>Inbox_Step\<close>): begin, record and commit of an inbox, interpreted on
    PostgreSQL as \<open>inbox\<close> (\<open>Pg_Inbox\<close>), and extended by \<open>competing_inbox\<close> (\<open>Consumers\<close>), what an open
    transaction sees of others' commits, interpreted there as \<open>competing\<close>;
  \<^item> \<open>outbox_contract\<close> (\<open>Dispatch\<close>): claims and marks as steps of a relation, interpreted on the
    PostgreSQL outbox as \<open>dispatcher\<close> (\<open>Delivery\<close>), with \<open>outbox_step\<close> the abstract specification:
    any interleaving of commits, claims, publishes and marks, in which only rows whose envelope the
    broker has are marked dispatched;
  \<^item> \<open>partition_contract\<close> (\<open>Maintenance\<close>): the rows that counting and expiring partitions keep,
    interpreted on PostgreSQL as \<open>partitions\<close> (\<open>Pg_Partitions\<close>) for what is unsent and as \<open>receipts\<close>
    (\<open>Retention\<close>) for receipts since a day.

  \<^bold>\<open>What is proved\<close>

  \<^item> Delivery: dispatched means published, in every state the dispatcher's loop reaches among faults,
    expired leases and other sessions; it refines \<open>outbox_step\<close>; rows are neither lost nor forged; a
    claim takes the oldest due rows for itself; a mark by a lease that ran out changes nothing; a round
    without faults delivers all it claims, and one without a broker puts it all back.
  \<^item> The inbox: a message's deliveries change the database at most once in any history, and also where
    consumers of its copies run at the same time, and exactly once when one of them has succeeded; the
    receipt, the handler's work and the rows it publishes commit together or not at all, and when nothing
    fails they do, before the message is acknowledged.
  \<^item> Endpoints: building, panics as failed attempts with and without an inbox, the error envelope, exactly as many attempts as the policy allows;
    over NATS no failed message is lost.
  \<^item> Texts: envelopes through attributes, outbox rows and NATS headers, timestamps, the calendar
    against an enumeration of days, message types, and (below) a message from its publisher to its
    handler.
  \<^item> Order: the messages of one process leave the outbox in the order it published them, whatever its
    clock does, in rounds that meet no fault.
  \<^item> Privacy: what is shown of a message tells its data only by its length.
  \<^item> The orders service, over everything above: placing is all or nothing, no order is billed twice,
    every published order can be billed, and the bus runs exactly that pipeline.
  \<^item> Partitions: what is unsent is never dropped, and the dispatcher can claim the same rows before and after
    a maintenance pass; a message within the retention keeps its receipt, so it is handled at most once
    among maintenance passes, too; the requested days are covered; a partition's name
    is one identifier in the statement that expires it.

  \<^bold>\<open>Bounds and loops\<close>

  A loop over data is recursion on it. The dispatcher's loop has no bound, so it is a
  \<open>partial_function\<close> whose \<open>None\<close> is running for ever, and \<open>dispatcher_stops_when_told\<close> says
  that it returns with the turn in which the stop signal comes; \<open>dispatch_turns\<close> runs the first n turns of it. The example's wait is one too,
  and \<open>invoiced_returns_iff\<close> says when it returns. \<open>fill_gaps\<close> ends because
  each pass moves the day forward, to the end of a partition or of a gap. Unsigned and signed 32 and 64 bit values
  are numbers with their saturation, wrapping, refusal or clamping written out (\<open>saturating_add_u32\<close>, \<open>wrapping_add_u32\<close>,
  \<open>I32_MAX\<close>, \<open>attempt_of\<close>).

  \<^bold>\<open>What is assumed\<close>

  Crates that are not in the repository are parameters: \<open>serde_json\<close> (\<open>message_impl\<close>, law \<open>serde_ok\<close>),
  \<open>uuid\<close> (\<open>uuid_api\<close>, law \<open>uuid_text_ok\<close>; \<open>uuid_v7\<close>, law \<open>v7_ok\<close>: ids of one context rise until they
  end), PostgreSQL's casts of times and intervals (\<open>pg_api\<close>, law
  \<open>pg_api_ok\<close>), \<open>async-nats\<close> (\<open>header_api\<close>, law \<open>header_api_ok\<close>, and \<open>jetstream\<close>, whose law
  \<open>jetstream_ok\<close> only \<open>Nats_Broker\<close> uses). Each
  law is shown to hold of an instance. The theorems of \<open>Pg_Inbox\<close> and \<open>Orders\<close> take
  one inbox transaction at a time; in \<open>Consumers\<close> they interleave between the awaits of the pipeline, where
  the unique index makes an insert wait while another open transaction holds its key, a transaction sees what
  others commit, and a handler is one step. That no message is delivered after the retention of its receipt is
  the operator's to see to (\<open>Retention\<close> takes it as the premise \<open>within_retention\<close>). A maintenance pass is
  one step; its lock keeps it from meeting another. An \<open>Instant\<close> never overflows.

  \<^bold>\<open>Not modelled\<close>

  \<open>core/src/publisher.rs\<close> (a trait of one method, whose three implementations are modelled in
  \<open>Handler\<close>), the \<open>lib.rs\<close> files (re-exports, and the migrator that runs SQL files), logging, the
  alternate form of \<open>Debug\<close>, the \<open>testing\<close> crate (containers for tests), and of the example its
  environment variables, output and task runtime.
\<close>

section \<open>Properties that span components\<close>

text \<open>
  C6: a message published by way of the outbox reaches its handler unchanged: the row of its
  envelope reads back as that envelope, the envelope's headers can be written, a NATS message with
  those headers and its data is delivered as that envelope with the delivery count as the attempt,
  and the typed handler is called with the very message that was published.
\<close>

theorem message_travels_intact:
  assumes "pg_api_ok P" and "header_api_ok H" and "serde_ok M" and "pg_time_range now"
    and "timestamp_ok (snd fresh)" and "source_new (source_str source) = Inr source"
    and "encode fresh source M message = Some (Inr e)"
    and "one_line (source_str source) = source_str source"
    and "one_line (message_id_text (pg_uuid P) (fst fresh)) = message_id_text (pg_uuid P) (fst fresh)"
    and "ctx_envelope c = e"
  shows "\<exists>r h. read_record P (select_row P (outbox_row_of (pg_uuid P) now e)) = Inr r
    \<and> rec_envelope r = e \<and> headers H (pg_uuid P) e = Inr h
    \<and> nats_publish H (pg_uuid P) J settings e s
        = nats_publish_to J (subject settings (env_type e)) h (env_data e) s
    \<and> (\<forall>m n. nm_headers m = Some h \<and> nm_payload m = env_data e \<and> nm_delivered m = Inr n \<longrightarrow>
        nats_item H (pg_uuid P) debug J settings endpoint (Inr m) s
          = (Some (Inr (nats_delivery J m e (attempt_of n))), s))
    \<and> decode_and_handle M handler c t =
        (case handler message c t of
           (Panicked p, c', t') \<Rightarrow> (Panicked p, c', t')
         | (Returned q, c', t') \<Rightarrow> (Returned (map_err HandlerFailure q), c', t'))"
proof -
  have U: "uuid_text_ok (pg_uuid P)" using assms(1) by (simp add: pg_api_ok_def)
  have e: "envelope_ok e" using encode_ok [OF assms(7,5,6)] .
  obtain r where r: "read_record P (select_row P (outbox_row_of (pg_uuid P) now e)) = Inr r"
      "rec_envelope r = e"
    using read_row_of [OF assms(1) e assms(4)] by (auto simp: outbox_record_new_def)
  obtain h where h: "headers H (pg_uuid P) e = Inr h"
    using headers_total [OF assms(2) encoded_one_line [OF assms(7-9)]] by (auto simp: is_ok_iff)
  have "env_content_type e = ContentType json_content_type" and d: "json_encode M message = Inr (env_data e)"
    using assms(7) by (auto simp: encode_Inr envelope_new_def)
  moreover have "can_decode json_content_type (ContentType json_content_type)"
    using json_can_decode(1) by (simp add: eq_ignore_ascii_case_def)
  ultimately have "decode_and_handle M handler c t =
        (case handler message c t of
           (Panicked p, c', t') \<Rightarrow> (Panicked p, c', t')
         | (Returned q, c', t') \<Rightarrow> (Returned (map_err HandlerFailure q), c', t'))"
    using json_round_trip [OF assms(3) d] assms(10)
    by (simp add: decode_and_handle_def Let_def)
  then show ?thesis
    using r h headers_read_back [OF assms(2) U e h]
    by (auto simp: nats_item_def nats_publish_def and_then_io_def lift_io_def)
qed

theorem message_travels_intact_witness:
  "\<exists>r h. read_record plain_api (select_row plain_api (outbox_row_of decimal_uuid 1000
        (envelope_new (MessageId 9) (Timestamp 1709245800 250000000) (MessageType ''order.paid.v1'')
          (Source ''shop'') (ContentType json_content_type) ''paid''))) = Inr r
    \<and> headers list_headers decimal_uuid (rec_envelope r) = Inr h
    \<and> nats_item list_headers decimal_uuid (\<lambda>s. s) log_jetstream nats_settings_default ''billing''
        (Inr \<lparr>nm_headers = Some h, nm_payload = ''paid'', nm_delivered = Inr 2\<rparr>) []
      = (Some (Inr (nats_delivery log_jetstream
          \<lparr>nm_headers = Some h, nm_payload = ''paid'', nm_delivered = Inr 2\<rparr> (rec_envelope r) 2)), [])"
proof -
  let ?e = "envelope_new (MessageId 9) (Timestamp 1709245800 250000000) (MessageType ''order.paid.v1'')
    (Source ''shop'') (ContentType json_content_type) ''paid''"
  let ?fresh = "(MessageId 9, Timestamp 1709245800 250000000)"
  have U: "pg_uuid plain_api = decimal_uuid" by (simp add: plain_api_def)
  have range: "pg_time_range 1000" by (simp add: pg_time_range_def second_consts)
  have s: "one_line (source_str (Source ''shop'')) = source_str (Source ''shop'')"
    by (simp add: one_line_def)
  have i: "one_line (message_id_text (pg_uuid plain_api) (fst ?fresh))
      = message_id_text (pg_uuid plain_api) (fst ?fresh)"
    unfolding U by (rule decimal_id_one_line)
  have e: "encode ?fresh (Source ''shop'') text_message ''paid'' = Some (Inr ?e)"
    by (simp add: text_message_encode)
  have c: "ctx_envelope (handler_context_new (Source ''shop'') ''billing'' ?e 2) = ?e"
    by (simp add: handler_context_new_def)
  have d: "env_data ?e = ''paid''" by (simp add: envelope_new_def)
  note travel = message_travels_intact [OF plain_api_ok list_headers_ok text_message_serde range
    sample_time sample_source e s i c, unfolded U d]
  obtain r h where r: "read_record plain_api (select_row plain_api (outbox_row_of decimal_uuid 1000 ?e))
      = Inr r" "rec_envelope r = ?e" and h: "headers list_headers decimal_uuid ?e = Inr h"
    and items: "\<forall>m n. nm_headers m = Some h \<and> nm_payload m = ''paid'' \<and> nm_delivered m = Inr n \<longrightarrow>
        nats_item list_headers decimal_uuid (\<lambda>s. s) log_jetstream nats_settings_default ''billing'' (Inr m) []
          = (Some (Inr (nats_delivery log_jetstream m ?e (attempt_of n))), [])"
    using travel [where debug = "\<lambda>s. s" and J = log_jetstream and settings = nats_settings_default
        and endpoint = "''billing''" and s = "[]" and t = "()"
        and handler = "\<lambda>_ c t. (Returned (Inr ()), c, t)"]
    by (elim exE conjE) (rule that)
  have "attempt_of 2 = 2" by (simp add: attempt_of_def U32_MAX_def)
  then have "nats_item list_headers decimal_uuid (\<lambda>s. s) log_jetstream nats_settings_default ''billing''
        (Inr \<lparr>nm_headers = Some h, nm_payload = ''paid'', nm_delivered = Inr 2\<rparr>) []
      = (Some (Inr (nats_delivery log_jetstream
          \<lparr>nm_headers = Some h, nm_payload = ''paid'', nm_delivered = Inr 2\<rparr> ?e 2)), [])"
    using items by simp
  then show ?thesis using r(1) h unfolding r(2) [symmetric] by blast
qed

end
